(* ===== verification/Prelude.thy ===== *)
theory Prelude
  imports Main "HOL-Library.Word" "HOL-Library.Multiset" "HOL-Library.Monad_Syntax"
begin

text \<open>
  Shared vocabulary of the development: names for Go's fixed-width types, the collections that carry
  the component proofs (\<open>go_word\<close>, \<open>go_list\<close>), and the generic facts on lists, options and words that
  several components use.

  Go's run-time panics (nil dereference, index out of range, failed type assertion) are the value
  \<^term>\<open>None\<close> of an \<open>option\<close>, threaded with the do-notation of HOL-Library.Monad\_Syntax, so every
  panicking branch of the source is a branch of the model.
\<close>

unbundle bit_operations_syntax

type_synonym uint8 = "8 word"
type_synonym uint32 = "32 word"
type_synonym uint64 = "64 word"
type_synonym bytes = "uint8 list"

named_theorems go_word \<open>conversions between Go's integers and nat\<close>
named_theorems go_list \<open>slices: in-range reads and writes\<close>

section \<open>Slices\<close>

text \<open>An indexed read \<open>xs[i]\<close> of Go: it panics outside the slice.\<close>

definition slice_get :: "'a list \<Rightarrow> nat \<Rightarrow> 'a option" where
  "slice_get xs i = (if i < length xs then Some (xs ! i) else None)"

text \<open>An indexed write \<open>xs[i] = v\<close> of Go: it panics outside the slice.\<close>

definition slice_set :: "'a list \<Rightarrow> nat \<Rightarrow> 'a \<Rightarrow> 'a list option" where
  "slice_set xs i v = (if i < length xs then Some (xs[i := v]) else None)"

lemma slice_get_Some_iff [go_list]: "slice_get xs i = Some v \<longleftrightarrow> i < length xs \<and> v = xs ! i"
  by (auto simp: slice_get_def)

lemma slice_get_None_iff [go_list]: "slice_get xs i = None \<longleftrightarrow> length xs \<le> i"
  by (auto simp: slice_get_def)

lemma slice_set_Some_iff [go_list]:
  "slice_set xs i v = Some ys \<longleftrightarrow> i < length xs \<and> ys = xs[i := v]"
  by (auto simp: slice_set_def)

lemma slice_set_None_iff [go_list]: "slice_set xs i v = None \<longleftrightarrow> length xs \<le> i"
  by (auto simp: slice_set_def)

lemma slice_get_in [simp]: "i < length xs \<Longrightarrow> slice_get xs i = Some (xs ! i)"
  by (simp add: slice_get_def)

lemma slice_set_in [simp]: "i < length xs \<Longrightarrow> slice_set xs i v = Some (xs[i := v])"
  by (simp add: slice_set_def)

section \<open>Words\<close>

lemma unat_of_nat_u64 [go_word]: "n < 2 ^ 64 \<Longrightarrow> unat (of_nat n :: uint64) = n"
  by (simp add: unat_of_nat take_bit_nat_eq_self)

lemma unat_of_int_u64 [go_word]:
  assumes "0 \<le> i" and "i < 2 ^ 64"
  shows "unat (of_int i :: uint64) = nat i"
proof -
  have "(of_int i :: uint64) = of_nat (nat i)"
    using assms(1) by simp
  moreover have "nat i < 2 ^ 64"
    using assms by (simp add: nat_less_iff)
  ultimately show ?thesis
    by (simp only: unat_of_nat_u64)
qed

section \<open>Crashes\<close>

text \<open>Where it matters how the program stops: a run-time panic, or \<open>log.Fatalf\<close>, which exits.\<close>

datatype crash = Panic | Fatal

type_synonym 'a result = "crash + 'a"

definition get_at :: "'a list \<Rightarrow> nat \<Rightarrow> 'a result" where
  "get_at xs i = (if i < length xs then Inr (xs ! i) else Inl Panic)"

fun result_bind :: "'a result \<Rightarrow> ('a \<Rightarrow> 'b result) \<Rightarrow> 'b result" where
  "result_bind (Inl c) f = Inl c"
| "result_bind (Inr x) f = f x"

lemma result_bind_Inr [simp]: "result_bind x f = Inr y \<longleftrightarrow> (\<exists>a. x = Inr a \<and> f a = Inr y)"
  by (cases x) auto

lemma result_bind_cong [fundef_cong]:
  "x = x' \<Longrightarrow> (\<And>a. x' = Inr a \<Longrightarrow> f a = f' a) \<Longrightarrow> result_bind x f = result_bind x' f'"
  by (cases x') auto

definition set_at :: "'a list \<Rightarrow> nat \<Rightarrow> 'a \<Rightarrow> 'a list result" where
  "set_at xs i v = (if i < length xs then Inr (xs[i := v]) else Inl Panic)"

lemma get_at_Inr [simp]: "get_at xs i = Inr v \<longleftrightarrow> i < length xs \<and> v = xs ! i"
  by (auto simp: get_at_def)

lemma get_at_in: "i < length xs \<Longrightarrow> get_at xs i = Inr (xs ! i)"
  by simp

lemma set_at_Inr [simp]: "set_at xs i v = Inr ys \<longleftrightarrow> i < length xs \<and> ys = xs[i := v]"
  by (auto simp: set_at_def)

text \<open>A dereference of a pointer that may be nil.\<close>

fun deref :: "'a option \<Rightarrow> 'a result" where
  "deref None = Inl Panic"
| "deref (Some a) = Inr a"

lemma deref_Inr [simp]: "deref x = Inr a \<longleftrightarrow> x = Some a"
  by (cases x) auto

text \<open>A \<open>for\<close> loop over a range: the body runs on each element in turn and may stop the program.\<close>

fun for_each :: "('a \<Rightarrow> 's \<Rightarrow> 's result) \<Rightarrow> 'a list \<Rightarrow> 's \<Rightarrow> 's result" where
  "for_each f [] s = Inr s"
| "for_each f (x # xs) s = result_bind (f x s) (for_each f xs)"

lemma for_each_append: "for_each f (xs @ ys) s = result_bind (for_each f xs s) (for_each f ys)"
proof (induction xs arbitrary: s)
  case (Cons x xs)
  then show ?case by (cases "f x s") auto
qed simp

lemma for_each_inv:
  assumes "for_each f xs s = Inr s'" "P s"
    and "\<And>x s s'. x \<in> set xs \<Longrightarrow> P s \<Longrightarrow> f x s = Inr s' \<Longrightarrow> P s'"
  shows "P s'"
  using assms
proof (induction xs arbitrary: s)
  case (Cons x xs)
  then obtain t where "f x s = Inr t" "for_each f xs t = Inr s'" by auto
  with Cons show ?case by (metis list.set_intros)
qed simp

lemma for_each_total:
  assumes "\<And>x s. x \<in> set xs \<Longrightarrow> P s \<Longrightarrow> \<exists>s'. f x s = Inr s' \<and> P s'" "P s"
  shows "\<exists>s'. for_each f xs s = Inr s' \<and> P s'"
  using assms
proof (induction xs arbitrary: s)
  case (Cons x xs)
  then obtain t where "f x s = Inr t" "P t" by (meson list.set_intros(1))
  with Cons show ?case by auto
qed simp

lemma for_each_upt_inv:
  assumes "for_each f [0..<n] s = Inr s'" "P 0 s"
    and "\<And>k s s'. k < n \<Longrightarrow> P k s \<Longrightarrow> f k s = Inr s' \<Longrightarrow> P (Suc k) s'"
  shows "P n s'"
  using assms
proof (induction n arbitrary: s')
  case (Suc n)
  from Suc.prems(1) obtain t where "for_each f [0..<n] s = Inr t" "f n t = Inr s'"
    by (auto simp: for_each_append)
  with Suc show ?case by (meson less_Suc_eq)
qed simp

lemma for_each_upt_total:
  assumes "P 0 s" "\<And>k s. k < n \<Longrightarrow> P k s \<Longrightarrow> \<exists>s'. f k s = Inr s' \<and> P (Suc k) s'"
  shows "\<exists>s'. for_each f [0..<n] s = Inr s' \<and> P n s'"
  using assms
proof (induction n)
  case (Suc n)
  then obtain t where "for_each f [0..<n] s = Inr t" "P n t" by auto
  moreover obtain s' where "f n t = Inr s'" "P (Suc n) s'" using Suc.prems(2) [of n t] calculation by auto
  ultimately show ?case by (auto simp: for_each_append)
qed simp

lemma for_each_Nil: "for_each f [] = Inr"
  by (simp add: fun_eq_iff)

lemma for_each_Cons: "for_each f (x # xs) = (\<lambda>s. result_bind (f x s) (for_each f xs))"
  by (simp add: fun_eq_iff)

lemma for_each_map: "for_each f (map g xs) = for_each (\<lambda>x. f (g x)) xs"
  by (induction xs) (simp_all add: for_each_Nil for_each_Cons)

lemma for_each_nth: "for_each (\<lambda>j. f (xs ! j)) [0..<length xs] = for_each f xs"
proof -
  have "for_each f (map ((!) xs) [0..<length xs]) = for_each (\<lambda>j. f (xs ! j)) [0..<length xs]"
    by (rule for_each_map)
  then show ?thesis by (simp add: map_nth)
qed

lemma for_each_cong_inv:
  assumes "P s" "\<And>x s. x \<in> set xs \<Longrightarrow> P s \<Longrightarrow> f x s = g x s"
    and "\<And>x s s'. x \<in> set xs \<Longrightarrow> P s \<Longrightarrow> g x s = Inr s' \<Longrightarrow> P s'"
  shows "for_each f xs s = for_each g xs s"
  using assms
proof (induction xs arbitrary: s)
  case (Cons x xs)
  show ?case
  proof (cases "g x s")
    case (Inl c)
    with Cons.prems show ?thesis by simp
  next
    case (Inr t)
    with Cons.prems have "P t" by (meson list.set_intros(1))
    then have "for_each f xs t = for_each g xs t" using Cons by (meson list.set_intros(2))
    with Inr Cons.prems show ?thesis by simp
  qed
qed simp

end
