(* ===== verification/PorcModel.thy ===== *)
theory PorcModel
  imports Prelude
begin

text \<open>
  The data of the linearizability checker (\<open>src/6.5840/src/porcupine/model.go\<close>): operations, events and
  the model of the system under test. Go's \<open>interface{}\<close> inputs and outputs are the type parameter
  \<open>'v\<close>, model states the parameter \<open>'s\<close>. The function fields a caller may leave nil are options; a
  function that type-asserts its argument can panic, so \<open>Partition\<close>, \<open>Step\<close> and the descriptions
  return options. \<open>fillDefault\<close> is the one of \<open>checker.go\<close>; \<open>fmt.Sprintf("%v")\<close> is a parameter.
\<close>

record 'v Operation =
  op_ClientId :: int
  op_Input :: 'v
  op_Call :: int
  op_Output :: 'v
  op_Return :: int

datatype EventKind = CallEvent | ReturnEvent

record 'v Event =
  ev_ClientId :: int
  ev_Kind :: EventKind
  ev_Value :: 'v
  ev_Id :: int

record ('v, 's) Model =
  m_Partition :: "('v Operation list \<Rightarrow> 'v Operation list list option) option"
  m_PartitionEvent :: "('v Event list \<Rightarrow> 'v Event list list option) option"
  m_Init :: 's
  m_Step :: "'s \<Rightarrow> 'v \<Rightarrow> 'v \<Rightarrow> (bool \<times> 's) option"
  m_Equal :: "('s \<Rightarrow> 's \<Rightarrow> bool) option"
  m_DescribeOperation :: "('v \<Rightarrow> 'v \<Rightarrow> string option) option"
  m_DescribeState :: "('s \<Rightarrow> string) option"

definition NoPartition :: "'v Operation list \<Rightarrow> 'v Operation list list option" where
  "NoPartition history = Some [history]"

definition NoPartitionEvent :: "'v Event list \<Rightarrow> 'v Event list list option" where
  "NoPartitionEvent history = Some [history]"

definition ShallowEqual :: "'s \<Rightarrow> 's \<Rightarrow> bool" where
  "ShallowEqual state1 state2 = (state1 = state2)"

definition DefaultDescribeOperation :: "('v \<Rightarrow> string) \<Rightarrow> 'v \<Rightarrow> 'v \<Rightarrow> string option" where
  "DefaultDescribeOperation fmt inp out = Some (fmt inp @ '' -> '' @ fmt out)"

definition DefaultDescribeState :: "('s \<Rightarrow> string) \<Rightarrow> 's \<Rightarrow> string" where
  "DefaultDescribeState fmt state = fmt state"

datatype CheckResult = Unknown | Ok | Illegal

definition or_default :: "'f \<Rightarrow> 'f option \<Rightarrow> 'f option" where
  "or_default d f = (case f of None \<Rightarrow> Some d | Some g \<Rightarrow> Some g)"

definition fillDefault ::
  "('v \<Rightarrow> string) \<Rightarrow> ('s \<Rightarrow> string) \<Rightarrow> ('v, 's) Model \<Rightarrow> ('v, 's) Model" where
  "fillDefault fmtv fmts model =
     model\<lparr>
       m_Partition := or_default NoPartition (m_Partition model),
       m_PartitionEvent := or_default NoPartitionEvent (m_PartitionEvent model),
       m_Equal := or_default ShallowEqual (m_Equal model),
       m_DescribeOperation :=
         or_default (DefaultDescribeOperation fmtv) (m_DescribeOperation model),
       m_DescribeState := or_default (DefaultDescribeState fmts) (m_DescribeState model)\<rparr>"

lemma or_default_simps [simp]:
  "or_default d None = Some d" "or_default d (Some f) = Some f"
  by (simp_all add: or_default_def)

lemma or_default_eq: "or_default d f = Some (case f of None \<Rightarrow> d | Some g \<Rightarrow> g)"
  by (cases f) simp_all

lemma fillDefault_fields [simp]:
  "m_Init (fillDefault fv fs m) = m_Init m"
  "m_Step (fillDefault fv fs m) = m_Step m"
  "m_Partition (fillDefault fv fs m) = or_default NoPartition (m_Partition m)"
  "m_PartitionEvent (fillDefault fv fs m) = or_default NoPartitionEvent (m_PartitionEvent m)"
  "m_Equal (fillDefault fv fs m) = or_default ShallowEqual (m_Equal m)"
  by (simp_all add: fillDefault_def)

end
