(* ===== verification/GoSort.thy ===== *)
theory GoSort
  imports Prelude
begin

text \<open>
  Go's \<open>sort.Sort\<close> as its callers see it. The order is given by a \<open>Less\<close> method, which must be a strict
  weak order; the result is a permutation of the input in which no element is less than an earlier one.
  \<open>sort.Sort\<close> is not stable, so nothing is promised about elements that are not ordered by \<open>Less\<close>: the
  callers take the sorting function as a parameter and rely on the laws of the locale \<open>sorting\<close> only.
  The interpretation is insertion sort, which the standard library runs on short slices.
\<close>

definition strict_weak :: "('a \<Rightarrow> 'a \<Rightarrow> bool) \<Rightarrow> bool" where
  "strict_weak lt \<longleftrightarrow>
     (\<forall>x. \<not> lt x x) \<and>
     (\<forall>x y z. lt x y \<longrightarrow> lt y z \<longrightarrow> lt x z) \<and>
     (\<forall>x y z. lt x z \<longrightarrow> lt x y \<or> lt y z)"

lemma strict_weakI:
  assumes "\<And>x. \<not> lt x x" "\<And>x y z. lt x y \<Longrightarrow> lt y z \<Longrightarrow> lt x z"
    "\<And>x y z. lt x z \<Longrightarrow> lt x y \<or> lt y z"
  shows "strict_weak lt"
  using assms unfolding strict_weak_def by blast

lemma strict_weak_asym: "strict_weak lt \<Longrightarrow> lt x y \<Longrightarrow> \<not> lt y x"
  unfolding strict_weak_def by blast

lemma strict_weak_neg_trans: "strict_weak lt \<Longrightarrow> \<not> lt x y \<Longrightarrow> \<not> lt y z \<Longrightarrow> \<not> lt x z"
  unfolding strict_weak_def by blast

text \<open>Every key into a linear order gives a strict weak order.\<close>

lemma strict_weak_key: "strict_weak (\<lambda>x y. (f x :: 'k :: linorder) < f y)"
  by (rule strict_weakI) (auto intro: less_trans)

locale sorting =
  fixes srt :: "('a \<Rightarrow> 'a \<Rightarrow> bool) \<Rightarrow> 'a list \<Rightarrow> 'a list"
  assumes mset_srt: "strict_weak lt \<Longrightarrow> mset (srt lt xs) = mset xs"
    and sorted_srt: "strict_weak lt \<Longrightarrow> sorted_wrt (\<lambda>x y. \<not> lt y x) (srt lt xs)"
begin

lemma set_srt: "strict_weak lt \<Longrightarrow> set (srt lt xs) = set xs"
  using mset_srt mset_eq_setD by blast

lemma length_srt: "strict_weak lt \<Longrightarrow> length (srt lt xs) = length xs"
  using mset_srt mset_eq_length by blast

lemma distinct_srt: "strict_weak lt \<Longrightarrow> distinct (map f (srt lt xs)) = distinct (map f xs)"
  using mset_srt [of lt xs] by (metis mset_eq_imp_distinct_iff mset_map)

text \<open>Two sorted permutations agree where \<open>Less\<close> is total on the elements.\<close>

lemma nth_srt_le:
  "strict_weak lt \<Longrightarrow> i < j \<Longrightarrow> j < length xs \<Longrightarrow> \<not> lt (srt lt xs ! j) (srt lt xs ! i)"
  using sorted_srt [of lt xs] by (simp add: sorted_wrt_iff_nth_less length_srt)

end

text \<open>Insertion sort: each element moves left past the elements it is less than.\<close>

fun insert_less :: "('a \<Rightarrow> 'a \<Rightarrow> bool) \<Rightarrow> 'a \<Rightarrow> 'a list \<Rightarrow> 'a list" where
  "insert_less lt x [] = [x]"
| "insert_less lt x (y # ys) = (if lt x y then x # y # ys else y # insert_less lt x ys)"

definition insertionSort :: "('a \<Rightarrow> 'a \<Rightarrow> bool) \<Rightarrow> 'a list \<Rightarrow> 'a list" where
  "insertionSort lt xs = fold (insert_less lt) xs []"

lemma mset_insert_less: "mset (insert_less lt x ys) = add_mset x (mset ys)"
  by (induction ys) auto

lemma set_insert_less: "set (insert_less lt x ys) = insert x (set ys)"
  by (induction ys) auto

lemma sorted_insert_less:
  assumes "strict_weak lt"
  shows "sorted_wrt (\<lambda>x y. \<not> lt y x) ys \<Longrightarrow> sorted_wrt (\<lambda>x y. \<not> lt y x) (insert_less lt x ys)"
proof (induction ys)
  case (Cons y ys)
  show ?case
  proof (cases "lt x y")
    case True
    then have "\<not> lt z x" if "z \<in> set ys" for z
      using Cons.prems that assms strict_weak_neg_trans strict_weak_asym
      by (metis sorted_wrt.simps(2) strict_weak_def)
    with True Cons.prems assms show ?thesis
      by (auto dest: strict_weak_asym)
  next
    case False
    with Cons show ?thesis
      by (auto simp: set_insert_less)
  qed
qed simp

lemma fold_insert_less:
  assumes "strict_weak lt"
  shows "sorted_wrt (\<lambda>x y. \<not> lt y x) ys \<Longrightarrow>
    mset (fold (insert_less lt) xs ys) = mset xs + mset ys \<and>
    sorted_wrt (\<lambda>x y. \<not> lt y x) (fold (insert_less lt) xs ys)"
  by (induction xs arbitrary: ys) (auto simp: mset_insert_less sorted_insert_less [OF assms])

interpretation isort: sorting insertionSort
  by unfold_locales (simp_all add: insertionSort_def fold_insert_less)

lemma insertionSort_sorting: "sorting insertionSort"
  by (rule isort.sorting_axioms)

end
