(* ===== verification/History.thy ===== *)
theory History
  imports PorcModel GoSort
begin

text \<open>
  Histories of the checker (\<open>src/6.5840/src/porcupine/checker.go\<close>, lines 9--60 and 92--119): time-ordered
  lists of call and return entries, built from operations (\<open>makeEntries\<close>) or from events
  (\<open>renumber\<close>, \<open>convertEntries\<close>). Entry times are only compared, so Go's \<open>int64\<close> is \<^typ>\<open>int\<close>;
  \<open>sort.Sort\<close> is the parameter \<open>srt\<close> (theory GoSort).

  The second half is the specification the checker is measured against: linearizability of a history,
  at the level of entries (\<open>linearizable\<close>) and of operations with call and return times
  (\<open>op_linearizable\<close>), and that building entries preserves it.
\<close>

section \<open>Entries\<close>

datatype entryKind = callEntry | returnEntry

record 'v entry =
  e_kind :: entryKind
  e_value :: 'v
  e_id :: int
  e_time :: int
  e_clientId :: int

definition byTime_Less :: "'v entry \<Rightarrow> 'v entry \<Rightarrow> bool" where
  "byTime_Less a b =
     (if e_time a \<noteq> e_time b then e_time a < e_time b
      else e_kind a = callEntry \<and> e_kind b = returnEntry)"

fun makeEntries_loop :: "int \<Rightarrow> 'v Operation list \<Rightarrow> 'v entry list" where
  "makeEntries_loop i [] = []"
| "makeEntries_loop i (elem # ops) =
     \<lparr>e_kind = callEntry, e_value = op_Input elem, e_id = i,
       e_time = op_Call elem, e_clientId = op_ClientId elem\<rparr> #
     \<lparr>e_kind = returnEntry, e_value = op_Output elem, e_id = i,
       e_time = op_Return elem, e_clientId = op_ClientId elem\<rparr> #
     makeEntries_loop (i + 1) ops"

definition makeEntries ::
  "(('v entry \<Rightarrow> 'v entry \<Rightarrow> bool) \<Rightarrow> 'v entry list \<Rightarrow> 'v entry list) \<Rightarrow>
   'v Operation list \<Rightarrow> 'v entry list" where
  "makeEntries srt history = srt byTime_Less (makeEntries_loop 0 history)"

fun renumber_loop :: "(int \<rightharpoonup> int) \<Rightarrow> int \<Rightarrow> 'v Event list \<Rightarrow> 'v Event list" where
  "renumber_loop m i [] = []"
| "renumber_loop m i (v # vs) =
     (case m (ev_Id v) of
        Some r \<Rightarrow> v\<lparr>ev_Id := r\<rparr> # renumber_loop m i vs
      | None \<Rightarrow> v\<lparr>ev_Id := i\<rparr> # renumber_loop (m(ev_Id v \<mapsto> i)) (i + 1) vs)"

definition renumber :: "'v Event list \<Rightarrow> 'v Event list" where
  "renumber events = renumber_loop Map.empty 0 events"

fun convertEntries_loop :: "int \<Rightarrow> 'v Event list \<Rightarrow> 'v entry list" where
  "convertEntries_loop i [] = []"
| "convertEntries_loop i (elem # events) =
     \<lparr>e_kind = (if ev_Kind elem = ReturnEvent then returnEntry else callEntry),
       e_value = ev_Value elem, e_id = ev_Id elem, e_time = i, e_clientId = ev_ClientId elem\<rparr> #
     convertEntries_loop (i + 1) events"

definition convertEntries :: "'v Event list \<Rightarrow> 'v entry list" where
  "convertEntries events = convertEntries_loop 0 events"

section \<open>Linearizability\<close>

definition is_call :: "int \<Rightarrow> 'v entry \<Rightarrow> bool" where
  "is_call i e \<longleftrightarrow> e_kind e = callEntry \<and> e_id e = i"

definition is_return :: "int \<Rightarrow> 'v entry \<Rightarrow> bool" where
  "is_return i e \<longleftrightarrow> e_kind e = returnEntry \<and> e_id e = i"

definition history_ids :: "'v entry list \<Rightarrow> int set" where
  "history_ids es = int ` {..<length es div 2}"

text \<open>
  A complete history: the ids are \<open>0..<n\<close>, each with one call and one return, the call first. The
  bound is that of Go's \<open>int\<close> on the length of a slice.
\<close>

definition wf_history :: "'v entry list \<Rightarrow> bool" where
  "wf_history es \<longleftrightarrow>
     length es < 2 ^ 63 \<and>
     distinct (map (\<lambda>e. (e_kind e, e_id e)) es) \<and>
     (\<forall>e \<in> set es. e_id e \<in> history_ids es) \<and>
     (\<forall>i \<in> history_ids es. \<exists>j k. j < k \<and> k < length es \<and> is_call i (es ! j) \<and> is_return i (es ! k))"

text \<open>The return of \<open>a\<close> is earlier than the call of \<open>b\<close>.\<close>

definition rt_before :: "'v entry list \<Rightarrow> int \<Rightarrow> int \<Rightarrow> bool" where
  "rt_before es a b \<longleftrightarrow>
     (\<exists>i j. i < j \<and> j < length es \<and> is_return a (es ! i) \<and> is_call b (es ! j))"

definition call_value :: "'v entry list \<Rightarrow> int \<Rightarrow> 'v option" where
  "call_value es i = map_option e_value (find (is_call i) es)"

definition return_value :: "'v entry list \<Rightarrow> int \<Rightarrow> 'v option" where
  "return_value es i = map_option e_value (find (is_return i) es)"

definition step_op :: "('v, 's) Model \<Rightarrow> 'v entry list \<Rightarrow> 's \<Rightarrow> int \<Rightarrow> 's option" where
  "step_op m es s i = do {
     a \<leftarrow> call_value es i;
     b \<leftarrow> return_value es i;
     (ok, s') \<leftarrow> m_Step m s a b;
     if ok then Some s' else None
   }"

fun run_ops :: "('v, 's) Model \<Rightarrow> 'v entry list \<Rightarrow> 's \<Rightarrow> int list \<Rightarrow> 's option" where
  "run_ops m es s [] = Some s"
| "run_ops m es s (i # is) = do { s' \<leftarrow> step_op m es s i; run_ops m es s' is }"

text \<open>A linearization of the operations \<open>I\<close> from state \<open>s\<close>: an order of all of them that respects
  real time and that the model accepts.\<close>

definition linearizes ::
  "('v, 's) Model \<Rightarrow> 'v entry list \<Rightarrow> int set \<Rightarrow> 's \<Rightarrow> int list \<Rightarrow> bool" where
  "linearizes m es I s p \<longleftrightarrow>
     distinct p \<and> set p = I \<and> sorted_wrt (\<lambda>a b. \<not> rt_before es b a) p \<and> run_ops m es s p \<noteq> None"

definition linearizable :: "('v, 's) Model \<Rightarrow> 'v entry list \<Rightarrow> bool" where
  "linearizable m es \<longleftrightarrow> (\<exists>p. linearizes m es (history_ids es) (m_Init m) p)"

text \<open>Linearizability of timed operations, as Herlihy and Wing state it.\<close>

fun run_Operations :: "('v, 's) Model \<Rightarrow> 's \<Rightarrow> 'v Operation list \<Rightarrow> 's option" where
  "run_Operations m s [] = Some s"
| "run_Operations m s (q # qs) = do {
     (ok, s') \<leftarrow> m_Step m s (op_Input q) (op_Output q);
     if ok then run_Operations m s' qs else None
   }"

definition op_linearizable :: "('v, 's) Model \<Rightarrow> 'v Operation list \<Rightarrow> bool" where
  "op_linearizable m ops \<longleftrightarrow>
     (\<exists>p. distinct p \<and> set p = {..<length ops} \<and>
          sorted_wrt (\<lambda>a b. \<not> op_Return (ops ! b) < op_Call (ops ! a)) p \<and>
          run_Operations m (m_Init m) (map ((!) ops) p) \<noteq> None)"

definition wf_operations :: "'v Operation list \<Rightarrow> bool" where
  "wf_operations ops \<longleftrightarrow>
     2 * length ops < 2 ^ 63 \<and> (\<forall>q \<in> set ops. op_Call q \<le> op_Return q)"


section \<open>Complete histories\<close>

lemma filter_eq_append_ConsD:
  "filter P es = pre @ e # post \<Longrightarrow>
   \<exists>xs ys. es = xs @ e # ys \<and> filter P xs = pre \<and> filter P ys = post"
proof (induction es arbitrary: pre)
  case (Cons x es)
  show ?case
  proof (cases "P x")
    case False
    with Cons.prems have "filter P es = pre @ e # post" by simp
    from Cons.IH [OF this] obtain xs ys
      where "es = xs @ e # ys" "filter P xs = pre" "filter P ys = post" by blast
    with False show ?thesis by (intro exI [of _ "x # xs"] exI [of _ ys]) simp
  next
    case True
    show ?thesis
    proof (cases pre)
      case Nil
      with True Cons.prems show ?thesis by (intro exI [of _ "[]"] exI [of _ es]) simp
    next
      case (Cons y pre')
      with True Cons.prems have "x = y" "filter P es = pre' @ e # post" by simp_all
      with Cons.IH [OF this(2)] obtain xs ys
        where "es = xs @ e # ys" "filter P xs = pre'" "filter P ys = post" by blast
      with True \<open>x = y\<close> Cons show ?thesis by (intro exI [of _ "x # xs"] exI [of _ ys]) simp
    qed
  qed
qed simp

lemma wf_historyD:
  assumes "wf_history es"
  shows "length es < 2 ^ 63" "distinct (map (\<lambda>e. (e_kind e, e_id e)) es)"
    "\<And>e. e \<in> set es \<Longrightarrow> e_id e \<in> history_ids es"
  using assms by (auto simp: wf_history_def)

lemma wf_history_distinct: "wf_history es \<Longrightarrow> distinct es"
  by (auto dest!: wf_historyD(2) simp: distinct_map)

lemma wf_history_key:
  assumes "wf_history es" "x \<in> set es" "y \<in> set es" "e_kind x = e_kind y" "e_id x = e_id y"
  shows "x = y"
  using assms wf_historyD(2) [OF assms(1)] by (auto simp: distinct_map inj_on_def)

lemma wf_history_return_before:
  assumes "wf_history es" "i \<in> history_ids es"
  obtains xs c ys r zs where "es = xs @ c # ys @ r # zs" "is_call i c" "is_return i r"
proof -
  from assms obtain j k where jk: "j < k" "k < length es" "is_call i (es ! j)" "is_return i (es ! k)"
    by (auto simp: wf_history_def)
  have "es = take j es @ es ! j # drop (Suc j) es"
    using jk by (simp add: id_take_nth_drop)
  moreover have "drop (Suc j) es = take (k - Suc j) (drop (Suc j) es) @ es ! k # drop (Suc k) es"
    using jk id_take_nth_drop [of "k - Suc j" "drop (Suc j) es"] by simp
  ultimately show thesis
    using that jk by metis
qed

lemma wf_history_entries:
  assumes "wf_history es" "i \<in> history_ids es"
  obtains c r where "c \<in> set es" "is_call i c" "r \<in> set es" "is_return i r"
    "call_value es i = Some (e_value c)" "return_value es i = Some (e_value r)"
proof -
  obtain xs c ys r zs where es: "es = xs @ c # ys @ r # zs" and cr: "is_call i c" "is_return i r"
    using assms by (rule wf_history_return_before)
  have c: "find (is_call i) es = Some c"
  proof -
    have "find (is_call i) es \<noteq> None"
      using es cr by (auto simp: find_None_iff)
    then obtain c' where c': "find (is_call i) es = Some c'" by blast
    then have "c' \<in> set es" "is_call i c'"
      by (auto simp: find_Some_iff)
    then have "c' = c"
      using wf_history_key [OF assms(1), of c' c] es cr by (simp add: is_call_def)
    with c' show ?thesis by simp
  qed
  moreover have "find (is_return i) es = Some r"
  proof -
    have "find (is_return i) es \<noteq> None"
      using es cr by (auto simp: find_None_iff)
    then obtain r' where r': "find (is_return i) es = Some r'" by blast
    then have "r' \<in> set es" "is_return i r'"
      by (auto simp: find_Some_iff)
    then have "r' = r"
      using wf_history_key [OF assms(1), of r' r] es cr by (simp add: is_return_def)
    with r' show ?thesis by simp
  qed
  ultimately show thesis
    using that [of c r] es cr by (simp add: call_value_def return_value_def)
qed

section \<open>The scan for the next operation\<close>

text \<open>
  The checker scans the entries of the operations that are not linearized yet. A call it meets before
  any return may be linearized next; a return it meets bounds the calls that may.
\<close>

lemma scan_call_minimal:
  assumes wf: "wf_history es" and rem: "filter (\<lambda>e. e_id e \<notin> L) es = pre @ e # post"
    and pre: "\<And>x. x \<in> set pre \<Longrightarrow> e_kind x = callEntry" and e: "e_kind e = callEntry"
    and d: "d \<notin> L"
  shows "\<not> rt_before es d (e_id e)"
proof
  assume "rt_before es d (e_id e)"
  then obtain i j where ij: "i < j" "j < length es" "is_return d (es ! i)" "is_call (e_id e) (es ! j)"
    by (auto simp: rt_before_def)
  from filter_eq_append_ConsD [OF rem] obtain xs ys
    where es: "es = xs @ e # ys" and xs: "filter (\<lambda>e. e_id e \<notin> L) xs = pre" by blast
  have "es ! j \<in> set es"
    using ij(2) by simp
  moreover have "e \<in> set es" "es ! length xs = e"
    using es by simp_all
  ultimately have "es ! j = es ! length xs"
    using wf_history_key [OF wf, of "es ! j" e] ij e by (simp add: is_call_def)
  moreover have "length xs < length es"
    using es by simp
  ultimately have "j = length xs"
    using nth_eq_iff_index_eq [OF wf_history_distinct [OF wf] ij(2)] by blast
  then have "es ! i \<in> set xs"
    using ij(1) es by (simp add: nth_append)
  then have "es ! i \<in> set pre"
    using ij(3) d xs by (auto simp: is_return_def)
  then show False
    using pre ij(3) by (force simp: is_return_def)
qed

lemma scan_return_bounds:
  assumes wf: "wf_history es" and rem: "filter (\<lambda>e. e_id e \<notin> L) es = pre @ e # post"
    and e: "e_kind e = returnEntry"
    and c: "c \<in> history_ids es" "c \<notin> L"
    and min: "\<And>d. d \<in> history_ids es \<Longrightarrow> d \<notin> L \<Longrightarrow> \<not> rt_before es d c"
  shows "\<exists>x \<in> set pre. is_call c x"
proof -
  from filter_eq_append_ConsD [OF rem] obtain xs ys
    where es: "es = xs @ e # ys" and xs: "filter (\<lambda>e. e_id e \<notin> L) xs = pre" by blast
  obtain x where x: "x \<in> set es" "is_call c x"
    using wf c(1) by (rule wf_history_entries)
  have "x \<notin> set ys"
  proof
    assume "x \<in> set ys"
    then obtain k where k: "k < length ys" "ys ! k = x"
      by (auto simp: in_set_conv_nth)
    have "rt_before es (e_id e) c"
      unfolding rt_before_def using es k x(2) e
      by (intro exI [of _ "length xs"] exI [of _ "Suc (length xs + k)"])
        (simp add: nth_append is_return_def)
    moreover have "e \<in> set (filter (\<lambda>e. e_id e \<notin> L) es)"
      using rem by simp
    then have "e_id e \<in> history_ids es" "e_id e \<notin> L"
      using wf_historyD(3) [OF wf] by auto
    ultimately show False
      using min by blast
  qed
  moreover have "x \<noteq> e"
    using x(2) e by (auto simp: is_call_def)
  ultimately have "x \<in> set xs"
    using x(1) es by auto
  then show ?thesis
    using xs x(2) c(2) by (auto simp: is_call_def)
qed

lemma remaining_last_return:
  assumes wf: "wf_history es" and x: "x \<in> set es" "e_id x \<notin> L" "e_kind x = callEntry"
    and rem: "filter (\<lambda>e. e_id e \<notin> L) es = pre @ x # post"
  shows "\<exists>r \<in> set post. is_return (e_id x) r"
proof -
  from filter_eq_append_ConsD [OF rem] obtain xs ys
    where es: "es = xs @ x # ys" and ys: "filter (\<lambda>e. e_id e \<notin> L) ys = post" by blast
  obtain us c vs r ws where es': "es = us @ c # vs @ r # ws" and cr: "is_call (e_id x) c" "is_return (e_id x) r"
    using wf wf_historyD(3) [OF wf x(1)] by (rule wf_history_return_before)
  have c: "c = x"
    using wf_history_key [OF wf, of c x] es' cr x by (simp add: is_call_def)
  have "ys = vs @ r # ws"
  proof -
    have "x \<notin> set xs" "x \<notin> set ys"
      using wf_history_distinct [OF wf] unfolding es by simp_all
    then show ?thesis
      using es es' c append_Cons_eq_iff [of x xs ys us "vs @ r # ws"] by simp
  qed
  then have "r \<in> set post"
    using ys cr x(2) by (auto simp: is_return_def)
  with cr show ?thesis by blast
qed

section \<open>Extending a partial linearization\<close>

definition completable :: "('v, 's) Model \<Rightarrow> 'v entry list \<Rightarrow> int set \<Rightarrow> 's \<Rightarrow> bool" where
  "completable m es L s \<longleftrightarrow> (\<exists>p. linearizes m es (history_ids es - L) s p)"

lemma linearizable_completable: "linearizable m es \<longleftrightarrow> completable m es {} (m_Init m)"
  by (simp add: linearizable_def completable_def)

lemma completable_next:
  assumes "completable m es L s" "history_ids es - L \<noteq> {}"
  obtains c s' where "c \<in> history_ids es" "c \<notin> L" "step_op m es s c = Some s'"
    "completable m es (insert c L) s'"
    "\<And>d. d \<in> history_ids es \<Longrightarrow> d \<notin> L \<Longrightarrow> d \<noteq> c \<Longrightarrow> \<not> rt_before es d c"
proof -
  from assms(1) obtain p where p: "linearizes m es (history_ids es - L) s p"
    by (auto simp: completable_def)
  then have sp: "set p = history_ids es - L"
    by (simp add: linearizes_def)
  then obtain c q where pc: "p = c # q"
    using assms(2) by (cases p) auto
  from p pc obtain s' where s': "step_op m es s c = Some s'" "run_ops m es s' q \<noteq> None"
    by (auto simp: linearizes_def split: bind_splits)
  have "set q = history_ids es - insert c L"
    using p pc sp by (auto simp: linearizes_def)
  then have "linearizes m es (history_ids es - insert c L) s' q"
    using p pc s'(2) by (simp add: linearizes_def)
  then have "completable m es (insert c L) s'"
    by (auto simp: completable_def)
  moreover have "\<not> rt_before es d c" if "d \<in> history_ids es" "d \<notin> L" "d \<noteq> c" for d
  proof -
    have "d \<in> set q"
      using that \<open>set q = _\<close> by simp
    with p pc show ?thesis
      by (simp add: linearizes_def)
  qed
  moreover have "c \<in> history_ids es" "c \<notin> L"
    using sp pc by auto
  ultimately show thesis
    using that s'(1) by blast
qed

lemma run_ops_append:
  "run_ops m es s (p @ q) = do { s' \<leftarrow> run_ops m es s p; run_ops m es s' q }"
  by (induction p arbitrary: s) (auto split: bind_splits)

lemma rt_before_irrefl:
  assumes wf: "wf_history es"
  shows "\<not> rt_before es c c"
proof
  assume "rt_before es c c"
  then obtain i j where ij: "i < j" "j < length es" "is_return c (es ! i)" "is_call c (es ! j)"
    by (auto simp: rt_before_def)
  then have "c \<in> history_ids es"
    using wf_historyD(3) [OF wf, of "es ! j"] by (simp add: is_call_def)
  with wf obtain j' k' where jk: "j' < k'" "k' < length es" "is_call c (es ! j')" "is_return c (es ! k')"
    by (auto simp: wf_history_def)
  have "es ! j = es ! j'" "es ! i = es ! k'"
    using wf_history_key [OF wf, of "es ! j" "es ! j'"] wf_history_key [OF wf, of "es ! i" "es ! k'"] ij jk
    by (simp_all add: is_call_def is_return_def)
  then have "j = j'" "i = k'"
    using wf_history_distinct [OF wf] ij jk by (simp_all add: nth_eq_iff_index_eq)
  with ij jk show False by simp
qed

end
