(* ===== verification/EntryList.thy ===== *)
theory EntryList
  imports History
begin

text \<open>
  The checker's doubly linked list of entries (\<open>src/6.5840/src/porcupine/checker.go\<close>, lines 62--90,
  121--138 and 159--177), on an explicit heap: a node lives at an address, allocation appends, nil is
  \<^term>\<open>None\<close>, and reading or writing through nil panics (\<^term>\<open>None\<close>). The value of the head node,
  which the source leaves nil, is \<^term>\<open>None\<close> as well.

  \<open>lift\<close> takes a call and its return out of the list and \<open>unlift\<close> puts them back, relying on the
  links the removed nodes still hold. The lemmas show what each does to the list a heap represents
  (\<open>dll\<close>), and that \<open>unlift\<close> restores the heap exactly.
\<close>

section \<open>Nodes and the heap\<close>

record 'v node =
  n_value :: "'v option"
  n_match :: "nat option"
  n_id :: int
  n_next :: "nat option"
  n_prev :: "nat option"

type_synonym 'v heap = "'v node list"

definition load :: "'v heap \<Rightarrow> nat option \<Rightarrow> 'v node option" where
  "load h p = do { a \<leftarrow> p; slice_get h a }"

definition store_next :: "'v heap \<Rightarrow> nat option \<Rightarrow> nat option \<Rightarrow> 'v heap option" where
  "store_next h p q = do { a \<leftarrow> p; nd \<leftarrow> slice_get h a; slice_set h a (nd\<lparr>n_next := q\<rparr>) }"

definition store_prev :: "'v heap \<Rightarrow> nat option \<Rightarrow> nat option \<Rightarrow> 'v heap option" where
  "store_prev h p q = do { a \<leftarrow> p; nd \<leftarrow> slice_get h a; slice_set h a (nd\<lparr>n_prev := q\<rparr>) }"

text \<open>\<open>&node{value, match, id}\<close>: a fresh node that is in no list.\<close>

definition new_node :: "'v heap \<Rightarrow> 'v option \<Rightarrow> nat option \<Rightarrow> int \<Rightarrow> 'v heap \<times> nat option" where
  "new_node h v mt i =
     (h @ [\<lparr>n_value = v, n_match = mt, n_id = i, n_next = None, n_prev = None\<rparr>], Some (length h))"

section \<open>Operations\<close>

definition insertBefore :: "'v heap \<Rightarrow> nat option \<Rightarrow> nat option \<Rightarrow> ('v heap \<times> nat option) option" where
  "insertBefore h n mark =
     (if mark \<noteq> None then do {
        mk \<leftarrow> load h mark;
        let beforeMark = n_prev mk;
        h \<leftarrow> store_prev h mark n;
        h \<leftarrow> store_next h n mark;
        if beforeMark \<noteq> None then do {
          h \<leftarrow> store_prev h n beforeMark;
          h \<leftarrow> store_next h beforeMark n;
          Some (h, n)
        } else Some (h, n)
      } else Some (h, n))"

partial_function (option) length_loop :: "'v heap \<Rightarrow> nat option \<Rightarrow> nat \<Rightarrow> nat option" where
  "length_loop h n l =
     (if n = None then Some l
      else do { nd \<leftarrow> load h n; length_loop h (n_next nd) (l + 1) })"

declare length_loop.simps [code]

definition node_length :: "'v heap \<Rightarrow> nat option \<Rightarrow> nat option" where
  "node_length h n = length_loop h n 0"

text \<open>The loop of \<open>makeLinkedEntries\<close> runs from the last entry to the first: its argument is the
  reversed list.\<close>

fun makeLinkedEntries_loop ::
  "'v heap \<Rightarrow> nat option \<Rightarrow> (int \<Rightarrow> nat option) \<Rightarrow> 'v entry list \<Rightarrow> ('v heap \<times> nat option) option" where
  "makeLinkedEntries_loop h root mtch [] = Some (h, root)"
| "makeLinkedEntries_loop h root mtch (elem # elems) =
     (if e_kind elem = returnEntry then do {
        let (h, entry) = new_node h (Some (e_value elem)) None (e_id elem);
        let mtch = mtch(e_id elem := entry);
        (h, _) \<leftarrow> insertBefore h entry root;
        makeLinkedEntries_loop h entry mtch elems
      } else do {
        let (h, entry) = new_node h (Some (e_value elem)) (mtch (e_id elem)) (e_id elem);
        (h, _) \<leftarrow> insertBefore h entry root;
        makeLinkedEntries_loop h entry mtch elems
      })"

definition makeLinkedEntries :: "'v heap \<Rightarrow> 'v entry list \<Rightarrow> ('v heap \<times> nat option) option" where
  "makeLinkedEntries h entries = makeLinkedEntries_loop h None (\<lambda>_. None) (rev entries)"

definition lift :: "'v heap \<Rightarrow> nat option \<Rightarrow> 'v heap option" where
  "lift h entry = do {
     e \<leftarrow> load h entry;
     h \<leftarrow> store_next h (n_prev e) (n_next e);
     e \<leftarrow> load h entry;
     h \<leftarrow> store_prev h (n_next e) (n_prev e);
     e \<leftarrow> load h entry;
     let mtch = n_match e;
     mt \<leftarrow> load h mtch;
     h \<leftarrow> store_next h (n_prev mt) (n_next mt);
     mt \<leftarrow> load h mtch;
     if n_next mt \<noteq> None then store_prev h (n_next mt) (n_prev mt) else Some h
   }"

definition unlift :: "'v heap \<Rightarrow> nat option \<Rightarrow> 'v heap option" where
  "unlift h entry = do {
     e \<leftarrow> load h entry;
     let mtch = n_match e;
     mt \<leftarrow> load h mtch;
     h \<leftarrow> store_next h (n_prev mt) mtch;
     mt \<leftarrow> load h mtch;
     h \<leftarrow> (if n_next mt \<noteq> None then store_prev h (n_next mt) mtch else Some h);
     e \<leftarrow> load h entry;
     h \<leftarrow> store_next h (n_prev e) entry;
     e \<leftarrow> load h entry;
     store_prev h (n_next e) entry
   }"

section \<open>Lists on the heap\<close>

fun first_of :: "nat list \<Rightarrow> nat option \<Rightarrow> nat option" where
  "first_of [] q = q"
| "first_of (x # xs) q = Some x"

text \<open>\<open>dseg h p xs q\<close>: the nodes \<open>xs\<close> are linked in this order, after \<open>p\<close> and before \<open>q\<close>.\<close>

fun dseg :: "'v heap \<Rightarrow> nat option \<Rightarrow> nat list \<Rightarrow> nat option \<Rightarrow> bool" where
  "dseg h p [] q = True"
| "dseg h p (x # xs) q \<longleftrightarrow>
     x < length h \<and> n_prev (h ! x) = p \<and> n_next (h ! x) = first_of xs q \<and> dseg h (Some x) xs q"

definition dll :: "'v heap \<Rightarrow> nat list \<Rightarrow> bool" where
  "dll h xs \<longleftrightarrow> distinct xs \<and> dseg h None xs None"

text \<open>What the links are not: the part of a node that no list operation changes.\<close>

definition payload :: "'v node \<Rightarrow> 'v option \<times> nat option \<times> int" where
  "payload nd = (n_value nd, n_match nd, n_id nd)"


lemma first_of_append [simp]: "first_of (xs @ ys) q = first_of xs (first_of ys q)"
  by (cases xs) auto

lemma dseg_append:
  "dseg h p (xs @ ys) q \<longleftrightarrow>
   dseg h p xs (first_of ys q) \<and> dseg h (if xs = [] then p else Some (last xs)) ys q"
  by (induction xs arbitrary: p) auto

lemma dseg_cong:
  assumes "length h' = length h" "\<And>x. x \<in> set xs \<Longrightarrow> h' ! x = h ! x"
  shows "dseg h' p xs q = dseg h p xs q"
  using assms by (induction xs arbitrary: p) auto

lemma dseg_update_other [simp]:
  "a \<notin> set xs \<Longrightarrow> dseg (h[a := nd]) p xs q = dseg h p xs q"
  by (rule dseg_cong) (auto, metis nth_list_update_neq)

lemma dseg_in_range: "dseg h p xs q \<Longrightarrow> x \<in> set xs \<Longrightarrow> x < length h"
  by (induction xs arbitrary: p) auto

lemma map_payload_update [simp]:
  assumes "payload nd = payload (h ! a)"
  shows "map payload (h[a := nd]) = map payload h"
proof (cases "a < length h")
  case True
  then show ?thesis
    using assms by (simp add: map_update list_update_same_conv)
next
  case False
  then show ?thesis
    by (simp add: list_update_beyond)
qed

lemma payload_links [simp]:
  "payload (nd\<lparr>n_next := q\<rparr>) = payload nd" "payload (nd\<lparr>n_prev := q\<rparr>) = payload nd"
  by (simp_all add: payload_def)

lemma load_Some [simp]: "a < length h \<Longrightarrow> load h (Some a) = Some (h ! a)"
  by (simp add: load_def)

lemma load_None [simp]: "load h None = None"
  by (simp add: load_def)

lemma store_next_Some [simp]:
  "a < length h \<Longrightarrow> store_next h (Some a) q = Some (h[a := (h ! a)\<lparr>n_next := q\<rparr>])"
  by (simp add: store_next_def)

lemma store_prev_Some [simp]:
  "a < length h \<Longrightarrow> store_prev h (Some a) q = Some (h[a := (h ! a)\<lparr>n_prev := q\<rparr>])"
  by (simp add: store_prev_def)

lemma store_None [simp]: "store_next h None q = None" "store_prev h None q = None"
  by (simp_all add: store_next_def store_prev_def)

section \<open>Unlinking one node and linking it back\<close>

text \<open>\<open>unlinked h p bs\<close>: the node between \<open>p\<close> and \<open>bs\<close> is bypassed; \<open>relinked\<close> undoes it for node \<open>x\<close>.\<close>

definition unlinked :: "'v heap \<Rightarrow> nat \<Rightarrow> nat list \<Rightarrow> 'v heap" where
  "unlinked h p bs =
     (let h1 = h[p := (h ! p)\<lparr>n_next := first_of bs None\<rparr>]
      in case bs of [] \<Rightarrow> h1 | b # _ \<Rightarrow> h1[b := (h1 ! b)\<lparr>n_prev := Some p\<rparr>])"

definition relinked :: "'v heap \<Rightarrow> nat \<Rightarrow> nat \<Rightarrow> nat list \<Rightarrow> 'v heap" where
  "relinked h p x bs =
     (let h1 = h[p := (h ! p)\<lparr>n_next := Some x\<rparr>]
      in case bs of [] \<Rightarrow> h1 | b # _ \<Rightarrow> h1[b := (h1 ! b)\<lparr>n_prev := Some x\<rparr>])"

lemma length_unlinked [simp]: "length (unlinked h p bs) = length h"
  by (simp add: unlinked_def Let_def split: list.split)

lemma payload_unlinked [simp]: "map payload (unlinked h p bs) = map payload h"
proof (cases bs)
  case (Cons b bs')
  let ?h1 = "h[p := (h ! p)\<lparr>n_next := Some b\<rparr>]"
  have "map payload (?h1[b := (?h1 ! b)\<lparr>n_prev := Some p\<rparr>]) = map payload ?h1"
    by (rule map_payload_update) simp
  then show ?thesis
    using Cons by (simp add: unlinked_def Let_def)
qed (simp add: unlinked_def)

lemma unlinked_other [simp]: "x \<noteq> p \<Longrightarrow> x \<notin> set bs \<Longrightarrow> unlinked h p bs ! x = h ! x"
  by (auto simp: unlinked_def Let_def split: list.split)

lemma dll_unlinked:
  assumes "dll h (as @ p # x # bs)"
  shows "dll (unlinked h p bs) (as @ p # bs)"
  using assms by (cases bs) (auto simp: dll_def dseg_append unlinked_def nth_list_update)

lemma dll_neighbours:
  assumes "dll h (as @ p # x # bs)"
  shows "p < length h" "x < length h" "p \<noteq> x" "x \<notin> set bs" "p \<notin> set bs"
    "n_next (h ! p) = Some x" "n_prev (h ! x) = Some p" "n_next (h ! x) = first_of bs None"
    "\<And>b bs'. bs = b # bs' \<Longrightarrow> b < length h \<and> n_prev (h ! b) = Some x"
  using assms by (auto simp: dll_def dseg_append)

lemma relinked_unlinked:
  assumes "dll h (as @ p # x # bs)"
  shows "relinked (unlinked h p bs) p x bs = h"
proof (rule nth_equalityI)
  note nb = dll_neighbours [OF assms]
  fix i assume "i < length (relinked (unlinked h p bs) p x bs)"
  show "relinked (unlinked h p bs) p x bs ! i = h ! i"
    using nb by (cases bs) (auto simp: relinked_def unlinked_def Let_def nth_list_update)
qed (simp add: relinked_def Let_def split: list.split)


text \<open>The statements of the source that unlink and relink a node, one at a time.\<close>

lemma unlink_steps:
  assumes "dll h (as @ p # x # bs)"
  defines "h1 \<equiv> h[p := (h ! p)\<lparr>n_next := first_of bs None\<rparr>]"
  shows "load h (Some x) = Some (h ! x)"
    "store_next h (n_prev (h ! x)) (n_next (h ! x)) = Some h1"
    "load h1 (Some x) = Some (h ! x)"
    "(if n_next (h ! x) \<noteq> None then store_prev h1 (n_next (h ! x)) (n_prev (h ! x)) else Some h1) =
     Some (unlinked h p bs)"
  using dll_neighbours [OF assms(1)]
  by (simp_all add: h1_def unlinked_def Let_def split: list.split)

lemma relink_steps:
  assumes "dll h (as @ p # x # bs)"
  defines "u \<equiv> unlinked h p bs"
  defines "u1 \<equiv> u[p := (u ! p)\<lparr>n_next := Some x\<rparr>]"
  shows "load u (Some x) = Some (h ! x)"
    "store_next u (n_prev (h ! x)) (Some x) = Some u1"
    "load u1 (Some x) = Some (h ! x)"
    "(if n_next (h ! x) \<noteq> None then store_prev u1 (n_next (h ! x)) (Some x) else Some u1) = Some h"
proof -
  note nb = dll_neighbours [OF assms(1)]
  have x: "u ! x = h ! x" "length u = length h"
    using nb by (simp_all add: u_def)
  with nb show "load u (Some x) = Some (h ! x)"
    "store_next u (n_prev (h ! x)) (Some x) = Some u1"
    "load u1 (Some x) = Some (h ! x)"
    by (simp_all add: u1_def)
  have "(if n_next (h ! x) \<noteq> None then store_prev u1 (n_next (h ! x)) (Some x) else Some u1) =
        Some (relinked u p x bs)"
    using nb x by (simp add: u1_def relinked_def Let_def split: list.split)
  then show "(if n_next (h ! x) \<noteq> None then store_prev u1 (n_next (h ! x)) (Some x) else Some u1) = Some h"
    by (simp only: u_def relinked_unlinked [OF assms(1)])
qed

section \<open>Lifting a call with its return\<close>

lemma split_last:
  obtains zs q where "as @ p # bs = zs @ [q]"
  by (metis append_butlast_last_id append_is_Nil_conv list.distinct(1))

lemma lift_unlift:
  assumes h: "dll h (as @ p # e # bs @ m # cs)" and mt: "n_match (h ! e) = Some m"
  obtains h' where "lift h (Some e) = Some h'" "unlift h' (Some e) = Some h"
    "dll h' (as @ p # bs @ cs)" "map payload h' = map payload h"
proof -
  let ?h1 = "unlinked h p (bs @ m # cs)"
  note nb = dll_neighbours [OF h]
  have h1: "dll ?h1 (as @ p # bs @ m # cs)"
    using dll_unlinked [OF h] by simp
  obtain zs q where zq: "as @ p # bs = zs @ [q]"
    by (rule split_last)
  then have h1': "dll ?h1 (zs @ q # m # cs)"
    using h1 by (metis append.assoc append_Cons append_Nil)
  let ?h2 = "unlinked ?h1 q cs"
  note nb1 = dll_neighbours [OF h1']
  have e: "?h1 ! e = h ! e"
    using nb by simp
  have "e \<noteq> q" "e \<notin> set cs"
    using h zq nb by (auto simp: dll_def) (metis Un_iff list.set_intros(1) set_append set_ConsD)+
  then have e2: "?h2 ! e = ?h1 ! e"
    by simp
  have ne: "n_next (h ! e) \<noteq> None"
    using nb by (cases bs) auto
  have "lift h (Some e) = Some ?h2"
    unfolding lift_def
    using unlink_steps [OF h] unlink_steps [OF h1'] ne e mt nb(2) by (simp add: Let_def)
  moreover have "unlift ?h2 (Some e) = Some h"
    unfolding unlift_def
    using relink_steps [OF h1'] relink_steps [OF h] ne e e2 mt nb(2)
    by (simp add: Let_def split del: if_split cong: if_cong)
  moreover have "dll ?h2 (as @ p # bs @ cs)"
    using dll_unlinked [OF h1'] zq by (metis append.assoc append_Cons append_Nil)
  ultimately show thesis
    using that by simp
qed


section \<open>Building the list\<close>

lemma dll_in_range: "dll h xs \<Longrightarrow> x \<in> set xs \<Longrightarrow> x < length h"
  by (auto simp: dll_def intro: dseg_in_range)

lemma dll_append_heap: "dll h xs \<Longrightarrow> dll (h @ nds) xs"
proof -
  have "dseg h p xs q \<Longrightarrow> dseg (h @ nds) p xs q" for p q
    by (induction xs arbitrary: p) (auto simp: nth_append)
  then show "dll h xs \<Longrightarrow> dll (h @ nds) xs"
    by (auto simp: dll_def)
qed

lemma insertBefore_nil [simp]: "insertBefore h n None = Some (h, n)"
  by (simp add: insertBefore_def)

lemma insertBefore_front:
  assumes h: "dll h xs" and a: "a < length h" "a \<notin> set xs"
    and free: "n_prev (h ! a) = None" "n_next (h ! a) = None"
  obtains h' where "insertBefore h (Some a) (first_of xs None) = Some (h', Some a)"
    "dll h' (a # xs)" "map payload h' = map payload h"
proof (cases xs)
  case Nil
  with assms show thesis
    by (intro that [of h]) (auto simp: dll_def)
next
  case (Cons r ys)
  let ?h1 = "h[r := (h ! r)\<lparr>n_prev := Some a\<rparr>]"
  let ?h2 = "?h1[a := (?h1 ! a)\<lparr>n_next := Some r\<rparr>]"
  have r: "r < length h" "n_prev (h ! r) = None" "r \<noteq> a"
    using h a Cons by (auto simp: dll_def)
  have "insertBefore h (Some a) (first_of xs None) = Some (?h2, Some a)"
    using r a Cons by (simp add: insertBefore_def Let_def)
  moreover have "dll ?h2 (a # xs)"
    using h r a free Cons by (auto simp: dll_def nth_list_update)
  moreover have "map payload ?h2 = map payload ?h1"
    by (rule map_payload_update) simp
  moreover have "map payload ?h1 = map payload h"
    by (rule map_payload_update) simp
  ultimately show thesis
    using that by simp
qed

text \<open>The payloads \<open>makeLinkedEntries\<close> allocates, for the entries from last to first.\<close>

fun linked_payloads ::
  "nat \<Rightarrow> (int \<Rightarrow> nat option) \<Rightarrow> 'v entry list \<Rightarrow> ('v option \<times> nat option \<times> int) list" where
  "linked_payloads n mt [] = []"
| "linked_payloads n mt (e # es) =
     (if e_kind e = returnEntry
      then (Some (e_value e), None, e_id e) # linked_payloads (Suc n) (mt(e_id e := Some n)) es
      else (Some (e_value e), mt (e_id e), e_id e) # linked_payloads (Suc n) mt es)"

lemma rev_upt_Suc: "rev [0..<Suc n] = n # rev [0..<n]"
  by simp

lemma new_node_insertBefore:
  assumes "dll h (rev [0..<length h])"
  obtains h' where
    "insertBefore (h @ [\<lparr>n_value = v, n_match = mt, n_id = i, n_next = None, n_prev = None\<rparr>])
       (Some (length h)) (first_of (rev [0..<length h]) None) = Some (h', Some (length h))"
    "dll h' (rev [0..<length h'])" "length h' = Suc (length h)"
    "map payload h' = map payload h @ [(v, mt, i)]"
proof -
  let ?h = "h @ [\<lparr>n_value = v, n_match = mt, n_id = i, n_next = None, n_prev = None\<rparr>]"
  obtain h' where h': "insertBefore ?h (Some (length h)) (first_of (rev [0..<length h]) None) =
        Some (h', Some (length h))"
      "dll h' (length h # rev [0..<length h])" "map payload h' = map payload ?h"
    by (rule insertBefore_front [of ?h "rev [0..<length h]" "length h"])
      (use assms in \<open>auto intro: dll_append_heap\<close>)
  have "length h' = length ?h"
    using h'(3) by (metis length_map)
  with h' show thesis
    by (intro that [of h']) (simp_all add: payload_def)
qed

lemma makeLinkedEntries_loop_correct:
  assumes "dll h (rev [0..<length h])"
  shows "\<exists>h'. makeLinkedEntries_loop h (first_of (rev [0..<length h]) None) mtch es =
           Some (h', first_of (rev [0..<length h']) None) \<and>
         dll h' (rev [0..<length h']) \<and> length h' = length h + length es \<and>
         map payload h' = map payload h @ linked_payloads (length h) mtch es"
  using assms
proof (induction es arbitrary: h mtch)
  case (Cons e es)
  define mt where "mt = (if e_kind e = returnEntry then None else mtch (e_id e))"
  define mtch' where
    "mtch' = (if e_kind e = returnEntry then mtch(e_id e := Some (length h)) else mtch)"
  obtain h1 where h1:
    "insertBefore (h @ [\<lparr>n_value = Some (e_value e), n_match = mt, n_id = e_id e, n_next = None, n_prev = None\<rparr>])
       (Some (length h)) (first_of (rev [0..<length h]) None) = Some (h1, Some (length h))"
    "dll h1 (rev [0..<length h1])" "length h1 = Suc (length h)"
    "map payload h1 = map payload h @ [(Some (e_value e), mt, e_id e)]"
    using new_node_insertBefore [OF Cons.prems] by blast
  have "makeLinkedEntries_loop h (first_of (rev [0..<length h]) None) mtch (e # es) =
        makeLinkedEntries_loop h1 (first_of (rev [0..<length h1]) None) mtch' es"
    using h1(1,3) by (cases "e_kind e = returnEntry") (simp_all add: new_node_def mt_def mtch'_def Let_def)
  moreover have "linked_payloads (length h) mtch (e # es) =
      (Some (e_value e), mt, e_id e) # linked_payloads (length h1) mtch' es"
    using h1(3) by (simp add: mt_def mtch'_def)
  ultimately show ?case
    using Cons.IH [OF h1(2), of mtch'] h1(3,4) by auto
qed simp

lemma linked_payloads_nth:
  "j < length es \<Longrightarrow>
   \<exists>mt. linked_payloads n mtch es ! j = (Some (e_value (es ! j)), mt, e_id (es ! j)) \<and>
        (e_kind (es ! j) = returnEntry \<longrightarrow> mt = None)"
  by (induction es arbitrary: n mtch j) (auto simp: nth_Cons split: nat.split)

lemma linked_payloads_match_kept:
  assumes "j < length es" "is_call i (es ! j)" "\<And>k. k < j \<Longrightarrow> \<not> is_return i (es ! k)"
  shows "linked_payloads n mtch es ! j = (Some (e_value (es ! j)), mtch i, i)"
  using assms
proof (induction es arbitrary: n mtch j)
  case (Cons e es)
  show ?case
  proof (cases j)
    case 0
    with Cons.prems show ?thesis by (auto simp: is_call_def)
  next
    case (Suc j')
    have "\<not> is_return i e"
      using Cons.prems(3) [of 0] Suc by simp
    moreover have "linked_payloads m' mt' es ! j' = (Some (e_value (es ! j')), mt' i, i)" for m' mt'
      using Cons.prems Suc by (intro Cons.IH) (auto, metis Suc_less_eq nth_Cons_Suc)
    ultimately show ?thesis
      using Suc by (auto simp: is_return_def)
  qed
qed simp

lemma linked_payloads_match:
  assumes "j < length es" "is_call i (es ! j)" "k < j" "is_return i (es ! k)"
    "\<And>k'. k < k' \<Longrightarrow> k' < j \<Longrightarrow> \<not> is_return i (es ! k')"
  shows "linked_payloads n mtch es ! j = (Some (e_value (es ! j)), Some (n + k), i)"
  using assms
proof (induction es arbitrary: n mtch j k)
  case (Cons e es)
  from Cons.prems(3) obtain j' where j: "j = Suc j'"
    by (cases j) auto
  show ?case
  proof (cases k)
    case 0
    have "linked_payloads (Suc n) (mtch(i := Some n)) es ! j' =
        (Some (e_value (es ! j')), (mtch(i := Some n)) i, i)"
    proof (rule linked_payloads_match_kept)
      show "j' < length es" "is_call i (es ! j')"
        using Cons.prems(1,2) j by simp_all
      show "\<not> is_return i (es ! m)" if "m < j'" for m
        using Cons.prems(5) [of "Suc m"] 0 j that by simp
    qed
    moreover have "is_return i e"
      using Cons.prems(4) 0 by simp
    ultimately show ?thesis
      using 0 j by (simp add: is_return_def)
  next
    case (Suc k')
    have "linked_payloads m' mt' es ! j' = (Some (e_value (es ! j')), Some (m' + k'), i)" for m' mt'
    proof (rule Cons.IH)
      show "j' < length es" "is_call i (es ! j')" "k' < j'" "is_return i (es ! k')"
        using Cons.prems(1-4) j Suc by simp_all
      show "\<not> is_return i (es ! m)" if "k' < m" "m < j'" for m
        using Cons.prems(5) [of "Suc m"] j Suc that by simp
    qed
    then show ?thesis
      using j Suc by simp
  qed
qed simp

section \<open>Length\<close>

lemma length_loop_dseg:
  assumes "dseg h p xs None"
  shows "length_loop h (first_of xs None) l = Some (l + length xs)"
  using assms
proof (induction xs arbitrary: p l)
  case Nil
  then show ?case by (simp add: length_loop.simps [of h None])
next
  case (Cons x xs)
  then have "length_loop h (first_of xs None) (Suc l) = Some (Suc l + length xs)"
    using Cons.IH [of "Some x" "Suc l"] by simp
  with Cons.prems show ?case by (simp add: length_loop.simps [of h "Some x"])
qed

lemma node_length_dll: "dll h xs \<Longrightarrow> node_length h (first_of xs None) = Some (length xs)"
  using length_loop_dseg [of h None xs 0] by (simp add: node_length_def dll_def)

end
