(* ===== verification/Bitset.thy ===== *)
theory Bitset
  imports Prelude
begin

text \<open>
  The bit set of the linearizability checker (\<open>src/6.5840/src/porcupine/bitset.go\<close>): a slice of 64-bit
  words. Positions are Go's \<open>uint\<close>, 64 bits wide on the platforms the labs run on. The operations
  mutate the slice in place and return it; the model returns the new slice, and \<^term>\<open>None\<close> where the
  source panics on an index outside the slice.

  The abstraction \<open>bits_of\<close> reads a bit set as a set of positions; the locale \<open>position_set\<close> is the
  interface the checker relies on, interpreted here on the operations of the source.
\<close>

type_synonym bitset = "uint64 list"

section \<open>Operations\<close>

definition newBitset :: "uint64 \<Rightarrow> bitset" where
  "newBitset bits =
     (let extra = (if bits mod 64 \<noteq> 0 then 1 else 0);
          chunks = bits div 64 + extra
      in replicate (unat chunks) 0)"

definition bitset_clone :: "bitset \<Rightarrow> bitset" where
  "bitset_clone b = map (\<lambda>w. w) b"

definition bitsetIndex :: "uint64 \<Rightarrow> uint64 \<times> uint64" where
  "bitsetIndex pos = (pos div 64, pos mod 64)"

definition bitset_set :: "bitset \<Rightarrow> uint64 \<Rightarrow> bitset option" where
  "bitset_set b pos =
     (let (major, minor) = bitsetIndex pos
      in do {
        w \<leftarrow> slice_get b (unat major);
        slice_set b (unat major) (w OR push_bit (unat minor) 1)
      })"

definition bitset_clear :: "bitset \<Rightarrow> uint64 \<Rightarrow> bitset option" where
  "bitset_clear b pos =
     (let (major, minor) = bitsetIndex pos
      in do {
        w \<leftarrow> slice_get b (unat major);
        slice_set b (unat major) (w AND NOT (push_bit (unat minor) 1))
      })"

definition bitset_get :: "bitset \<Rightarrow> uint64 \<Rightarrow> bool option" where
  "bitset_get b pos =
     (let (major, minor) = bitsetIndex pos
      in do {
        w \<leftarrow> slice_get b (unat major);
        Some (w AND push_bit (unat minor) 1 \<noteq> 0)
      })"

text \<open>\<open>bits.OnesCount64\<close> of Go's standard library: the number of one bits of a word.\<close>

definition OnesCount64 :: "uint64 \<Rightarrow> nat" where
  "OnesCount64 w = length (filter (bit w) [0..<64])"

fun popcnt_loop :: "nat \<Rightarrow> bitset \<Rightarrow> nat" where
  "popcnt_loop tot [] = tot"
| "popcnt_loop tot (v # vs) = popcnt_loop (tot + OnesCount64 v) vs"

definition bitset_popcnt :: "bitset \<Rightarrow> uint64" where
  "bitset_popcnt b = of_nat (popcnt_loop 0 b)"

fun hash_loop :: "uint64 \<Rightarrow> bitset \<Rightarrow> uint64" where
  "hash_loop h [] = h"
| "hash_loop h (v # vs) = hash_loop (h XOR v) vs"

definition bitset_hash :: "bitset \<Rightarrow> uint64" where
  "bitset_hash b = hash_loop (bitset_popcnt b) b"

fun equals_loop :: "bitset \<Rightarrow> bitset \<Rightarrow> bool" where
  "equals_loop (v # vs) (v2 # vs2) = (if v \<noteq> v2 then False else equals_loop vs vs2)"
| "equals_loop _ _ = True"

definition bitset_equals :: "bitset \<Rightarrow> bitset \<Rightarrow> bool" where
  "bitset_equals b b2 = (if length b \<noteq> length b2 then False else equals_loop b b2)"

section \<open>Abstraction to sets of positions\<close>

definition bitset_cap :: "bitset \<Rightarrow> nat" where
  "bitset_cap b = 64 * length b"

definition bits_of :: "bitset \<Rightarrow> nat set" where
  "bits_of b = {p. p < bitset_cap b \<and> bit (b ! (p div 64)) (p mod 64)}"


lemma bits_of_iff: "p \<in> bits_of b \<longleftrightarrow> p < bitset_cap b \<and> bit (b ! (p div 64)) (p mod 64)"
  by (simp add: bits_of_def)

lemma index_in_range: "p < bitset_cap b \<longleftrightarrow> p div 64 < length b"
  by (auto simp: bitset_cap_def)

lemma unat_bitsetIndex [simp]:
  "unat (fst (bitsetIndex pos)) = unat pos div 64"
  "unat (snd (bitsetIndex pos)) = unat pos mod 64"
  by (simp_all add: bitsetIndex_def unat_div unat_mod)

lemma pos_eq_iff: "p = q \<longleftrightarrow> p div 64 = q div 64 \<and> p mod 64 = q mod (64::nat)"
  by (metis div_mult_mod_eq)

section \<open>Every operation against the abstraction\<close>

lemma newBitset_empty: "bits_of (newBitset n) = {}"
  by (auto simp: bits_of_def newBitset_def bitset_cap_def Let_def index_in_range)

lemma newBitset_cap: "unat n \<le> bitset_cap (newBitset n)"
proof -
  define q r where "q = unat n div 64" and "r = unat n mod 64"
  have n: "unat n = q * 64 + r" and r: "r < 64"
    by (simp_all add: q_def r_def)
  have "unat n < 2 ^ 64"
    using unsigned_less [of n, where 'a = nat] by simp
  then have q: "q < 2 ^ 58"
    unfolding q_def by simp
  have "(n mod 64 \<noteq> 0) \<longleftrightarrow> r \<noteq> 0"
    using unat_mod [of n 64] by (simp add: r_def flip: unat_eq_zero)
  moreover have "unat (n div 64 + 1) = q + 1" and "unat (n div 64) = q"
    using q by (simp_all add: q_def unat_word_ariths unat_div)
  ultimately show ?thesis
    using n r by (simp add: newBitset_def bitset_cap_def Let_def)
qed

lemma bitset_set_spec:
  assumes "unat pos < bitset_cap b"
  shows "\<exists>b'. bitset_set b pos = Some b' \<and> length b' = length b \<and>
              bits_of b' = insert (unat pos) (bits_of b)"
proof -
  define i where "i = unat pos div 64"
  define b' where "b' = b[i := b ! i OR push_bit (unat pos mod 64) 1]"
  have i: "i < length b"
    using assms by (simp add: i_def index_in_range)
  have "bitset_set b pos = Some b'"
    using i by (simp add: bitset_set_def b'_def i_def Let_def split_beta)
  moreover have "p \<in> bits_of b' \<longleftrightarrow> p = unat pos \<or> p \<in> bits_of b" for p
    using i assms unfolding pos_eq_iff [of p]
    by (cases "p div 64 = i")
      (auto simp: bits_of_iff b'_def bitset_cap_def i_def bit_simps nth_list_update)
  ultimately show ?thesis
    by (auto simp: b'_def)
qed

lemma bitset_clear_spec:
  assumes "unat pos < bitset_cap b"
  shows "\<exists>b'. bitset_clear b pos = Some b' \<and> length b' = length b \<and>
              bits_of b' = bits_of b - {unat pos}"
proof -
  define i where "i = unat pos div 64"
  define b' where "b' = b[i := b ! i AND NOT (push_bit (unat pos mod 64) 1)]"
  have i: "i < length b"
    using assms by (simp add: i_def index_in_range)
  have "bitset_clear b pos = Some b'"
    using i by (simp add: bitset_clear_def b'_def i_def Let_def split_beta)
  moreover have "p \<in> bits_of b' \<longleftrightarrow> p \<noteq> unat pos \<and> p \<in> bits_of b" for p
    using i unfolding pos_eq_iff [of p]
    by (cases "p div 64 = i")
      (auto simp: bits_of_iff b'_def bitset_cap_def i_def bit_simps nth_list_update)
  ultimately show ?thesis
    by (auto simp: b'_def)
qed

lemma bitset_get_spec:
  assumes "unat pos < bitset_cap b"
  shows "bitset_get b pos = Some (unat pos \<in> bits_of b)"
proof -
  have "b ! (unat pos div 64) AND push_bit (unat pos mod 64) 1 \<noteq> 0 \<longleftrightarrow>
        bit (b ! (unat pos div 64)) (unat pos mod 64)"
    by (simp add: push_bit_of_1 and_exp_eq_0_iff_not_bit)
  with assms show ?thesis
    by (simp add: bitset_get_def bits_of_iff index_in_range Let_def split_beta)
qed

lemma bitset_out_of_range:
  assumes "bitset_cap b \<le> unat pos"
  shows "bitset_set b pos = None" "bitset_clear b pos = None" "bitset_get b pos = None"
proof -
  have "slice_get b (unat pos div 64) = None"
    using assms index_in_range [of "unat pos" b] by (simp add: slice_get_None_iff)
  then show "bitset_set b pos = None" "bitset_clear b pos = None" "bitset_get b pos = None"
    by (simp_all add: bitset_set_def bitset_clear_def bitset_get_def Let_def split_beta)
qed

lemma equals_loop_iff: "length b = length c \<Longrightarrow> equals_loop b c \<longleftrightarrow> b = c"
  by (induction b c rule: list_induct2) auto

lemma bitset_equals_iff: "bitset_equals b c \<longleftrightarrow> b = c"
  by (auto simp: bitset_equals_def equals_loop_iff)

lemma bits_of_inject:
  assumes "length b = length c" and "bits_of b = bits_of c"
  shows "b = c"
proof (rule nth_equalityI [OF assms(1)])
  fix i assume i: "i < length b"
  show "b ! i = c ! i"
  proof (rule bit_word_eqI)
    fix k assume k: "k < LENGTH(64)"
    have "64 * i + k \<in> bits_of b \<longleftrightarrow> 64 * i + k \<in> bits_of c"
      using assms(2) by simp
    then show "bit (b ! i) k \<longleftrightarrow> bit (c ! i) k"
      using i k assms(1) by (simp add: bits_of_iff index_in_range)
  qed
qed

lemma popcnt_loop_sum: "popcnt_loop t b = t + sum_list (map OnesCount64 b)"
  by (induction b arbitrary: t) auto

lemma OnesCount64_card: "OnesCount64 w = card {k. k < 64 \<and> bit w k}"
proof -
  have "OnesCount64 w = card (set (filter (bit w) [0..<64]))"
    unfolding OnesCount64_def by (rule distinct_card [symmetric]) simp
  also have "set (filter (bit w) [0..<64]) = {k. k < 64 \<and> bit w k}"
    by auto
  finally show ?thesis .
qed

lemma bits_of_snoc:
  "bits_of (b @ [w]) = bits_of b \<union> (\<lambda>k. bitset_cap b + k) ` {k. k < 64 \<and> bit w k}"
proof (rule set_eqI)
  fix p
  show "p \<in> bits_of (b @ [w]) \<longleftrightarrow>
        p \<in> bits_of b \<union> (\<lambda>k. bitset_cap b + k) ` {k. k < 64 \<and> bit w k}"
  proof (cases "p < bitset_cap b")
    case True
    then show ?thesis
      by (auto simp: bits_of_iff bitset_cap_def nth_append)
  next
    case False
    then obtain k where p: "p = bitset_cap b + k"
      using le_Suc_ex not_le by blast
    then show ?thesis
      by (auto simp: bits_of_iff bitset_cap_def nth_append div_add1_eq)
  qed
qed

lemma finite_bits_of [simp]: "finite (bits_of b)"
  by (simp add: bits_of_def)

lemma sum_OnesCount64: "sum_list (map OnesCount64 b) = card (bits_of b)"
proof (induction b rule: rev_induct)
  case Nil
  then show ?case by (simp add: bits_of_def bitset_cap_def)
next
  case (snoc w b)
  have "bits_of b \<inter> (\<lambda>k. bitset_cap b + k) ` {k. k < 64 \<and> bit w k} = {}"
    by (auto simp: bits_of_iff)
  then have "card (bits_of (b @ [w])) = card (bits_of b) + OnesCount64 w"
    by (simp add: bits_of_snoc card_Un_disjoint card_image OnesCount64_card)
  with snoc show ?case by simp
qed

lemma bitset_popcnt_card: "bitset_popcnt b = of_nat (card (bits_of b))"
  by (simp add: bitset_popcnt_def popcnt_loop_sum sum_OnesCount64)

lemma bitset_clone_id [simp]: "bitset_clone b = b"
  by (simp add: bitset_clone_def)


section \<open>The interface the checker relies on\<close>

locale position_set =
  fixes new :: "uint64 \<Rightarrow> 'b"
    and ins :: "'b \<Rightarrow> uint64 \<Rightarrow> 'b option"
    and del :: "'b \<Rightarrow> uint64 \<Rightarrow> 'b option"
    and mem :: "'b \<Rightarrow> uint64 \<Rightarrow> bool option"
    and eq :: "'b \<Rightarrow> 'b \<Rightarrow> bool"
    and hsh :: "'b \<Rightarrow> uint64"
    and elems :: "'b \<Rightarrow> nat set"
    and cap :: "'b \<Rightarrow> nat"
  assumes new_empty: "elems (new n) = {}"
    and new_cap: "unat n \<le> cap (new n)"
    and ins_ok: "unat p < cap b \<Longrightarrow>
      \<exists>b'. ins b p = Some b' \<and> cap b' = cap b \<and> elems b' = insert (unat p) (elems b)"
    and del_ok: "unat p < cap b \<Longrightarrow>
      \<exists>b'. del b p = Some b' \<and> cap b' = cap b \<and> elems b' = elems b - {unat p}"
    and mem_ok: "unat p < cap b \<Longrightarrow> mem b p = Some (unat p \<in> elems b)"
    and eq_iff: "cap b = cap c \<Longrightarrow> eq b c \<longleftrightarrow> elems b = elems c"
    and hash_cong: "eq b c \<Longrightarrow> hsh b = hsh c"
begin

lemma mem_after_ins:
  assumes "unat p < cap b" "unat q < cap b" "ins b p = Some b'"
  shows "mem b' q = Some (q = p \<or> unat q \<in> elems b)"
proof -
  from ins_ok [OF assms(1)] assms(3)
  have "cap b' = cap b" "elems b' = insert (unat p) (elems b)"
    by auto
  with assms(2) show ?thesis
    by (simp add: mem_ok word_unat_eq_iff)
qed

lemma del_after_ins:
  assumes "unat p < cap b" "unat p \<notin> elems b" "ins b p = Some b'"
  shows "\<exists>b''. del b' p = Some b'' \<and> cap b'' = cap b \<and> eq b'' b \<and> elems b'' = elems b"
proof -
  from ins_ok [OF assms(1)] assms(3)
  have b': "cap b' = cap b" "elems b' = insert (unat p) (elems b)"
    by auto
  with assms(1) have "unat p < cap b'"
    by simp
  from del_ok [OF this] b' assms(2) show ?thesis
    by (auto simp: eq_iff)
qed

lemma equal_elems_same_bucket: "cap b = cap c \<Longrightarrow> elems b = elems c \<Longrightarrow> hsh b = hsh c"
  by (simp add: eq_iff hash_cong)

end

interpretation bs: position_set newBitset bitset_set bitset_clear bitset_get
  bitset_equals bitset_hash bits_of bitset_cap
proof unfold_locales
  fix b c :: bitset
  assume "bitset_cap b = bitset_cap c"
  then show "bitset_equals b c = (bits_of b = bits_of c)"
    by (auto simp: bitset_equals_iff bitset_cap_def intro: bits_of_inject)
next
  fix b :: bitset and p :: uint64
  assume p: "unat p < bitset_cap b"
  show "\<exists>b'. bitset_set b p = Some b' \<and> bitset_cap b' = bitset_cap b \<and>
          bits_of b' = insert (unat p) (bits_of b)"
    using bitset_set_spec [OF p] by (auto simp: bitset_cap_def)
  show "\<exists>b'. bitset_clear b p = Some b' \<and> bitset_cap b' = bitset_cap b \<and>
          bits_of b' = bits_of b - {unat p}"
    using bitset_clear_spec [OF p] by (auto simp: bitset_cap_def)
qed (auto simp: newBitset_empty newBitset_cap bitset_get_spec bitset_equals_iff)

end
