(* ===== verification/CheckSingle.thy ===== *)
theory CheckSingle
  imports EntryList Bitset
begin

text \<open>
  The search of the checker (\<open>src/6.5840/src/porcupine/checker.go\<close>, lines 140--157 and 179--253):
  \<open>checkSingle\<close> looks for a linearization of one history by depth-first search with backtracking over
  the linked list of entries, with a cache of the configurations (linearized operations, model state)
  already tried.

  One turn of the source's loop is \<open>checkSingle_step\<close>; a panic is \<^term>\<open>None\<close>. The loop
  \<open>checkSingle_loop\<close> is a \<open>partial_function\<close>: \<^term>\<open>None\<close> is a run that does not end,
  \<^term>\<open>Some None\<close> a run that panics. The flag \<open>kill\<close>, which other goroutines set, is a function from
  the number of the turn to the value the turn reads. A pointer to a slice of ids, as \<open>longest\<close> holds
  them, is the number of the turn that allocated the slice together with its content, which never
  changes.
\<close>

section \<open>The cache\<close>

record 's cacheEntry =
  ce_linearized :: bitset
  ce_state :: 's

type_synonym 's cache = "uint64 \<Rightarrow> 's cacheEntry list"

fun cacheContains_loop ::
  "('v, 's) Model \<Rightarrow> 's cacheEntry \<Rightarrow> 's cacheEntry list \<Rightarrow> bool option" where
  "cacheContains_loop model entry [] = Some False"
| "cacheContains_loop model entry (elem # elems) =
     (if bitset_equals (ce_linearized entry) (ce_linearized elem) then do {
        eq \<leftarrow> m_Equal model;
        if eq (ce_state entry) (ce_state elem) then Some True
        else cacheContains_loop model entry elems
      } else cacheContains_loop model entry elems)"

definition cacheContains :: "('v, 's) Model \<Rightarrow> 's cache \<Rightarrow> 's cacheEntry \<Rightarrow> bool option" where
  "cacheContains model cache entry =
     cacheContains_loop model entry (cache (bitset_hash (ce_linearized entry)))"

section \<open>The search\<close>

record 's callsEntry =
  c_entry :: "nat option"
  c_state :: 's

type_synonym longest = "(nat \<times> int list) option list"

record ('v, 's) search =
  s_heap :: "'v heap"
  s_entry :: "nat option"
  s_state :: 's
  s_linearized :: bitset
  s_cache :: "'s cache"
  s_calls :: "'s callsEntry list"
  s_longest :: longest
  s_ticks :: nat

datatype ('st, 'r) ctl = Continue 'st | Return 'r

definition int_get :: "'a list \<Rightarrow> int \<Rightarrow> 'a option" where
  "int_get xs i = (if i < 0 then None else slice_get xs (nat i))"

definition int_set :: "'a list \<Rightarrow> int \<Rightarrow> 'a \<Rightarrow> 'a list option" where
  "int_set xs i v = (if i < 0 then None else slice_set xs (nat i) v)"

fun call_ids :: "'v heap \<Rightarrow> 's callsEntry list \<Rightarrow> int list option" where
  "call_ids h [] = Some []"
| "call_ids h (v # vs) = do { nd \<leftarrow> load h (c_entry v); is \<leftarrow> call_ids h vs; Some (n_id nd # is) }"

fun longest_loop ::
  "'v heap \<Rightarrow> nat \<Rightarrow> int list \<Rightarrow> longest \<Rightarrow> 's callsEntry list \<Rightarrow> longest option" where
  "longest_loop h ref seq longest [] = Some longest"
| "longest_loop h ref seq longest (v # vs) = do {
     nd \<leftarrow> load h (c_entry v);
     old \<leftarrow> int_get longest (n_id nd);
     if old = None \<or> length seq > length (snd (the old)) then do {
       longest \<leftarrow> int_set longest (n_id nd) (Some (ref, seq));
       longest_loop h ref seq longest vs
     } else longest_loop h ref seq longest vs
   }"

definition update_longest ::
  "bool \<Rightarrow> ('v, 's) search \<Rightarrow> longest option" where
  "update_longest computePartial st =
     (if computePartial then do {
        seq \<leftarrow> call_ids (s_heap st) (s_calls st);
        longest_loop (s_heap st) (s_ticks st) seq (s_longest st) (s_calls st)
      } else Some (s_longest st))"

definition checkSingle_call ::
  "('v, 's) Model \<Rightarrow> nat option \<Rightarrow> ('v, 's) search \<Rightarrow> 'v node \<Rightarrow> ('v, 's) search option" where
  "checkSingle_call model headEntry st e = do {
     mtching \<leftarrow> load (s_heap st) (n_match e);
     inp \<leftarrow> n_value e;
     out \<leftarrow> n_value mtching;
     (ok, newState) \<leftarrow> m_Step model (s_state st) inp out;
     if ok then do {
       newLinearized \<leftarrow> bitset_set (bitset_clone (s_linearized st)) (of_int (n_id e));
       let newCacheEntry = \<lparr>ce_linearized = newLinearized, ce_state = newState\<rparr>;
       seen \<leftarrow> cacheContains model (s_cache st) newCacheEntry;
       if \<not> seen then do {
         let hash = bitset_hash newLinearized;
         let cache = (s_cache st)(hash := s_cache st hash @ [newCacheEntry]);
         let calls = s_calls st @ [\<lparr>c_entry = s_entry st, c_state = s_state st\<rparr>];
         linearized \<leftarrow> bitset_set (s_linearized st) (of_int (n_id e));
         h \<leftarrow> lift (s_heap st) (s_entry st);
         hd \<leftarrow> load h headEntry;
         Some (st\<lparr>s_heap := h, s_entry := n_next hd, s_state := newState,
                  s_linearized := linearized, s_cache := cache, s_calls := calls\<rparr>)
       } else Some (st\<lparr>s_entry := n_next e\<rparr>)
     } else Some (st\<lparr>s_entry := n_next e\<rparr>)
   }"

definition checkSingle_backtrack ::
  "bool \<Rightarrow> ('v, 's) search \<Rightarrow> ('v, 's) search option" where
  "checkSingle_backtrack computePartial st = do {
     longest \<leftarrow> update_longest computePartial st;
     let callsTop = last (s_calls st);
     e \<leftarrow> load (s_heap st) (c_entry callsTop);
     linearized \<leftarrow> bitset_clear (s_linearized st) (of_int (n_id e));
     h \<leftarrow> unlift (s_heap st) (c_entry callsTop);
     e \<leftarrow> load h (c_entry callsTop);
     Some (st\<lparr>s_heap := h, s_entry := n_next e, s_state := c_state callsTop,
              s_linearized := linearized, s_calls := butlast (s_calls st), s_longest := longest\<rparr>)
   }"

definition checkSingle_step ::
  "('v, 's) Model \<Rightarrow> bool \<Rightarrow> (nat \<Rightarrow> bool) \<Rightarrow> nat option \<Rightarrow> ('v, 's) search \<Rightarrow>
   (('v, 's) search, bool \<times> longest) ctl option" where
  "checkSingle_step model computePartial kill headEntry st = do {
     hd \<leftarrow> load (s_heap st) headEntry;
     if n_next hd = None then do {
       seq \<leftarrow> call_ids (s_heap st) (s_calls st);
       Some (Return (True, map (\<lambda>_. Some (s_ticks st, seq)) (s_longest st)))
     } else if kill (s_ticks st) then Some (Return (False, s_longest st))
     else do {
       e \<leftarrow> load (s_heap st) (s_entry st);
       if n_match e \<noteq> None then do {
         st \<leftarrow> checkSingle_call model headEntry st e;
         Some (Continue (st\<lparr>s_ticks := Suc (s_ticks st)\<rparr>))
       } else if s_calls st = [] then Some (Return (False, s_longest st))
       else do {
         st \<leftarrow> checkSingle_backtrack computePartial st;
         Some (Continue (st\<lparr>s_ticks := Suc (s_ticks st)\<rparr>))
       }
     }
   }"

partial_function (option) checkSingle_loop ::
  "('v, 's) Model \<Rightarrow> bool \<Rightarrow> (nat \<Rightarrow> bool) \<Rightarrow> nat option \<Rightarrow> ('v, 's) search \<Rightarrow>
   (bool \<times> longest) option option" where
  "checkSingle_loop model computePartial kill headEntry st =
     (case checkSingle_step model computePartial kill headEntry st of
        None \<Rightarrow> Some None
      | Some c \<Rightarrow>
          (case c of
             Return r \<Rightarrow> Some (Some r)
           | Continue st' \<Rightarrow> checkSingle_loop model computePartial kill headEntry st'))"

declare checkSingle_loop.simps [code]

definition checkSingle_init ::
  "('v, 's) Model \<Rightarrow> 'v entry list \<Rightarrow> (nat option \<times> ('v, 's) search) option" where
  "checkSingle_init model history = do {
     (h, entry) \<leftarrow> makeLinkedEntries [] history;
     l \<leftarrow> node_length h entry;
     let n = l div 2;
     let (h, nd) = new_node h None None (- 1);
     (h, headEntry) \<leftarrow> insertBefore h nd entry;
     Some (headEntry,
       \<lparr>s_heap = h, s_entry = entry, s_state = m_Init model, s_linearized = newBitset (of_nat n),
        s_cache = (\<lambda>_. []), s_calls = [], s_longest = replicate n None, s_ticks = 0\<rparr>)
   }"

definition checkSingle ::
  "('v, 's) Model \<Rightarrow> 'v entry list \<Rightarrow> bool \<Rightarrow> (nat \<Rightarrow> bool) \<Rightarrow> (bool \<times> longest) option option" where
  "checkSingle model history computePartial kill =
     (case checkSingle_init model history of
        None \<Rightarrow> Some None
      | Some (headEntry, st) \<Rightarrow> checkSingle_loop model computePartial kill headEntry st)"

end
