(* ===== verification/SearchSpec.thy ===== *)
theory SearchSpec
  imports History
begin

text \<open>
  The search of the checker, without its data structures. A configuration is a zipper over the
  entries of the operations that are not linearized: the calls already scanned, the entries still to
  scan, and a stack of such zippers, one for each operation linearized so far. The theory shows that
  the search cannot miss a linearization (every call scanned is dead, every cached configuration is
  dead or on the current path) and that it ends. Theory \<open>CheckSingleCorrect\<close> shows that the linked
  list, the bitset and the hash table of \<open>checkSingle\<close> implement it.
\<close>

section \<open>What the checker asks of a model\<close>

text \<open>
  A model's \<open>Equal\<close> may only identify states that accept the same operations: otherwise the cache
  would drop configurations that matter.
\<close>

locale porcupine_model =
  fixes m :: "('v, 's) Model" and eq :: "'s \<Rightarrow> 's \<Rightarrow> bool"
  assumes Equal_set: "m_Equal m = Some eq"
    and Equal_step: "eq s t \<Longrightarrow> m_Step m s a b = Some (True, s') \<Longrightarrow>
      \<exists>t'. m_Step m t a b = Some (True, t') \<and> eq s' t'"
begin

lemma step_op_eq:
  assumes "eq s t" "step_op m es s i = Some s'"
  shows "\<exists>t'. step_op m es t i = Some t' \<and> eq s' t'"
proof -
  from assms(2) obtain a b where ab: "call_value es i = Some a" "return_value es i = Some b"
    "m_Step m s a b = Some (True, s')"
    by (auto simp: step_op_def split: bind_splits if_splits)
  from Equal_step [OF assms(1) ab(3)] ab show ?thesis
    by (auto simp: step_op_def)
qed

lemma run_ops_eq: "eq s t \<Longrightarrow> run_ops m es s p \<noteq> None \<Longrightarrow> run_ops m es t p \<noteq> None"
proof (induction p arbitrary: s t)
  case (Cons i p)
  from Cons.prems(2) obtain s' where s': "step_op m es s i = Some s'" "run_ops m es s' p \<noteq> None"
    by (auto split: bind_splits)
  from step_op_eq [OF Cons.prems(1) s'(1)] Cons.IH s'(2) show ?case
    by fastforce
qed simp

lemma completable_eq: "eq s t \<Longrightarrow> completable m es L s \<Longrightarrow> completable m es L t"
  using run_ops_eq [of s t es] by (auto simp: completable_def linearizes_def)

end

lemma ShallowEqual_porcupine_model:
  "m_Equal m = Some ShallowEqual \<Longrightarrow> porcupine_model m ShallowEqual"
  by unfold_locales (auto simp: ShallowEqual_def)

section \<open>The search\<close>

record ('v, 's) frame =
  f_pre :: "'v entry list"
  f_call :: "'v entry"
  f_post :: "'v entry list"
  f_state :: 's

record ('v, 's) asearch =
  a_frames :: "('v, 's) frame list"
  a_pre :: "'v entry list"
  a_post :: "'v entry list"
  a_state :: 's
  a_cache :: "(int set \<times> 's) set"

definition frame_ids :: "('v, 's) frame list \<Rightarrow> int set" where
  "frame_ids fs = (\<lambda>f. e_id (f_call f)) ` set fs"

definition frame_path :: "('v, 's) frame list \<Rightarrow> int list" where
  "frame_path fs = rev (map (\<lambda>f. e_id (f_call f)) fs)"

definition a_init :: "('v, 's) Model \<Rightarrow> 'v entry list \<Rightarrow> ('v, 's) asearch" where
  "a_init m es =
     \<lparr>a_frames = [], a_pre = [], a_post = es, a_state = m_Init m, a_cache = {}\<rparr>"

definition a_seen :: "('s \<Rightarrow> 's \<Rightarrow> bool) \<Rightarrow> (int set \<times> 's) set \<Rightarrow> int set \<Rightarrow> 's \<Rightarrow> bool" where
  "a_seen eq C L s \<longleftrightarrow> (\<exists>t. (L, t) \<in> C \<and> eq s t)"

definition a_next :: "('v, 's) asearch \<Rightarrow> 'v entry \<Rightarrow> 'v entry list \<Rightarrow> ('v, 's) asearch" where
  "a_next a e q = a\<lparr>a_pre := a_pre a @ [e], a_post := q\<rparr>"

definition a_push :: "('v, 's) asearch \<Rightarrow> 'v entry \<Rightarrow> 'v entry list \<Rightarrow> 's \<Rightarrow> ('v, 's) asearch" where
  "a_push a e q s =
     \<lparr>a_frames = \<lparr>f_pre = a_pre a, f_call = e, f_post = q, f_state = a_state a\<rparr> # a_frames a,
      a_pre = [], a_post = filter (\<lambda>x. e_id x \<noteq> e_id e) (a_pre a @ q), a_state = s,
      a_cache = insert (insert (e_id e) (frame_ids (a_frames a)), s) (a_cache a)\<rparr>"

definition a_pop :: "('v, 's) asearch \<Rightarrow> ('v, 's) frame \<Rightarrow> ('v, 's) frame list \<Rightarrow> ('v, 's) asearch" where
  "a_pop a f fs =
     \<lparr>a_frames = fs, a_pre = f_pre f @ [f_call f], a_post = f_post f, a_state = f_state f,
      a_cache = a_cache a\<rparr>"

inductive astep ::
  "('v, 's) Model \<Rightarrow> ('s \<Rightarrow> 's \<Rightarrow> bool) \<Rightarrow> 'v entry list \<Rightarrow> ('v, 's) asearch \<Rightarrow> ('v, 's) asearch \<Rightarrow> bool"
  for m :: "('v, 's) Model" and eq :: "'s \<Rightarrow> 's \<Rightarrow> bool" and es :: "'v entry list" where
  astep_reject: "a_post a = e # q \<Longrightarrow> e_kind e = callEntry \<Longrightarrow>
     step_op m es (a_state a) (e_id e) = None \<Longrightarrow> astep m eq es a (a_next a e q)"
| astep_seen: "a_post a = e # q \<Longrightarrow> e_kind e = callEntry \<Longrightarrow>
     step_op m es (a_state a) (e_id e) = Some s \<Longrightarrow>
     a_seen eq (a_cache a) (insert (e_id e) (frame_ids (a_frames a))) s \<Longrightarrow>
     astep m eq es a (a_next a e q)"
| astep_push: "a_post a = e # q \<Longrightarrow> e_kind e = callEntry \<Longrightarrow>
     step_op m es (a_state a) (e_id e) = Some s \<Longrightarrow>
     \<not> a_seen eq (a_cache a) (insert (e_id e) (frame_ids (a_frames a))) s \<Longrightarrow>
     astep m eq es a (a_push a e q s)"
| astep_pop: "a_post a = e # q \<Longrightarrow> e_kind e = returnEntry \<Longrightarrow> a_frames a = f # fs \<Longrightarrow>
     astep m eq es a (a_pop a f fs)"

section \<open>The invariant\<close>

text \<open>A scanned call is dead: no linearization continues the current path with it.\<close>

definition scanned :: "('v, 's) Model \<Rightarrow> 'v entry list \<Rightarrow> int set \<Rightarrow> 's \<Rightarrow> 'v entry list \<Rightarrow> bool" where
  "scanned m es L s pre \<longleftrightarrow>
     (\<forall>e \<in> set pre. e_kind e = callEntry \<and>
        (\<forall>s'. step_op m es s (e_id e) = Some s' \<longrightarrow> \<not> completable m es (insert (e_id e) L) s'))"

fun on_path :: "('v, 's) Model \<Rightarrow> 'v entry list \<Rightarrow>
    ('v, 's) frame list \<Rightarrow> 'v entry list \<Rightarrow> 'v entry list \<Rightarrow> 's \<Rightarrow> bool" where
  "on_path m es [] pre post s \<longleftrightarrow> s = m_Init m \<and> pre @ post = es \<and> scanned m es {} s pre"
| "on_path m es (f # fs) pre post s \<longleftrightarrow>
     on_path m es fs (f_pre f) (f_call f # f_post f) (f_state f) \<and>
     e_kind (f_call f) = callEntry \<and> step_op m es (f_state f) (e_id (f_call f)) = Some s \<and>
     pre @ post = filter (\<lambda>x. e_id x \<noteq> e_id (f_call f)) (f_pre f @ f_post f) \<and>
     scanned m es (frame_ids (f # fs)) s pre"

fun path_configs :: "('v, 's) frame list \<Rightarrow> 's \<Rightarrow> (int set \<times> 's) set" where
  "path_configs [] s = {}"
| "path_configs (f # fs) s = insert (frame_ids (f # fs), s) (path_configs fs (f_state f))"

definition a_inv :: "('v, 's) Model \<Rightarrow> 'v entry list \<Rightarrow> ('v, 's) asearch \<Rightarrow> bool" where
  "a_inv m es a \<longleftrightarrow>
     on_path m es (a_frames a) (a_pre a) (a_post a) (a_state a) \<and>
     (\<forall>(K, t) \<in> a_cache a. completable m es K t \<longrightarrow> (K, t) \<in> path_configs (a_frames a) (a_state a))"

lemma frame_ids_simps [simp]:
  "frame_ids [] = {}" "frame_ids (f # fs) = insert (e_id (f_call f)) (frame_ids fs)"
  by (simp_all add: frame_ids_def)

lemma frame_path_simps [simp]:
  "frame_path [] = []" "frame_path (f # fs) = frame_path fs @ [e_id (f_call f)]"
  by (simp_all add: frame_path_def)

lemma set_frame_path [simp]: "set (frame_path fs) = frame_ids fs"
  by (simp add: frame_path_def frame_ids_def)

lemma length_frame_path [simp]: "length (frame_path fs) = length fs"
  by (simp add: frame_path_def)

lemma scanned_Nil [simp]: "scanned m es L s []"
  by (simp add: scanned_def)

lemma on_path_scanned: "on_path m es fs pre post s \<Longrightarrow> scanned m es (frame_ids fs) s pre"
  by (cases fs) auto

lemma on_path_remaining:
  "on_path m es fs pre post s \<Longrightarrow> pre @ post = filter (\<lambda>x. e_id x \<notin> frame_ids fs) es"
proof (induction fs arbitrary: pre post s)
  case (Cons f fs)
  then have fs: "f_pre f @ f_call f # f_post f = filter (\<lambda>x. e_id x \<notin> frame_ids fs) es"
    using Cons.IH [of "f_pre f" "f_call f # f_post f" "f_state f"] by simp
  have "filter (\<lambda>x. e_id x \<notin> frame_ids (f # fs)) es =
      filter (\<lambda>x. e_id x \<noteq> e_id (f_call f)) (filter (\<lambda>x. e_id x \<notin> frame_ids fs) es)"
    by (simp add: conj_commute)
  also have "\<dots> = pre @ post"
    using Cons.prems by (simp flip: fs)
  finally show ?case by simp
qed simp

text \<open>The zipper moves one entry on.\<close>

lemma on_path_advance:
  assumes "on_path m es fs pre (e # q) s" "e_kind e = callEntry"
    "\<And>s'. step_op m es s (e_id e) = Some s' \<Longrightarrow> \<not> completable m es (insert (e_id e) (frame_ids fs)) s'"
  shows "on_path m es fs (pre @ [e]) q s"
  using assms by (cases fs) (auto simp: scanned_def)

lemma path_configs_smaller:
  assumes "(K, t) \<in> path_configs fs s"
  shows "K \<subseteq> frame_ids fs"
  using assms by (induction fs arbitrary: s) auto

section \<open>The path is a partial linearization\<close>

definition partial_linearization :: "('v, 's) Model \<Rightarrow> 'v entry list \<Rightarrow> int list \<Rightarrow> bool" where
  "partial_linearization m es p \<longleftrightarrow>
     distinct p \<and> set p \<subseteq> history_ids es \<and> sorted_wrt (\<lambda>a b. \<not> rt_before es b a) p \<and>
     (\<forall>c \<in> set p. \<forall>d \<in> history_ids es - set p. \<not> rt_before es d c) \<and>
     run_ops m es (m_Init m) p \<noteq> None"

text \<open>The call at the front of a scan is not linearized yet, and nothing still open precedes it.\<close>

lemma on_path_front:
  assumes wf: "wf_history es" and p: "on_path m es fs pre (e # q) s" and e: "e_kind e = callEntry"
  shows "e_id e \<in> history_ids es" "e_id e \<notin> frame_ids fs" "e \<in> set es"
    "\<And>d. d \<notin> frame_ids fs \<Longrightarrow> \<not> rt_before es d (e_id e)"
proof -
  note rem = on_path_remaining [OF p, symmetric]
  have "e \<in> set (filter (\<lambda>x. e_id x \<notin> frame_ids fs) es)"
    by (simp add: rem)
  then show "e \<in> set es" "e_id e \<notin> frame_ids fs" "e_id e \<in> history_ids es"
    using wf_historyD(3) [OF wf] by auto
  have "x \<in> set pre \<Longrightarrow> e_kind x = callEntry" for x
    using on_path_scanned [OF p] by (simp add: scanned_def)
  then show "\<not> rt_before es d (e_id e)" if "d \<notin> frame_ids fs" for d
    using scan_call_minimal [OF wf rem _ e that] by blast
qed

lemma on_path_partial:
  assumes wf: "wf_history es" and p: "on_path m es fs pre post s"
  shows "partial_linearization m es (frame_path fs) \<and> run_ops m es (m_Init m) (frame_path fs) = Some s"
  using p
proof (induction fs arbitrary: pre post s)
  case Nil
  then show ?case by (simp add: partial_linearization_def)
next
  case (Cons f fs)
  let ?c = "e_id (f_call f)"
  have pf: "on_path m es fs (f_pre f) (f_call f # f_post f) (f_state f)"
    and k: "e_kind (f_call f) = callEntry" and st: "step_op m es (f_state f) ?c = Some s"
    using Cons.prems by simp_all
  note front = on_path_front [OF wf pf k]
  have c: "?c \<notin> frame_ids fs" "\<forall>d. d \<notin> frame_ids fs \<longrightarrow> \<not> rt_before es d ?c" "?c \<in> history_ids es"
    using front by auto
  with Cons.IH [OF pf] st show ?case
    unfolding partial_linearization_def frame_path_simps
    by (auto simp: run_ops_append sorted_wrt_append)
qed

lemma on_path_length:
  assumes "wf_history es" "on_path m es fs pre post s"
  shows "card (frame_ids fs) = length fs" "length fs \<le> length es div 2"
proof -
  from on_path_partial [OF assms]
  have d: "distinct (frame_path fs)" and sub: "set (frame_path fs) \<subseteq> history_ids es"
    by (auto simp: partial_linearization_def)
  show c: "card (frame_ids fs) = length fs"
    using distinct_card [OF d] by simp
  have "card (set (frame_path fs)) \<le> card (history_ids es)"
    using sub by (intro card_mono) (auto simp: history_ids_def)
  then show "length fs \<le> length es div 2"
    using c by (simp add: history_ids_def card_image)
qed

section \<open>Dead ends\<close>

text \<open>A scan that meets a return, all calls before it dead, has shown the configuration dead.\<close>

lemma on_path_dead:
  assumes wf: "wf_history es" and p: "on_path m es fs pre (e # q) s" and e: "e_kind e = returnEntry"
  shows "\<not> completable m es (frame_ids fs) s"
proof
  assume c: "completable m es (frame_ids fs) s"
  note rem = on_path_remaining [OF p, symmetric]
  have "e \<in> set (filter (\<lambda>x. e_id x \<notin> frame_ids fs) es)"
    by (simp add: rem)
  then have "history_ids es - frame_ids fs \<noteq> {}"
    using wf_historyD(3) [OF wf] by auto
  with c obtain i s' where i: "i \<in> history_ids es" "i \<notin> frame_ids fs" "step_op m es s i = Some s'"
      "completable m es (insert i (frame_ids fs)) s'"
      "\<And>d. d \<in> history_ids es \<Longrightarrow> d \<notin> frame_ids fs \<Longrightarrow> d \<noteq> i \<Longrightarrow> \<not> rt_before es d i"
    by (rule completable_next) blast
  have "\<exists>x \<in> set pre. is_call i x"
    using i(5) rt_before_irrefl [OF wf] by (intro scan_return_bounds [OF wf rem e i(1,2)]) blast
  then show False
    using on_path_scanned [OF p] i(3,4) by (auto simp: scanned_def is_call_def)
qed

lemma a_inv_init: "a_inv m es (a_init m es)"
  by (simp add: a_inv_def a_init_def)


text \<open>A configuration with nothing left to scan has linearized every operation.\<close>

lemma on_path_complete:
  assumes wf: "wf_history es" and p: "on_path m es fs [] [] s"
  shows "linearizes m es (history_ids es) (m_Init m) (frame_path fs)"
proof -
  have "history_ids es \<subseteq> frame_ids fs"
  proof
    fix i assume "i \<in> history_ids es"
    then obtain c where "c \<in> set es" "is_call i c"
      using wf by (metis wf_history_entries)
    with on_path_remaining [OF p, symmetric] show "i \<in> frame_ids fs"
      by (auto simp: is_call_def filter_empty_conv)
  qed
  with on_path_partial [OF wf p] show ?thesis
    by (auto simp: partial_linearization_def linearizes_def)
qed

text \<open>The scan always meets the return of the calls before it.\<close>

lemma on_path_post:
  assumes wf: "wf_history es" and p: "on_path m es fs pre [] s"
  shows "pre = []"
proof (rule ccontr)
  assume "pre \<noteq> []"
  then obtain xs e where pre: "pre = xs @ [e]"
    by (metis rev_exhaust)
  have rem: "filter (\<lambda>x. e_id x \<notin> frame_ids fs) es = xs @ e # []"
    using on_path_remaining [OF p] pre by simp
  then have "e \<in> set (filter (\<lambda>x. e_id x \<notin> frame_ids fs) es)"
    by simp
  then have "e \<in> set es" "e_id e \<notin> frame_ids fs"
    by simp_all
  moreover have "e_kind e = callEntry"
    using on_path_scanned [OF p] pre by (simp add: scanned_def)
  ultimately show False
    using remaining_last_return [OF wf _ _ _ rem] by auto
qed

section \<open>Every step keeps the invariant\<close>

context porcupine_model
begin

lemma a_inv_next:
  assumes "wf_history es" and inv: "a_inv m es a" and a: "a_post a = e # q" "e_kind e = callEntry"
    and dead: "\<And>s'. step_op m es (a_state a) (e_id e) = Some s' \<Longrightarrow>
        \<not> completable m es (insert (e_id e) (frame_ids (a_frames a))) s'"
  shows "a_inv m es (a_next a e q)"
proof -
  have "on_path m es (a_frames a) (a_pre a @ [e]) q (a_state a)"
    using inv a(1) by (intro on_path_advance [OF _ a(2) dead]) (simp_all add: a_inv_def)
  with inv show ?thesis
    by (simp add: a_inv_def a_next_def)
qed

lemma a_inv_push:
  assumes "a_inv m es a" "a_post a = e # q" "e_kind e = callEntry"
    "step_op m es (a_state a) (e_id e) = Some s"
  shows "a_inv m es (a_push a e q s)"
proof -
  have "on_path m es (a_frames a) (a_pre a) (e # q) (a_state a)"
    using assms(1,2) by (simp add: a_inv_def)
  with assms(3,4)
  have "on_path m es (a_frames (a_push a e q s)) (a_pre (a_push a e q s))
      (a_post (a_push a e q s)) (a_state (a_push a e q s))"
    by (simp add: a_push_def)
  moreover have "(K, t) \<in> path_configs (a_frames (a_push a e q s)) (a_state (a_push a e q s))"
    if "(K, t) \<in> a_cache (a_push a e q s)" "completable m es K t" for K t
    using that assms(1) by (auto simp: a_inv_def a_push_def)
  ultimately show ?thesis
    unfolding a_inv_def by blast
qed

lemma a_inv_pop:
  assumes wf: "wf_history es" and inv: "a_inv m es a"
    and a: "a_post a = e # q" "e_kind e = returnEntry" "a_frames a = f # fs"
  shows "a_inv m es (a_pop a f fs)"
proof -
  have p: "on_path m es (f # fs) (a_pre a) (e # q) (a_state a)"
    using inv a by (simp add: a_inv_def)
  from on_path_dead [OF wf this a(2)]
  have dead: "\<not> completable m es (frame_ids (f # fs)) (a_state a)" .
  have "on_path m es fs (f_pre f @ [f_call f]) (f_post f) (f_state f)"
    using p dead by (intro on_path_advance) auto
  moreover have "(K, t) \<in> path_configs fs (f_state f)"
    if "(K, t) \<in> a_cache a" "completable m es K t" for K t
  proof -
    from that inv have "(K, t) \<in> path_configs (f # fs) (a_state a)"
      unfolding a_inv_def a(3) by blast
    with dead that(2) show ?thesis by auto
  qed
  ultimately show ?thesis
    unfolding a_inv_def a_pop_def by auto
qed

lemma a_seen_dead:
  assumes wf: "wf_history es" and inv: "a_inv m es a" and a: "a_post a = e # q" "e_kind e = callEntry"
    and seen: "a_seen eq (a_cache a) (insert (e_id e) (frame_ids (a_frames a))) s"
  shows "\<not> completable m es (insert (e_id e) (frame_ids (a_frames a))) s"
proof
  let ?K = "insert (e_id e) (frame_ids (a_frames a))"
  have p: "on_path m es (a_frames a) (a_pre a) (e # q) (a_state a)"
    using inv a by (simp add: a_inv_def)
  from seen obtain t where t: "(?K, t) \<in> a_cache a" "eq s t"
    by (auto simp: a_seen_def)
  assume "completable m es ?K s"
  then have "completable m es ?K t"
    by (rule completable_eq [OF t(2)])
  with t(1) inv have "(?K, t) \<in> path_configs (a_frames a) (a_state a)"
    unfolding a_inv_def by blast
  from path_configs_smaller [OF this] on_path_front(2) [OF wf p a(2)] show False by simp
qed

lemma a_inv_astep:
  assumes step: "astep m eq es a b" and wf: "wf_history es" and inv: "a_inv m es a"
  shows "a_inv m es b"
  using step
proof cases
  case (astep_reject e q)
  then show ?thesis
    unfolding astep_reject(1) by (intro a_inv_next [OF wf inv]) simp_all
next
  case (astep_seen e q s)
  with a_seen_dead [OF wf inv astep_seen(2,3,5)] show ?thesis
    unfolding astep_seen(1) by (intro a_inv_next [OF wf inv]) simp_all
next
  case (astep_push e q s)
  then show ?thesis
    using a_inv_push [OF inv] by blast
next
  case (astep_pop e q f fs)
  then show ?thesis
    using a_inv_pop [OF wf inv] by blast
qed

end

section \<open>The search ends\<close>

text \<open>\<open>branch_cost N d\<close> bounds the steps one entry can cost when \<open>d\<close> operations are still to be
  linearized in a history of \<open>N\<close> entries.\<close>

fun branch_cost :: "nat \<Rightarrow> nat \<Rightarrow> nat" where
  "branch_cost N 0 = 1"
| "branch_cost N (Suc d) = 2 + N * branch_cost N d"

fun frames_cost :: "nat \<Rightarrow> ('v, 's) frame list \<Rightarrow> nat" where
  "frames_cost N [] = 0"
| "frames_cost N (f # fs) =
     length (f_post f) * branch_cost N (N div 2 - length fs) + frames_cost N fs"

definition a_cost :: "nat \<Rightarrow> ('v, 's) asearch \<Rightarrow> nat" where
  "a_cost N a =
     length (a_post a) * branch_cost N (N div 2 - length (a_frames a)) + frames_cost N (a_frames a)"

lemma branch_cost_pos [simp]: "0 < branch_cost N d"
  by (cases d) auto

lemma astep_decreases:
  assumes step: "astep m eq es a b" and wf: "wf_history es" and inv: "a_inv m es a" "a_inv m es b"
  shows "a_cost (length es) b < a_cost (length es) a"
  using step
proof cases
  case (astep_push e q s)
  let ?N = "length es" and ?k = "length (a_frames a)"
  have b: "on_path m es (a_frames b) (a_pre b) (a_post b) (a_state b)"
    using inv(2) by (simp add: a_inv_def)
  have "Suc ?k \<le> ?N div 2"
    using on_path_length(2) [OF wf b] astep_push(1) by (simp add: a_push_def)
  then have d: "?N div 2 - ?k = Suc (?N div 2 - Suc ?k)"
    by simp
  define C where "C = branch_cost ?N (?N div 2 - Suc ?k)"
  define F where "F = frames_cost ?N (a_frames a)"
  have "length (a_post b) \<le> ?N"
    using on_path_remaining [OF b] by (metis length_append length_filter_le le_add2 order_trans)
  then have le: "length (a_post b) * C \<le> ?N * C"
    by (rule mult_le_mono1)
  have "a_cost ?N a = 2 + ?N * C + (length q * (2 + ?N * C) + F)"
    using astep_push(2) by (simp add: a_cost_def d C_def F_def)
  moreover have "a_cost ?N b = length (a_post b) * C + (length q * (2 + ?N * C) + F)"
    using astep_push(1) by (simp add: a_cost_def a_push_def d C_def F_def)
  ultimately show ?thesis
    using le by linarith
next
  case (astep_pop e q f fs)
  have "0 < length (a_post a) * branch_cost (length es) (length es div 2 - length (a_frames a))"
    using astep_pop(2) by simp
  then show ?thesis
    unfolding a_cost_def astep_pop(1,4) by (simp add: a_pop_def)
qed (simp_all add: a_cost_def a_next_def)

end
