(* ===== verification/CheckSingleCorrect.thy ===== *)
theory CheckSingleCorrect
  imports CheckSingle SearchSpec
begin

text \<open>
  The linked list, the bitset and the hash table of \<open>checkSingle\<close> implement the search of theory
  \<open>SearchSpec\<close>: \<open>sim\<close> relates a state of the loop to a configuration of the search, and every turn of
  the loop is a step of it. The results on the search carry over: \<open>checkSingle\<close> ends, does not panic,
  and answers whether the history is linearizable.
\<close>

section \<open>Nodes of entries\<close>

definition pos_of :: "'v entry list \<Rightarrow> 'v entry \<Rightarrow> nat" where
  "pos_of es e = length (takeWhile (\<lambda>x. x \<noteq> e) es)"

text \<open>\<open>makeLinkedEntries\<close> allocates from the last entry to the first; the head node comes after them.\<close>

definition addr :: "'v entry list \<Rightarrow> 'v entry \<Rightarrow> nat" where
  "addr es e = length es - 1 - pos_of es e"

definition entry_node :: "'v entry list \<Rightarrow> 'v node \<Rightarrow> 'v entry \<Rightarrow> bool" where
  "entry_node es nd e \<longleftrightarrow>
     n_value nd = Some (e_value e) \<and> n_id nd = e_id e \<and>
     (if e_kind e = callEntry
      then \<exists>r \<in> set es. is_return (e_id e) r \<and> n_match nd = Some (addr es r)
      else n_match nd = None)"

definition heap_payload :: "'v entry list \<Rightarrow> 'v heap \<Rightarrow> bool" where
  "heap_payload es h \<longleftrightarrow>
     length h = Suc (length es) \<and> (\<forall>e \<in> set es. entry_node es (h ! addr es e) e)"

lemma pos_of_nth:
  assumes "distinct es" "k < length es"
  shows "pos_of es (es ! k) = k"
proof -
  have "takeWhile (\<lambda>x. x \<noteq> es ! k) es = take k es"
    using assms by (intro takeWhile_eq_take_P_nth) (auto simp: nth_eq_iff_index_eq)
  with assms show ?thesis
    by (simp add: pos_of_def)
qed

lemma addr_nth: "distinct es \<Longrightarrow> k < length es \<Longrightarrow> addr es (es ! k) = length es - 1 - k"
  by (simp add: addr_def pos_of_nth)

lemma addr_bound: "e \<in> set es \<Longrightarrow> addr es e < length es"
  by (auto simp: addr_def dest: length_pos_if_in_set)

lemma map_addr: "distinct es \<Longrightarrow> map (addr es) es = rev [0..<length es]"
  by (intro nth_equalityI) (auto simp: addr_nth rev_nth)

lemma payload_cong:
  assumes "map payload h' = map payload h" "a < length h"
  shows "n_value (h' ! a) = n_value (h ! a)" "n_match (h' ! a) = n_match (h ! a)"
    "n_id (h' ! a) = n_id (h ! a)"
proof -
  have "length h' = length h"
    using assms(1) by (metis length_map)
  then have "payload (h' ! a) = payload (h ! a)"
    using assms by (metis nth_map)
  then show "n_value (h' ! a) = n_value (h ! a)" "n_match (h' ! a) = n_match (h ! a)"
    "n_id (h' ! a) = n_id (h ! a)"
    by (simp_all add: payload_def)
qed

lemma heap_payload_cong:
  assumes "map payload h' = map payload h" "heap_payload es h"
  shows "heap_payload es h'"
proof -
  have "length h' = length h"
    using assms(1) by (metis length_map)
  moreover have "entry_node es (h' ! addr es e) e" if "e \<in> set es" for e
    using that assms(2) payload_cong [OF assms(1), of "addr es e"] addr_bound [OF that]
    by (simp add: heap_payload_def entry_node_def)
  ultimately show ?thesis
    using assms(2) by (simp add: heap_payload_def)
qed

lemma heap_payload_load:
  assumes "heap_payload es h" "e \<in> set es"
  shows "load h (Some (addr es e)) = Some (h ! addr es e)" "entry_node es (h ! addr es e) e"
  using assms addr_bound [OF assms(2)] by (simp_all add: heap_payload_def)

lemma dll_next:
  assumes "dll h (xs @ y # ys)"
  shows "y < length h" "n_next (h ! y) = first_of ys None"
  using assms by (auto simp: dll_def dseg_append)

section \<open>The simulation relation\<close>

fun heap_ok :: "'v entry list \<Rightarrow> 'v heap \<Rightarrow> ('v, 's) frame list \<Rightarrow> 'v entry list \<Rightarrow> bool" where
  "heap_ok es h [] rem \<longleftrightarrow> dll h (length es # map (addr es) rem) \<and> heap_payload es h"
| "heap_ok es h (f # fs) rem \<longleftrightarrow>
     dll h (length es # map (addr es) rem) \<and> heap_payload es h \<and>
     (\<exists>h'. unlift h (Some (addr es (f_call f))) = Some h' \<and>
           heap_ok es h' fs (f_pre f @ f_call f # f_post f))"

definition cache_ok :: "nat \<Rightarrow> (int set \<times> 's) set \<Rightarrow> 's cache \<Rightarrow> bool" where
  "cache_ok K C cache \<longleftrightarrow>
     (\<forall>hs ce. ce \<in> set (cache hs) \<longrightarrow>
        bitset_hash (ce_linearized ce) = hs \<and> bitset_cap (ce_linearized ce) = K) \<and>
     C = {(int ` bits_of (ce_linearized ce), ce_state ce) |hs ce. ce \<in> set (cache hs)}"

definition longest_ok :: "('v, 's) Model \<Rightarrow> 'v entry list \<Rightarrow> longest \<Rightarrow> bool" where
  "longest_ok m es lg \<longleftrightarrow>
     length lg = length es div 2 \<and>
     (\<forall>i < length lg. \<forall>r seq. lg ! i = Some (r, seq) \<longrightarrow>
        partial_linearization m es seq \<and> int i \<in> set seq)"

definition frame_call :: "'v entry list \<Rightarrow> ('v, 's) frame \<Rightarrow> 's callsEntry" where
  "frame_call es f = \<lparr>c_entry = Some (addr es (f_call f)), c_state = f_state f\<rparr>"

definition sim :: "('v, 's) Model \<Rightarrow> 'v entry list \<Rightarrow> ('v, 's) asearch \<Rightarrow> ('v, 's) search \<Rightarrow> bool" where
  "sim m es a st \<longleftrightarrow>
     heap_ok es (s_heap st) (a_frames a) (a_pre a @ a_post a) \<and>
     s_entry st = first_of (map (addr es) (a_post a)) None \<and>
     s_state st = a_state a \<and>
     length es div 2 \<le> bitset_cap (s_linearized st) \<and>
     int ` bits_of (s_linearized st) = frame_ids (a_frames a) \<and>
     cache_ok (bitset_cap (s_linearized st)) (a_cache a) (s_cache st) \<and>
     s_calls st = map (frame_call es) (rev (a_frames a)) \<and>
     longest_ok m es (s_longest st)"

lemma heap_okD:
  "heap_ok es h fs rem \<Longrightarrow> dll h (length es # map (addr es) rem) \<and> heap_payload es h"
  by (cases fs) auto

lemma frame_call_simps [simp]:
  "c_entry (frame_call es f) = Some (addr es (f_call f))" "c_state (frame_call es f) = f_state f"
  by (simp_all add: frame_call_def)

section \<open>The bitset and the cache\<close>

lemma id_position:
  assumes "wf_history es" "i \<in> history_ids es" "length es div 2 \<le> bitset_cap b"
  shows "unat (of_int i :: uint64) = nat i" "0 \<le> i" "nat i < length es div 2" "nat i < bitset_cap b"
proof -
  show i: "0 \<le> i" "nat i < length es div 2" "nat i < bitset_cap b"
    using assms by (auto simp: history_ids_def)
  have "int (length es) < 2 ^ 63"
    using wf_historyD(1) [OF assms(1)] by simp
  moreover have "i < int (length es)"
    using i(1,2) by linarith
  ultimately have "i < 2 ^ 64"
    by simp
  with i show "unat (of_int i :: uint64) = nat i"
    by (intro unat_of_int_u64) auto
qed

lemma bitset_set_id:
  assumes "wf_history es" "i \<in> history_ids es" "length es div 2 \<le> bitset_cap b"
  obtains b' where "bitset_set b (of_int i) = Some b'" "bitset_cap b' = bitset_cap b"
    "int ` bits_of b' = insert i (int ` bits_of b)"
  using bs.ins_ok [of "of_int i" b] id_position [OF assms] that by auto

lemma bitset_clear_id:
  assumes "wf_history es" "i \<in> history_ids es" "length es div 2 \<le> bitset_cap b"
  obtains b' where "bitset_clear b (of_int i) = Some b'" "bitset_cap b' = bitset_cap b"
    "int ` bits_of b' = int ` bits_of b - {i}"
  using bs.del_ok [of "of_int i" b] id_position [OF assms] that
  by (auto simp: image_set_diff [OF inj_of_nat])

lemma cacheContains_loop_spec:
  assumes "m_Equal m = Some eq"
  shows "cacheContains_loop m e elems =
    Some (\<exists>x \<in> set elems. bitset_equals (ce_linearized e) (ce_linearized x) \<and> eq (ce_state e) (ce_state x))"
  using assms by (induction elems) auto

lemma cacheContains_spec:
  assumes eq: "m_Equal m = Some eq" and c: "cache_ok (bitset_cap b) C cache"
  shows "cacheContains m cache \<lparr>ce_linearized = b, ce_state = s\<rparr> = Some (a_seen eq C (int ` bits_of b) s)"
proof -
  have C: "C = {(int ` bits_of (ce_linearized x), ce_state x) |hs x. x \<in> set (cache hs)}"
    and cap: "\<And>x hs. x \<in> set (cache hs) \<Longrightarrow>
        bitset_hash (ce_linearized x) = hs \<and> bitset_cap (ce_linearized x) = bitset_cap b"
    using c by (auto simp: cache_ok_def)
  have iff: "int ` bits_of b = int ` bits_of (ce_linearized x) \<longleftrightarrow> bitset_equals b (ce_linearized x)"
    if "x \<in> set (cache hs)" for x hs
    using cap [OF that] bs.eq_iff [of b "ce_linearized x"] by (simp add: inj_image_eq_iff)
  have bucket: "bitset_equals b (ce_linearized x) \<Longrightarrow> x \<in> set (cache hs) \<Longrightarrow> hs = bitset_hash b" for x hs
    using cap [of x hs] bs.hash_cong [of b "ce_linearized x"] by simp
  have "a_seen eq C (int ` bits_of b) s \<longleftrightarrow>
      (\<exists>hs. \<exists>x \<in> set (cache hs). int ` bits_of b = int ` bits_of (ce_linearized x) \<and> eq s (ce_state x))"
    unfolding a_seen_def C by blast
  also have "\<dots> \<longleftrightarrow>
      (\<exists>x \<in> set (cache (bitset_hash b)). bitset_equals b (ce_linearized x) \<and> eq s (ce_state x))"
    using iff bucket by metis
  finally show ?thesis
    by (simp add: cacheContains_def cacheContains_loop_spec [OF eq])
qed

lemma cache_ok_insert:
  assumes "cache_ok (bitset_cap b) C cache"
  shows "cache_ok (bitset_cap b) (insert (int ` bits_of b, s) C)
    (cache(bitset_hash b := cache (bitset_hash b) @ [\<lparr>ce_linearized = b, ce_state = s\<rparr>]))"
proof -
  let ?ce = "\<lparr>ce_linearized = b, ce_state = s\<rparr>"
  let ?cache = "cache(bitset_hash b := cache (bitset_hash b) @ [?ce])"
  have mem: "x \<in> set (?cache hs) \<longleftrightarrow> x \<in> set (cache hs) \<or> hs = bitset_hash b \<and> x = ?ce" for x hs
    by auto
  from assms have C: "C = {(int ` bits_of (ce_linearized ce), ce_state ce) |hs ce. ce \<in> set (cache hs)}"
    by (simp add: cache_ok_def)
  have "insert (int ` bits_of b, s) C =
      {(int ` bits_of (ce_linearized ce), ce_state ce) |hs ce. ce \<in> set (?cache hs)}"
    unfolding mem C by force
  moreover have "\<forall>hs ce. ce \<in> set (?cache hs) \<longrightarrow>
      bitset_hash (ce_linearized ce) = hs \<and> bitset_cap (ce_linearized ce) = bitset_cap b"
    unfolding mem using assms by (auto simp: cache_ok_def)
  ultimately show ?thesis
    unfolding cache_ok_def by blast
qed

section \<open>The longest partial linearizations\<close>

lemma call_ids_frames:
  assumes "heap_payload es h" "\<And>f. f \<in> set fs \<Longrightarrow> f_call f \<in> set es"
  shows "call_ids h (map (frame_call es) fs) = Some (map (\<lambda>f. e_id (f_call f)) fs)"
  using assms heap_payload_load [OF assms(1)] by (induction fs) (auto simp: entry_node_def)

lemma longest_loop_ok:
  assumes h: "heap_payload es h" and wf: "wf_history es"
    and p: "partial_linearization m es seq"
    and fs: "\<And>f. f \<in> set fs \<Longrightarrow> f_call f \<in> set es \<and> e_id (f_call f) \<in> set seq"
    and lg: "longest_ok m es lg"
  shows "\<exists>lg'. longest_loop h ref seq lg (map (frame_call es) fs) = Some lg' \<and> longest_ok m es lg'"
  using fs lg
proof (induction fs arbitrary: lg)
  case (Cons f fs)
  let ?i = "e_id (f_call f)"
  have f: "f_call f \<in> set es" "?i \<in> set seq"
    using Cons.prems(1) by auto
  have i: "0 \<le> ?i" "nat ?i < length lg"
    using wf_historyD(3) [OF wf f(1)] Cons.prems(2) by (auto simp: history_ids_def longest_ok_def)
  have nd: "load h (Some (addr es (f_call f))) = Some (h ! addr es (f_call f))"
    "n_id (h ! addr es (f_call f)) = ?i"
    using heap_payload_load [OF h f(1)] by (simp_all add: entry_node_def)
  have "longest_ok m es (lg[nat ?i := Some (ref, seq)])"
    using Cons.prems(2) p f(2) i by (auto simp: longest_ok_def nth_list_update)
  with Cons.IH Cons.prems nd i show ?case
    by (auto simp: int_get_def int_set_def)
qed simp

section \<open>The turns of the loop\<close>

definition steps_defined :: "('v, 's) Model \<Rightarrow> 'v entry list \<Rightarrow> bool" where
  "steps_defined m es \<longleftrightarrow>
     (\<forall>i s a b. call_value es i = Some a \<longrightarrow> return_value es i = Some b \<longrightarrow> m_Step m s a b \<noteq> None)"

lemma sim_ticks [simp]: "sim m es a (st\<lparr>s_ticks := t\<rparr>) = sim m es a st"
  by (simp add: sim_def)

lemma sim_on_path: "a_inv m es a \<Longrightarrow> on_path m es (a_frames a) (a_pre a) (a_post a) (a_state a)"
  by (simp add: a_inv_def)

text \<open>A call in the remaining entries, its return, and the entries left when both are taken out.\<close>

lemma call_and_return:
  assumes wf: "wf_history es" and rem: "filter (\<lambda>x. e_id x \<notin> L) es = pre @ e # q"
    and e: "e_kind e = callEntry"
  obtains bs r cs where "q = bs @ r # cs" "r \<in> set es" "is_return (e_id e) r"
    "filter (\<lambda>x. e_id x \<noteq> e_id e) (pre @ q) = pre @ bs @ cs"
    "call_value es (e_id e) = Some (e_value e)" "return_value es (e_id e) = Some (e_value r)"
proof -
  have "e \<in> set (filter (\<lambda>x. e_id x \<notin> L) es)"
    by (simp add: rem)
  then have ee: "e \<in> set es" "e_id e \<notin> L"
    by simp_all
  obtain r where r: "r \<in> set q" "is_return (e_id e) r"
    using remaining_last_return [OF wf ee e rem] by blast
  then obtain bs cs where q: "q = bs @ r # cs"
    by (meson split_list)
  have "set (pre @ e # q) \<subseteq> set es"
    by (simp flip: rem)
  then have es: "set pre \<subseteq> set es" "set bs \<subseteq> set es" "set cs \<subseteq> set es" "r \<in> set es"
    using q by auto
  have "distinct (pre @ e # bs @ r # cs)"
    using wf_history_distinct [OF wf] rem q by (metis distinct_filter)
  then have d: "x \<noteq> e \<and> x \<noteq> r" if "x \<in> set (pre @ bs @ cs)" for x
    using that by auto
  have "e_id x \<noteq> e_id e" if "x \<in> set (pre @ bs @ cs)" for x
  proof
    assume "e_id x = e_id e"
    moreover have "x \<in> set es"
      using that es by auto
    ultimately have "x = e \<or> x = r"
      using wf_history_key [OF wf, of x e] wf_history_key [OF wf, of x r] ee(1) e es(4) r(2)
      by (cases "e_kind x") (auto simp: is_return_def)
    with d [OF that] show False by blast
  qed
  then have "filter (\<lambda>x. e_id x \<noteq> e_id e) (pre @ bs @ cs) = pre @ bs @ cs"
    by (simp add: filter_id_conv)
  moreover have "e_id r = e_id e"
    using r by (simp add: is_return_def)
  ultimately have "filter (\<lambda>x. e_id x \<noteq> e_id e) (pre @ q) = pre @ bs @ cs"
    using q by simp
  moreover obtain c' r' where "c' \<in> set es" "is_call (e_id e) c'" "r' \<in> set es" "is_return (e_id e) r'"
      "call_value es (e_id e) = Some (e_value c')" "return_value es (e_id e) = Some (e_value r')"
    using wf wf_historyD(3) [OF wf ee(1)] by (rule wf_history_entries)
  moreover from this have "c' = e" "r' = r"
    using wf_history_key [OF wf, of c' e] wf_history_key [OF wf, of r' r] ee e r es(4)
    by (simp_all add: is_call_def is_return_def)
  ultimately show thesis
    using that q r es(4) by blast
qed

lemma entry_node_return:
  assumes "wf_history es" "entry_node es nd e" "e_kind e = callEntry" "r \<in> set es" "is_return (e_id e) r"
  shows "n_match nd = Some (addr es r)"
proof -
  from assms(2,3) obtain r' where "r' \<in> set es" "is_return (e_id e) r'" "n_match nd = Some (addr es r')"
    by (auto simp: entry_node_def)
  moreover have "r' = r"
    using wf_history_key [OF assms(1), of r' r] calculation assms(4,5) by (simp add: is_return_def)
  ultimately show ?thesis by simp
qed

lemma heap_ok_lift:
  assumes wf: "wf_history es" and h: "heap_ok es h fs (pre @ e # q)"
    and rem: "filter (\<lambda>x. e_id x \<notin> L) es = pre @ e # q" and e: "e_kind e = callEntry"
  obtains h' where "lift h (Some (addr es e)) = Some h'"
    "heap_ok es h' (\<lparr>f_pre = pre, f_call = e, f_post = q, f_state = s\<rparr> # fs)
       (filter (\<lambda>x. e_id x \<noteq> e_id e) (pre @ q))"
proof -
  obtain bs r cs where q: "q = bs @ r # cs" and r: "r \<in> set es" "is_return (e_id e) r"
    and rest: "filter (\<lambda>x. e_id x \<noteq> e_id e) (pre @ q) = pre @ bs @ cs"
    using wf rem e by (rule call_and_return)
  have "e \<in> set (filter (\<lambda>x. e_id x \<notin> L) es)"
    by (simp add: rem)
  then have ee: "e \<in> set es" by simp
  have hp: "heap_payload es h" and dl: "dll h (length es # map (addr es) (pre @ e # q))"
    using heap_okD [OF h] by auto
  have mt: "n_match (h ! addr es e) = Some (addr es r)"
    using entry_node_return [OF wf heap_payload_load(2) [OF hp ee] e r] .
  obtain as p where ap: "length es # map (addr es) pre = as @ [p]"
    by (metis list.distinct(1) rev_exhaust)
  have "dll h (as @ p # addr es e # map (addr es) bs @ addr es r # map (addr es) cs)"
    using dl q ap by (simp flip: append_Cons) (metis append.assoc append_Cons append_Nil)
  then obtain h' where h': "lift h (Some (addr es e)) = Some h'" "unlift h' (Some (addr es e)) = Some h"
      "dll h' (as @ p # map (addr es) bs @ map (addr es) cs)" "map payload h' = map payload h"
    using mt by (rule lift_unlift)
  have "as @ p # map (addr es) bs @ map (addr es) cs = length es # map (addr es) (pre @ bs @ cs)"
    using ap by (simp flip: append_Cons)
  then have "dll h' (length es # map (addr es) (pre @ bs @ cs))"
    using h'(3) by (metis (no_types))
  then have "heap_ok es h' (\<lparr>f_pre = pre, f_call = e, f_post = q, f_state = s\<rparr> # fs) (pre @ bs @ cs)"
    using h h' heap_payload_cong [OF h'(4) hp] by simp
  with h'(1) rest that show thesis by simp
qed

lemma sim_next_entry:
  assumes sim: "sim m es a st" and a: "a_post a = e # q"
  shows "n_next (s_heap st ! addr es e) = first_of (map (addr es) q) None"
    "sim m es (a_next a e q) (st\<lparr>s_entry := n_next (s_heap st ! addr es e)\<rparr>)"
proof -
  have "dll (s_heap st) ((length es # map (addr es) (a_pre a)) @ addr es e # map (addr es) q)"
    using sim a heap_okD by (fastforce simp: sim_def)
  then show n: "n_next (s_heap st ! addr es e) = first_of (map (addr es) q) None"
    by (rule dll_next)
  show "sim m es (a_next a e q) (st\<lparr>s_entry := n_next (s_heap st ! addr es e)\<rparr>)"
    using sim a unfolding n by (simp add: sim_def a_next_def)
qed

lemma head_next:
  assumes "heap_ok es h fs rem"
  shows "load h (Some (length es)) = Some (h ! length es)"
    "n_next (h ! length es) = first_of (map (addr es) rem) None"
  using dll_next [of h "[]" "length es" "map (addr es) rem"] heap_okD [OF assms] by auto

context porcupine_model
begin

lemma sim_push:
  assumes wf: "wf_history es" and inv: "a_inv m es a" and sim: "sim m es a st"
    and a: "a_post a = e # q" and e: "e_kind e = callEntry"
    and h': "lift (s_heap st) (Some (addr es e)) = Some h'"
      "heap_ok es h' (\<lparr>f_pre = a_pre a, f_call = e, f_post = q, f_state = a_state a\<rparr> # a_frames a)
         (filter (\<lambda>x. e_id x \<noteq> e_id e) (a_pre a @ q))"
    and b: "bitset_cap b = bitset_cap (s_linearized st)"
      "int ` bits_of b = insert (e_id e) (int ` bits_of (s_linearized st))"
  shows "sim m es (a_push a e q s)
    (st\<lparr>s_heap := h', s_entry := n_next (h' ! length es), s_state := s, s_linearized := b,
        s_cache := (s_cache st)(bitset_hash b :=
          s_cache st (bitset_hash b) @ [\<lparr>ce_linearized = b, ce_state = s\<rparr>]),
        s_calls := s_calls st @ [\<lparr>c_entry = s_entry st, c_state = s_state st\<rparr>]\<rparr>)"
proof -
  have "cache_ok (bitset_cap b) (insert (int ` bits_of b, s) (a_cache a))
      ((s_cache st)(bitset_hash b := s_cache st (bitset_hash b) @ [\<lparr>ce_linearized = b, ce_state = s\<rparr>]))"
    using sim b(1) by (intro cache_ok_insert) (simp add: sim_def)
  then show ?thesis
    using sim a b h'(2) head_next(2) [OF h'(2)]
    by (simp add: sim_def a_push_def frame_call_def)
qed

lemma sim_call:
  assumes wf: "wf_history es" and inv: "a_inv m es a" and sim: "sim m es a st"
    and a: "a_post a = e # q" and e: "e_kind e = callEntry" and defd: "steps_defined m es"
  shows "\<exists>st' b. checkSingle_call m (Some (length es)) st (s_heap st ! addr es e) = Some st' \<and>
    astep m eq es a b \<and> sim m es b st'"
proof -
  let ?h = "s_heap st" and ?s = "s_state st"
  have p: "on_path m es (a_frames a) (a_pre a) (e # q) (a_state a)"
    using sim_on_path [OF inv] a by simp
  note rem = on_path_remaining [OF p, symmetric] and front = on_path_front [OF wf p e]
  obtain bs r cs where r: "q = bs @ r # cs" "r \<in> set es" "is_return (e_id e) r"
    and vals: "call_value es (e_id e) = Some (e_value e)" "return_value es (e_id e) = Some (e_value r)"
    using wf rem e by (rule call_and_return)
  have h: "heap_ok es ?h (a_frames a) (a_pre a @ e # q)" and hp: "heap_payload es ?h"
    and st: "s_state st = a_state a" "s_entry st = Some (addr es e)"
    using sim a heap_okD by (fastforce simp: sim_def)+
  note nd = heap_payload_load [OF hp front(3)] and ndr = heap_payload_load [OF hp r(2)]
  have mt: "n_match (?h ! addr es e) = Some (addr es r)"
    by (rule entry_node_return [OF wf nd(2) e r(2,3)])
  have f: "n_value (?h ! addr es e) = Some (e_value e)" "n_id (?h ! addr es e) = e_id e"
    "n_value (?h ! addr es r) = Some (e_value r)"
    using nd ndr by (simp_all add: entry_node_def)
  obtain ok s' where step: "m_Step m ?s (e_value e) (e_value r) = Some (ok, s')"
    using defd vals by (fastforce simp: steps_defined_def)
  note next_entry = sim_next_entry [OF sim a]
  show ?thesis
  proof (cases ok)
    case False
    then have "astep m eq es a (a_next a e q)"
      using step vals st by (intro astep_reject [OF a e]) (simp add: step_op_def)
    moreover have "checkSingle_call m (Some (length es)) st (?h ! addr es e) =
        Some (st\<lparr>s_entry := n_next (?h ! addr es e)\<rparr>)"
      using False step by (simp add: checkSingle_call_def mt f ndr(1))
    ultimately show ?thesis
      using next_entry(2) by blast
  next
    case True
    have s': "step_op m es (a_state a) (e_id e) = Some s'"
      using True step vals st by (simp add: step_op_def)
    obtain b where b: "bitset_set (s_linearized st) (of_int (e_id e)) = Some b"
        "bitset_cap b = bitset_cap (s_linearized st)"
        "int ` bits_of b = insert (e_id e) (int ` bits_of (s_linearized st))"
      using wf front(1) sim by (auto simp: sim_def elim: bitset_set_id)
    have "cacheContains m (s_cache st) \<lparr>ce_linearized = b, ce_state = s'\<rparr> =
        Some (a_seen eq (a_cache a) (int ` bits_of b) s')"
      using sim b(2) by (intro cacheContains_spec [OF Equal_set]) (simp add: sim_def)
    then have seen: "cacheContains m (s_cache st) \<lparr>ce_linearized = b, ce_state = s'\<rparr> =
        Some (a_seen eq (a_cache a) (insert (e_id e) (frame_ids (a_frames a))) s')"
      using sim b(3) by (simp add: sim_def)
    show ?thesis
    proof (cases "a_seen eq (a_cache a) (insert (e_id e) (frame_ids (a_frames a))) s'")
      case seenT: True
      have "checkSingle_call m (Some (length es)) st (?h ! addr es e) =
          Some (st\<lparr>s_entry := n_next (?h ! addr es e)\<rparr>)"
        using True step seen seenT b(1) by (simp add: checkSingle_call_def mt f ndr(1))
      then show ?thesis
        using next_entry(2) astep_seen [OF a e s' seenT] by blast
    next
      case fresh: False
      obtain h' where h': "lift ?h (Some (addr es e)) = Some h'"
          "heap_ok es h' (\<lparr>f_pre = a_pre a, f_call = e, f_post = q, f_state = a_state a\<rparr> # a_frames a)
            (filter (\<lambda>x. e_id x \<noteq> e_id e) (a_pre a @ q))"
        using wf h rem e by (rule heap_ok_lift)
      have "checkSingle_call m (Some (length es)) st (?h ! addr es e) =
        Some (st\<lparr>s_heap := h', s_entry := n_next (h' ! length es), s_state := s', s_linearized := b,
          s_cache := (s_cache st)(bitset_hash b :=
            s_cache st (bitset_hash b) @ [\<lparr>ce_linearized = b, ce_state = s'\<rparr>]),
          s_calls := s_calls st @ [\<lparr>c_entry = s_entry st, c_state = s_state st\<rparr>]\<rparr>)"
        using True step seen fresh b(1) h'(1) head_next(1) [OF h'(2)] st(2)
        by (simp add: checkSingle_call_def mt f ndr(1) Let_def)
      then show ?thesis
        using sim_push [OF wf inv sim a e h' b(2,3)] astep_push [OF a e s' fresh] by blast
    qed
  qed
qed

end

lemma on_path_calls:
  assumes "on_path m es fs pre post s" "f \<in> set fs"
  shows "f_call f \<in> set es"
  using assms
proof (induction fs arbitrary: pre post s)
  case (Cons g fs)
  then have g: "on_path m es fs (f_pre g) (f_call g # f_post g) (f_state g)"
    by simp
  have "f_call g \<in> set (filter (\<lambda>x. e_id x \<notin> frame_ids fs) es)"
    by (simp flip: on_path_remaining [OF g])
  with Cons.IH [OF g] Cons.prems(2) show ?case
    by auto
qed simp

lemma update_longest_ok:
  assumes wf: "wf_history es" and inv: "a_inv m es a" and sim: "sim m es a st"
  shows "\<exists>lg. update_longest cp st = Some lg \<and> longest_ok m es lg"
proof -
  note p = sim_on_path [OF inv]
  have lg: "longest_ok m es (s_longest st)" and hp: "heap_payload es (s_heap st)"
    and calls: "s_calls st = map (frame_call es) (rev (a_frames a))"
    using sim heap_okD by (fastforce simp: sim_def)+
  have fc: "f \<in> set (rev (a_frames a)) \<Longrightarrow> f_call f \<in> set es" for f
    using on_path_calls [OF p] by simp
  have ids: "call_ids (s_heap st) (s_calls st) = Some (frame_path (a_frames a))"
    unfolding calls using call_ids_frames [OF hp, of "rev (a_frames a)"] fc
    by (simp add: frame_path_def rev_map)
  have "\<exists>lg'. longest_loop (s_heap st) (s_ticks st) (frame_path (a_frames a)) (s_longest st)
      (map (frame_call es) (rev (a_frames a))) = Some lg' \<and> longest_ok m es lg'"
    using on_path_partial [OF wf p] fc
    by (intro longest_loop_ok [OF hp wf _ _ lg]) (auto simp: frame_ids_def)
  with ids lg calls show ?thesis
    by (cases cp) (simp_all add: update_longest_def)
qed

lemma sim_backtrack:
  assumes wf: "wf_history es" and inv: "a_inv m es a" and sim: "sim m es a st"
    and fr: "a_frames a = f # fs"
  shows "\<exists>st'. checkSingle_backtrack cp st = Some st' \<and> sim m es (a_pop a f fs) st'"
proof -
  have p: "on_path m es (f # fs) (a_pre a) (a_post a) (a_state a)"
    using sim_on_path [OF inv] fr by simp
  then have pf: "on_path m es fs (f_pre f) (f_call f # f_post f) (f_state f)"
    and k: "e_kind (f_call f) = callEntry"
    by simp_all
  note front = on_path_front [OF wf pf k]
  obtain lg where lg: "update_longest cp st = Some lg" "longest_ok m es lg"
    using update_longest_ok [OF wf inv sim] by blast
  have hp: "heap_payload es (s_heap st)"
    using sim heap_okD by (fastforce simp: sim_def)
  note nd = heap_payload_load [OF hp front(3)]
  obtain h' where h': "unlift (s_heap st) (Some (addr es (f_call f))) = Some h'"
      "heap_ok es h' fs (f_pre f @ f_call f # f_post f)"
    using sim fr by (auto simp: sim_def)
  have hp': "heap_payload es h'"
    and dl: "dll h' ((length es # map (addr es) (f_pre f)) @ addr es (f_call f) # map (addr es) (f_post f))"
    using heap_okD [OF h'(2)] by simp_all
  note nd' = heap_payload_load [OF hp' front(3)]
  obtain b where b: "bitset_clear (s_linearized st) (of_int (e_id (f_call f))) = Some b"
      "bitset_cap b = bitset_cap (s_linearized st)"
      "int ` bits_of b = int ` bits_of (s_linearized st) - {e_id (f_call f)}"
    using wf front(1) sim by (auto simp: sim_def elim: bitset_clear_id)
  have "int ` bits_of b = frame_ids fs"
    using b(3) sim fr front(2) by (auto simp: sim_def)
  with b lg h' nd nd' sim fr dll_next(2) [OF dl] show ?thesis
    by (simp add: checkSingle_backtrack_def sim_def a_pop_def entry_node_def)
qed

section \<open>The loop\<close>

lemma sim_step_done:
  assumes wf: "wf_history es" and inv: "a_inv m es a" and sim: "sim m es a st"
    and nil: "a_pre a @ a_post a = []"
  shows "checkSingle_step m cp kill (Some (length es)) st =
    Some (Return (True, map (\<lambda>_. Some (s_ticks st, frame_path (a_frames a))) (s_longest st)))"
proof -
  have h: "heap_ok es (s_heap st) (a_frames a) []" and hp: "heap_payload es (s_heap st)"
    using sim nil heap_okD by (fastforce simp: sim_def)+
  have "call_ids (s_heap st) (s_calls st) = Some (frame_path (a_frames a))"
    using sim call_ids_frames [OF hp, of "rev (a_frames a)"] on_path_calls [OF sim_on_path [OF inv]]
    by (simp add: sim_def frame_path_def rev_map)
  with head_next [OF h] show ?thesis
    by (simp add: checkSingle_step_def)
qed

lemma sim_step_open:
  assumes wf: "wf_history es" and inv: "a_inv m es a" and sim: "sim m es a st"
    and more: "a_pre a @ a_post a \<noteq> []"
  obtains e q where "a_post a = e # q" "e \<in> set es"
    "load (s_heap st) (s_entry st) = Some (s_heap st ! addr es e)"
    "n_match (s_heap st ! addr es e) \<noteq> None \<longleftrightarrow> e_kind e = callEntry"
    "load (s_heap st) (Some (length es)) = Some (s_heap st ! length es)"
    "n_next (s_heap st ! length es) \<noteq> None"
proof -
  note p = sim_on_path [OF inv]
  obtain e q where a: "a_post a = e # q"
    using on_path_post [OF wf, of m "a_frames a" "a_pre a" "a_state a"] p more
    by (cases "a_post a") auto
  have "set (a_pre a @ a_post a) \<subseteq> set es"
    unfolding on_path_remaining [OF p] by auto
  then have e: "e \<in> set es"
    using a by simp
  have h: "heap_ok es (s_heap st) (a_frames a) (a_pre a @ a_post a)" and hp: "heap_payload es (s_heap st)"
    and en: "s_entry st = Some (addr es e)"
    using sim a heap_okD by (fastforce simp: sim_def)+
  have "n_next (s_heap st ! length es) \<noteq> None"
    using head_next(2) [OF h] more by (cases "a_pre a @ a_post a") auto
  with a e heap_payload_load [OF hp e] head_next [OF h] en show thesis
    by (intro that) (auto simp: entry_node_def split: if_splits)
qed

text \<open>The answer of a run: \<open>true\<close> only with a linearization, \<open>false\<close> only without one unless killed.\<close>

definition answer_ok ::
  "('v, 's) Model \<Rightarrow> 'v entry list \<Rightarrow> (nat \<Rightarrow> bool) \<Rightarrow> bool \<Rightarrow> longest \<Rightarrow> bool" where
  "answer_ok m es kill ok lg \<longleftrightarrow>
     longest_ok m es lg \<and>
     (if ok then \<exists>r p. linearizes m es (history_ids es) (m_Init m) p \<and>
                        lg = replicate (length es div 2) (Some (r, p))
      else (\<forall>t. \<not> kill t) \<longrightarrow> \<not> linearizable m es)"

lemma answer_ok_done:
  assumes wf: "wf_history es" and inv: "a_inv m es a" and nil: "a_pre a @ a_post a = []"
    and lg: "length lg = length es div 2"
  shows "answer_ok m es kill True (map (\<lambda>_. Some (t, frame_path (a_frames a))) lg)"
proof -
  have p: "on_path m es (a_frames a) [] [] (a_state a)"
    using sim_on_path [OF inv] nil by simp
  note lin = on_path_complete [OF wf p]
  have "set (frame_path (a_frames a)) = history_ids es"
    using lin by (simp add: linearizes_def)
  then have "int i \<in> set (frame_path (a_frames a))" if "i < length lg" for i
    using that lg by (simp add: history_ids_def)
  moreover have "map (\<lambda>_. Some (t, frame_path (a_frames a))) lg =
      replicate (length es div 2) (Some (t, frame_path (a_frames a)))"
    by (simp add: map_replicate_const lg)
  ultimately show ?thesis
    using lin lg on_path_partial [OF wf p]
    by (auto simp: answer_ok_def longest_ok_def)
qed

context porcupine_model
begin

text \<open>A turn of the loop is a step of the search, or ends it with a right answer.\<close>

lemma sim_step:
  assumes wf: "wf_history es" and defd: "steps_defined m es"
    and inv: "a_inv m es a" and sim: "sim m es a st"
  shows "(\<exists>ok lg. checkSingle_step m cp kill (Some (length es)) st = Some (Return (ok, lg)) \<and>
      answer_ok m es kill ok lg) \<or>
    (\<exists>st' b. checkSingle_step m cp kill (Some (length es)) st = Some (Continue st') \<and>
      astep m eq es a b \<and> sim m es b st')"
    (is "?stop \<or> ?go")
proof (cases "a_pre a @ a_post a = []")
  case True
  have "length (s_longest st) = length es div 2"
    using sim by (simp add: sim_def longest_ok_def)
  with sim_step_done [OF wf inv sim True] answer_ok_done [OF wf inv True] show ?thesis
    by blast
next
  case False
  have lg: "longest_ok m es (s_longest st)"
    using sim by (simp add: sim_def)
  from wf inv sim False obtain e q where a: "a_post a = e # q"
    and ld: "load (s_heap st) (s_entry st) = Some (s_heap st ! addr es e)"
      "n_match (s_heap st ! addr es e) \<noteq> None \<longleftrightarrow> e_kind e = callEntry"
      "load (s_heap st) (Some (length es)) = Some (s_heap st ! length es)"
      "n_next (s_heap st ! length es) \<noteq> None"
    by (rule sim_step_open)
  show ?thesis
  proof (cases "kill (s_ticks st)")
    case True
    with ld lg have ?stop
      by (intro exI [of _ False] exI [of _ "s_longest st"]) (auto simp: checkSingle_step_def answer_ok_def)
    then show ?thesis ..
  next
    case run: False
    show ?thesis
    proof (cases "e_kind e")
      case callEntry
      from sim_call [OF wf inv sim a this defd] obtain st' b where
        "checkSingle_call m (Some (length es)) st (s_heap st ! addr es e) = Some st'"
        "astep m eq es a b" "sim m es b st'" by blast
      with ld run callEntry have ?go
        by (intro exI [of _ "st'\<lparr>s_ticks := Suc (s_ticks st')\<rparr>"] exI [of _ b])
          (auto simp: checkSingle_step_def)
      then show ?thesis ..
    next
      case returnEntry
      show ?thesis
      proof (cases "a_frames a")
        case Nil
        have p: "on_path m es [] (a_pre a) (e # q) (a_state a)"
          using sim_on_path [OF inv] unfolding a Nil .
        have "\<not> linearizable m es"
          using on_path_dead [OF wf p returnEntry] p by (simp add: linearizable_completable)
        with ld run returnEntry Nil sim lg have ?stop
          by (intro exI [of _ False] exI [of _ "s_longest st"])
            (auto simp: checkSingle_step_def answer_ok_def sim_def)
        then show ?thesis ..
      next
        case (Cons f fs)
        from sim_backtrack [OF wf inv sim this] obtain st' where
          "checkSingle_backtrack cp st = Some st'" "sim m es (a_pop a f fs) st'" by blast
        with ld run returnEntry Cons sim have
          "checkSingle_step m cp kill (Some (length es)) st =
             Some (Continue (st'\<lparr>s_ticks := Suc (s_ticks st')\<rparr>))"
          by (auto simp: checkSingle_step_def sim_def)
        with \<open>sim m es (a_pop a f fs) st'\<close> astep_pop [OF a returnEntry Cons] show ?thesis
          by (metis sim_ticks)
      qed
    qed
  qed
qed

lemma checkSingle_loop_ok:
  assumes wf: "wf_history es" and defd: "steps_defined m es"
    and "a_inv m es a" "sim m es a st"
  shows "\<exists>ok lg. checkSingle_loop m cp kill (Some (length es)) st = Some (Some (ok, lg)) \<and>
    answer_ok m es kill ok lg"
  using assms(3,4)
proof (induction "a_cost (length es) a" arbitrary: a st rule: less_induct)
  case less
  note inv = less.prems(1) and sim = less.prems(2)
  from sim_step [OF wf defd inv sim, of cp kill] show ?case
  proof (elim disjE exE conjE)
    fix ok lg
    assume "checkSingle_step m cp kill (Some (length es)) st = Some (Return (ok, lg))"
      "answer_ok m es kill ok lg"
    then show ?case
      by (simp add: checkSingle_loop.simps [of m cp kill _ st])
  next
    fix st' b
    assume st': "checkSingle_step m cp kill (Some (length es)) st = Some (Continue st')"
      and b: "astep m eq es a b" "sim m es b st'"
    have "a_inv m es b"
      by (rule a_inv_astep [OF b(1) wf inv])
    with less.hyps [OF astep_decreases [OF b(1) wf inv]] b(2) st' show ?case
      by (simp add: checkSingle_loop.simps [of m cp kill _ st])
  qed
qed

end

section \<open>The start\<close>

lemma linked_payloads_entry:
  assumes wf: "wf_history es" and k: "k < length es"
  shows "\<exists>mt. linked_payloads 0 (\<lambda>_. None) (rev es) ! (length es - 1 - k) =
      (Some (e_value (es ! k)), mt, e_id (es ! k)) \<and>
    (if e_kind (es ! k) = callEntry
     then \<exists>r \<in> set es. is_return (e_id (es ! k)) r \<and> mt = Some (addr es r) else mt = None)"
proof -
  let ?N = "length es" and ?e = "es ! k"
  let ?j = "?N - 1 - k"
  have j: "?j < length (rev es)" "rev es ! ?j = ?e"
    using k by (auto simp: rev_nth)
  note dis = wf_history_distinct [OF wf]
  show ?thesis
  proof (cases "e_kind ?e")
    case callEntry
    obtain r where r: "r \<in> set (drop (Suc k) es)" "is_return (e_id ?e) r"
      using remaining_last_return [OF wf, of ?e "{}" "take k es" "drop (Suc k) es"] k callEntry
      by (auto simp: id_take_nth_drop [symmetric])
    then obtain l where l: "k < l" "l < ?N" "es ! l = r"
      by (auto simp: in_set_conv_nth) (metis add_Suc less_add_Suc1 less_diff_conv add.commute)
    have rr: "r \<in> set es"
      using l by auto
    have "linked_payloads 0 (\<lambda>_. None) (rev es) ! ?j =
        (Some (e_value (rev es ! ?j)), Some (0 + (?N - 1 - l)), e_id ?e)"
    proof (rule linked_payloads_match [OF j(1)])
      show "is_call (e_id ?e) (rev es ! ?j)" "?N - 1 - l < ?j" "is_return (e_id ?e) (rev es ! (?N - 1 - l))"
        using j callEntry l r(2) by (auto simp: is_call_def rev_nth)
      fix k' assume k': "?N - 1 - l < k'" "k' < ?j"
      show "\<not> is_return (e_id ?e) (rev es ! k')"
      proof
        assume x: "is_return (e_id ?e) (rev es ! k')"
        have n: "rev es ! k' = es ! (?N - 1 - k')" "?N - 1 - k' < ?N"
          using k' k by (auto simp: rev_nth)
        then have "es ! (?N - 1 - k') = r"
          using wf_history_key [OF wf _ rr] x r(2) by (metis is_return_def nth_mem)
        then have "?N - 1 - k' = l"
          using dis n(2) l(2,3) by (metis nth_eq_iff_index_eq)
        with k' show False by linarith
      qed
    qed
    moreover have "addr es r = ?N - 1 - l"
      using addr_nth [OF dis l(2)] l(3) by simp
    ultimately show ?thesis
      using j(2) callEntry rr r(2) by auto
  next
    case returnEntry
    then show ?thesis
      using linked_payloads_nth [OF j(1), of 0 "\<lambda>_. None"] j(2) by auto
  qed
qed

lemma checkSingle_init_ok:
  assumes wf: "wf_history es"
  obtains st where "checkSingle_init m es = Some (Some (length es), st)" "sim m es (a_init m es) st"
proof -
  let ?N = "length es"
  obtain h where h: "makeLinkedEntries [] es = Some (h, first_of (rev [0..<length h]) None)"
      "dll h (rev [0..<length h])" "length h = ?N"
      "map payload h = linked_payloads 0 (\<lambda>_. None) (rev es)"
    using makeLinkedEntries_loop_correct [of "[]" "\<lambda>_. None" "rev es"]
    by (auto simp: makeLinkedEntries_def dll_def)
  obtain h' where h': "insertBefore
        (h @ [\<lparr>n_value = None, n_match = None, n_id = - 1, n_next = None, n_prev = None\<rparr>])
        (Some (length h)) (first_of (rev [0..<length h]) None) = Some (h', Some (length h))"
      "dll h' (rev [0..<length h'])" "length h' = Suc (length h)"
      "map payload h' = map payload h @ [(None, None, - 1)]"
    using h(2) by (rule new_node_insertBefore)
  have len: "length (linked_payloads 0 (\<lambda>_. None) (rev es)) = ?N"
    using h(3,4) by (metis length_map)
  have "entry_node es (h' ! addr es e) e" if "e \<in> set es" for e
  proof -
    from that obtain k where k: "k < ?N" "e = es ! k"
      by (auto simp: in_set_conv_nth)
    have "payload (h' ! addr es e) = linked_payloads 0 (\<lambda>_. None) (rev es) ! (?N - 1 - k)"
    proof -
      have a: "addr es e = ?N - 1 - k" "?N - 1 - k < length h'" "?N - 1 - k < ?N"
        using addr_nth [OF wf_history_distinct [OF wf] k(1)] k h(3) h'(3) by auto
      have "payload (h' ! addr es e) = map payload h' ! (?N - 1 - k)"
        using a by simp
      also have "\<dots> = linked_payloads 0 (\<lambda>_. None) (rev es) ! (?N - 1 - k)"
        using a(3) len unfolding h'(4) h(4) by (simp add: nth_append)
      finally show ?thesis .
    qed
    with linked_payloads_entry [OF wf k(1)] k(2) show ?thesis
      by (auto simp: entry_node_def payload_def)
  qed
  then have hp: "heap_payload es h'"
    using h h' by (simp add: heap_payload_def)
  have dl: "dll h' (?N # map (addr es) es)"
    using h'(2,3) h(3) map_addr [OF wf_history_distinct [OF wf]] by simp
  define st where "st = \<lparr>s_heap = h', s_entry = first_of (rev [0..<?N]) None, s_state = m_Init m,
    s_linearized = newBitset (of_nat (?N div 2)), s_cache = (\<lambda>_. []), s_calls = [],
    s_longest = replicate (?N div 2) None, s_ticks = 0\<rparr>"
  have "checkSingle_init m es = Some (Some ?N, st)"
    using node_length_dll [OF h(2)] h h' by (simp add: checkSingle_init_def new_node_def st_def Let_def)
  moreover have "?N div 2 \<le> bitset_cap (newBitset (of_nat (?N div 2)))"
    using newBitset_cap [of "of_nat (?N div 2)"] unat_of_nat_u64 [of "?N div 2"] wf_historyD(1) [OF wf]
    by simp
  then have "sim m es (a_init m es) st"
    using hp dl map_addr [OF wf_history_distinct [OF wf]]
    by (simp add: sim_def a_init_def st_def newBitset_empty cache_ok_def longest_ok_def)
  ultimately show thesis
    by (rule that)
qed

context porcupine_model
begin

lemma checkSingle_ok:
  assumes wf: "wf_history es" and defd: "steps_defined m es"
  shows "\<exists>ok lg. checkSingle m es cp kill = Some (Some (ok, lg)) \<and> answer_ok m es kill ok lg"
proof -
  obtain st where "checkSingle_init m es = Some (Some (length es), st)" "sim m es (a_init m es) st"
    using wf by (rule checkSingle_init_ok)
  with checkSingle_loop_ok [OF wf defd a_inv_init] show ?thesis
    by (simp add: checkSingle_def)
qed

end

end
