(* ===== verification/HistoryCorrect.thy ===== *)
theory HistoryCorrect
  imports History
begin

text \<open>
  The histories that \<open>checkOperations\<close> and \<open>checkEvents\<close> hand to the search are complete, and they
  are linearizable exactly when the operations or events they were built from are.
\<close>

section \<open>From operations\<close>

definition call_of :: "'v Operation list \<Rightarrow> nat \<Rightarrow> 'v entry" where
  "call_of ops k =
     \<lparr>e_kind = callEntry, e_value = op_Input (ops ! k), e_id = int k,
      e_time = op_Call (ops ! k), e_clientId = op_ClientId (ops ! k)\<rparr>"

definition return_of :: "'v Operation list \<Rightarrow> nat \<Rightarrow> 'v entry" where
  "return_of ops k =
     \<lparr>e_kind = returnEntry, e_value = op_Output (ops ! k), e_id = int k,
      e_time = op_Return (ops ! k), e_clientId = op_ClientId (ops ! k)\<rparr>"

lemmas entry_of_defs = call_of_def return_of_def

lemma is_entry_of [simp]:
  "is_call (int n) (call_of ops k) \<longleftrightarrow> k = n" "is_return (int n) (return_of ops k) \<longleftrightarrow> k = n"
  "\<not> is_call i (return_of ops k)" "\<not> is_return i (call_of ops k)"
  by (auto simp: is_call_def is_return_def entry_of_defs)

lemma makeEntries_loop_map:
  "makeEntries_loop (int i) (drop i ops) =
   concat (map (\<lambda>k. [call_of ops k, return_of ops k]) [i..<length ops])"
proof (induction "length ops - i" arbitrary: i)
  case (Suc d)
  then have "i < length ops"
    by simp
  with Suc.hyps(1) [of "Suc i"] Suc.hyps(2) show ?case
    by (simp add: Cons_nth_drop_Suc [symmetric] upt_conv_Cons entry_of_defs add.commute)
qed simp

lemma makeEntries_loop_0:
  "makeEntries_loop 0 ops = concat (map (\<lambda>k. [call_of ops k, return_of ops k]) [0..<length ops])"
  using makeEntries_loop_map [of 0 ops] by simp

text \<open>Earlier first, and calls before returns at the same time.\<close>

lemma byTime_Less_key:
  "byTime_Less = (\<lambda>a b. 2 * e_time a + (if e_kind a = callEntry then 0 else 1) <
                         2 * e_time b + (if e_kind b = callEntry then 0 else 1))"
proof (intro ext)
  fix a b :: "'a entry"
  show "byTime_Less a b \<longleftrightarrow> 2 * e_time a + (if e_kind a = callEntry then 0 else 1) <
                             2 * e_time b + (if e_kind b = callEntry then 0 else 1)"
    by (cases "e_kind a"; cases "e_kind b") (auto simp: byTime_Less_def)
qed

lemma strict_weak_byTime: "strict_weak byTime_Less"
  unfolding byTime_Less_key by (rule strict_weak_key)

lemma distinct_keys:
  "distinct (map (\<lambda>e. (e_kind e, e_id e)) (concat (map (\<lambda>k. [call_of ops k, return_of ops k]) [0..<n])))"
  by (induction n) (auto simp: entry_of_defs)

locale entry_sorting = sorting srt
  for srt :: "('v entry \<Rightarrow> 'v entry \<Rightarrow> bool) \<Rightarrow> 'v entry list \<Rightarrow> 'v entry list"
begin

lemma makeEntries_set:
  "set (makeEntries srt ops) = (\<Union>k < length ops. {call_of ops k, return_of ops k})"
  by (auto simp: makeEntries_def set_srt [OF strict_weak_byTime] makeEntries_loop_0)

lemma makeEntries_length: "length (makeEntries srt ops) = 2 * length ops"
  by (simp add: makeEntries_def length_srt [OF strict_weak_byTime] makeEntries_loop_0 length_concat
      sum_list_triv o_def)

lemma makeEntries_ids: "history_ids (makeEntries srt ops) = int ` {..<length ops}"
  by (simp add: history_ids_def makeEntries_length)

lemma makeEntries_distinct: "distinct (map (\<lambda>e. (e_kind e, e_id e)) (makeEntries srt ops))"
  unfolding makeEntries_def distinct_srt [OF strict_weak_byTime] makeEntries_loop_0
  by (rule distinct_keys)

lemma makeEntries_sorted:
  assumes "i < length (makeEntries srt ops)" "j < length (makeEntries srt ops)"
    "byTime_Less (makeEntries srt ops ! i) (makeEntries srt ops ! j)"
  shows "i < j"
proof (rule ccontr)
  assume "\<not> i < j"
  moreover have "i \<noteq> j"
    using assms(3) by (auto simp: byTime_Less_def)
  ultimately have "j < i" by simp
  with assms nth_srt_le [OF strict_weak_byTime, of j i "makeEntries_loop 0 ops"] show False
    by (simp add: makeEntries_def length_srt [OF strict_weak_byTime])
qed

lemma makeEntries_index:
  assumes "e \<in> set (makeEntries srt ops)"
  obtains i where "i < length (makeEntries srt ops)" "makeEntries srt ops ! i = e"
  using assms by (auto simp: in_set_conv_nth)

lemma makeEntries_wf:
  assumes wf: "wf_operations ops"
  shows "wf_history (makeEntries srt ops)"
proof -
  let ?es = "makeEntries srt ops"
  have "\<exists>j k. j < k \<and> k < length ?es \<and> is_call (int n) (?es ! j) \<and> is_return (int n) (?es ! k)"
    if n: "n < length ops" for n
  proof -
    have "call_of ops n \<in> set ?es" "return_of ops n \<in> set ?es"
      using n by (auto simp: makeEntries_set)
    then obtain j k where jk: "j < length ?es" "?es ! j = call_of ops n"
      "k < length ?es" "?es ! k = return_of ops n"
      by (meson makeEntries_index)
    have "op_Call (ops ! n) \<le> op_Return (ops ! n)"
      using wf n by (simp add: wf_operations_def)
    then have "byTime_Less (?es ! j) (?es ! k)"
      by (simp add: jk byTime_Less_def entry_of_defs)
    with makeEntries_sorted jk have "j < k" by blast
    with jk show ?thesis
      by (intro exI [of _ j] exI [of _ k]) simp
  qed
  with wf show ?thesis
    unfolding wf_history_def
    by (auto simp: makeEntries_distinct makeEntries_length makeEntries_ids makeEntries_set
        wf_operations_def entry_of_defs)
qed

lemma makeEntries_find:
  assumes "n < length ops"
  shows "call_value (makeEntries srt ops) (int n) = Some (op_Input (ops ! n))"
    "return_value (makeEntries srt ops) (int n) = Some (op_Output (ops ! n))"
proof -
  let ?es = "makeEntries srt ops"
  have mem: "call_of ops n \<in> set ?es" "return_of ops n \<in> set ?es"
    using assms by (auto simp: makeEntries_set)
  have uniq: "x \<in> set ?es \<Longrightarrow> is_call (int n) x \<Longrightarrow> x = call_of ops n"
    "x \<in> set ?es \<Longrightarrow> is_return (int n) x \<Longrightarrow> x = return_of ops n" for x
    by (auto simp: makeEntries_set)
  have "find (is_call (int n)) ?es \<noteq> None" "find (is_return (int n)) ?es \<noteq> None"
    using mem is_entry_of by (auto simp: find_None_iff)
  then have "find (is_call (int n)) ?es = Some (call_of ops n)"
    "find (is_return (int n)) ?es = Some (return_of ops n)"
    using uniq by (auto simp: find_Some_iff) (metis nth_mem)+
  then show "call_value ?es (int n) = Some (op_Input (ops ! n))"
    "return_value ?es (int n) = Some (op_Output (ops ! n))"
    by (simp_all add: call_value_def return_value_def entry_of_defs)
qed

lemma makeEntries_rt_before:
  assumes "a < length ops" "b < length ops"
  shows "rt_before (makeEntries srt ops) (int a) (int b) \<longleftrightarrow> op_Return (ops ! a) < op_Call (ops ! b)"
proof
  let ?es = "makeEntries srt ops"
  assume "rt_before ?es (int a) (int b)"
  then obtain i j where ij: "i < j" "j < length ?es" "is_return (int a) (?es ! i)" "is_call (int b) (?es ! j)"
    by (auto simp: rt_before_def)
  have "?es ! i \<in> set ?es" "?es ! j \<in> set ?es"
    using ij by simp_all
  with ij(3,4) have e: "?es ! i = return_of ops a" "?es ! j = call_of ops b"
    by (auto simp: makeEntries_set)
  have "\<not> byTime_Less (?es ! j) (?es ! i)"
    using makeEntries_sorted [of j ops i] ij by auto
  then show "op_Return (ops ! a) < op_Call (ops ! b)"
    unfolding e by (auto simp: byTime_Less_def entry_of_defs split: if_splits)
next
  let ?es = "makeEntries srt ops"
  assume lt: "op_Return (ops ! a) < op_Call (ops ! b)"
  have "return_of ops a \<in> set ?es" "call_of ops b \<in> set ?es"
    using assms by (auto simp: makeEntries_set)
  then obtain i j where ij: "i < length ?es" "?es ! i = return_of ops a"
    "j < length ?es" "?es ! j = call_of ops b"
    by (meson makeEntries_index)
  have "byTime_Less (?es ! i) (?es ! j)"
    using lt by (simp add: ij byTime_Less_def entry_of_defs)
  with makeEntries_sorted ij have "i < j" by blast
  with ij show "rt_before ?es (int a) (int b)"
    unfolding rt_before_def
    by (intro exI [of _ i] exI [of _ j]) simp
qed

lemma makeEntries_run:
  "set p \<subseteq> {..<length ops} \<Longrightarrow>
   run_ops m (makeEntries srt ops) s (map int p) = run_Operations m s (map ((!) ops) p)"
proof (induction p arbitrary: s)
  case (Cons n p)
  then show ?case
    by (auto simp: step_op_def makeEntries_find split: option.splits prod.splits bind_splits)
qed simp

lemma makeEntries_linearizes:
  assumes "set p = {..<length ops}"
  shows "linearizes m (makeEntries srt ops) (int ` {..<length ops}) s (map int p) \<longleftrightarrow>
    distinct p \<and> sorted_wrt (\<lambda>a b. \<not> op_Return (ops ! b) < op_Call (ops ! a)) p \<and>
    run_Operations m s (map ((!) ops) p) \<noteq> None"
proof -
  have "sorted_wrt (\<lambda>a b. \<not> rt_before (makeEntries srt ops) (int b) (int a)) p \<longleftrightarrow>
      sorted_wrt (\<lambda>a b. \<not> op_Return (ops ! b) < op_Call (ops ! a)) p"
    using assms by (intro iffI; elim sorted_wrt_mono_rel [rotated]) (simp_all add: makeEntries_rt_before)
  with assms show ?thesis
    by (auto simp: linearizes_def sorted_wrt_map distinct_map makeEntries_run)
qed

text \<open>Building the entries keeps linearizability.\<close>

lemma makeEntries_linearizable:
  "linearizable m (makeEntries srt ops) \<longleftrightarrow> op_linearizable m ops"
proof
  assume "linearizable m (makeEntries srt ops)"
  then obtain p where p: "linearizes m (makeEntries srt ops) (int ` {..<length ops}) (m_Init m) p"
    by (auto simp: linearizable_def makeEntries_ids)
  define q where "q = map nat p"
  have sp: "set p = int ` {..<length ops}"
    using p by (simp add: linearizes_def)
  have "map int q = map id p"
    unfolding q_def map_map using sp by (intro map_cong) auto
  then have q: "p = map int q"
    by simp
  have "set q = nat ` set p"
    by (simp add: q_def)
  then have sq: "set q = {..<length ops}"
    unfolding sp by (simp add: image_image)
  show "op_linearizable m ops"
    unfolding op_linearizable_def
    using p [unfolded q makeEntries_linearizes [OF sq]] sq by (intro exI [of _ q]) simp
next
  assume "op_linearizable m ops"
  then obtain p where p: "set p = {..<length ops}" "distinct p"
      "sorted_wrt (\<lambda>a b. \<not> op_Return (ops ! b) < op_Call (ops ! a)) p"
      "run_Operations m (m_Init m) (map ((!) ops) p) \<noteq> None"
    by (auto simp: op_linearizable_def)
  then have "linearizes m (makeEntries srt ops) (int ` {..<length ops}) (m_Init m) (map int p)"
    by (simp add: makeEntries_linearizes)
  then show "linearizable m (makeEntries srt ops)"
    unfolding linearizable_def makeEntries_ids by blast
qed

end

interpretation eis: entry_sorting insertionSort
  by unfold_locales

section \<open>From events\<close>

definition event_ids :: "'v Event list \<Rightarrow> int set" where
  "event_ids evs = ev_Id ` set evs"

text \<open>A complete list of events: every id that occurs has one call and one return, the call first.\<close>

definition wf_events :: "'v Event list \<Rightarrow> bool" where
  "wf_events evs \<longleftrightarrow>
     length evs < 2 ^ 63 \<and>
     distinct (map (\<lambda>v. (ev_Kind v, ev_Id v)) evs) \<and>
     (\<forall>v \<in> set evs. \<exists>j k. j < k \<and> k < length evs \<and>
        ev_Id (evs ! j) = ev_Id v \<and> ev_Kind (evs ! j) = CallEvent \<and>
        ev_Id (evs ! k) = ev_Id v \<and> ev_Kind (evs ! k) = ReturnEvent)"

definition ev_linearizable :: "('v, 's) Model \<Rightarrow> 'v Event list \<Rightarrow> bool" where
  "ev_linearizable m evs \<longleftrightarrow>
     (\<exists>p. linearizes m (convertEntries evs) (event_ids evs) (m_Init m) p)"

definition relabel :: "(int \<Rightarrow> int) \<Rightarrow> 'v Event \<Rightarrow> 'v Event" where
  "relabel g v = v\<lparr>ev_Id := g (ev_Id v)\<rparr>"

definition relabel_entry :: "(int \<Rightarrow> int) \<Rightarrow> 'v entry \<Rightarrow> 'v entry" where
  "relabel_entry g e = e\<lparr>e_id := g (e_id e)\<rparr>"

lemma relabel_simps [simp]:
  "ev_Id (relabel g v) = g (ev_Id v)" "ev_Kind (relabel g v) = ev_Kind v"
  "ev_Value (relabel g v) = ev_Value v" "ev_ClientId (relabel g v) = ev_ClientId v"
  by (simp_all add: relabel_def)

lemma relabel_entry_simps [simp]:
  "e_id (relabel_entry g e) = g (e_id e)" "e_kind (relabel_entry g e) = e_kind e"
  "e_value (relabel_entry g e) = e_value e"
  by (simp_all add: relabel_entry_def)

text \<open>\<open>renumber\<close> renames the ids injectively to \<open>0..<n\<close>, in the order they occur.\<close>

lemma renumber_loop_relabels:
  assumes "inj_on (the \<circ> m) (dom m)" "(the \<circ> m) ` dom m = {0..<i}" "0 \<le> i" "finite (dom m)"
  shows "\<exists>g. renumber_loop m i evs = map (relabel g) evs \<and> (\<forall>x \<in> dom m. m x = Some (g x)) \<and>
    inj_on g (dom m \<union> event_ids evs) \<and>
    g ` (dom m \<union> event_ids evs) = {0..<i + int (card (event_ids evs - dom m))}"
  using assms
proof (induction evs arbitrary: m i)
  case Nil
  have "inj_on (the \<circ> m) (dom m)" by (rule Nil)
  with Nil show ?case
    by (intro exI [of _ "the \<circ> m"]) (auto simp: event_ids_def)
next
  case (Cons v vs)
  let ?x = "ev_Id v"
  have ids: "event_ids (v # vs) = insert ?x (event_ids vs)" and fin: "finite (event_ids vs)"
    by (simp_all add: event_ids_def)
  show ?case
  proof (cases "m ?x")
    case (Some r)
    with Cons.IH [OF Cons.prems] obtain g where g:
      "renumber_loop m i vs = map (relabel g) vs" "\<forall>x \<in> dom m. m x = Some (g x)"
      "inj_on g (dom m \<union> event_ids vs)"
      "g ` (dom m \<union> event_ids vs) = {0..<i + int (card (event_ids vs - dom m))}" by blast
    have x: "?x \<in> dom m" "g ?x = r"
      using Some g(2) by (auto dest!: bspec [of _ _ ?x])
    then have "dom m \<union> event_ids (v # vs) = dom m \<union> event_ids vs"
      "event_ids (v # vs) - dom m = event_ids vs - dom m"
      using ids by auto
    with g x Some show ?thesis
      by (intro exI [of _ g]) (simp add: relabel_def)
  next
    case None
    let ?m = "m(?x \<mapsto> i)"
    have d: "?x \<notin> dom m" using None by auto
    have img: "(the \<circ> ?m) ` dom m = (the \<circ> m) ` dom m"
      using d by (intro image_cong) auto
    have "inj_on (the \<circ> ?m) (dom m) \<longleftrightarrow> inj_on (the \<circ> m) (dom m)"
      using d by (intro inj_on_cong) auto
    then have inj: "inj_on (the \<circ> ?m) (dom ?m)"
      using Cons.prems d img by (simp add: inj_on_insert)
    have ran: "(the \<circ> ?m) ` dom ?m = {0..<i + 1}"
      using Cons.prems(2,3) img by auto
    have "0 \<le> i + 1" "finite (dom ?m)"
      using Cons.prems(3,4) by simp_all
    from Cons.IH [OF inj ran this] obtain g where g:
      "renumber_loop ?m (i + 1) vs = map (relabel g) vs" "\<forall>x \<in> dom ?m. ?m x = Some (g x)"
      "inj_on g (dom ?m \<union> event_ids vs)"
      "g ` (dom ?m \<union> event_ids vs) = {0..<i + 1 + int (card (event_ids vs - dom ?m))}"
      by blast
    have dom: "dom ?m \<union> event_ids vs = dom m \<union> event_ids (v # vs)"
      using ids by auto
    have "event_ids (v # vs) - dom m = insert ?x (event_ids vs - dom ?m)"
      using ids d by auto
    then have "i + int (card (event_ids (v # vs) - dom m)) = i + 1 + int (card (event_ids vs - dom ?m))"
      using fin by (simp add: card_insert_if)
    then have img': "g ` (dom m \<union> event_ids (v # vs)) = {0..<i + int (card (event_ids (v # vs) - dom m))}"
      using g(4) unfolding dom by (simp add: add.assoc)
    have gx: "g ?x = i"
      using bspec [OF g(2), of ?x] by simp
    have "m x = Some (g x)" if "x \<in> dom m" for x
      using bspec [OF g(2), of x] that d by (auto split: if_splits)
    moreover have "renumber_loop m i (v # vs) = map (relabel g) (v # vs)"
      using None g(1) gx by (simp add: relabel_def)
    ultimately show ?thesis
      using img' g(3) unfolding dom by blast
  qed
qed

lemma renumber_relabels:
  obtains g where "renumber evs = map (relabel g) evs" "inj_on g (event_ids evs)"
    "g ` event_ids evs = int ` {..<card (event_ids evs)}"
proof -
  have "{0..<int n} = int ` {..<n}" for n
    by (simp add: image_int_atLeastLessThan lessThan_atLeast0)
  with renumber_loop_relabels [of Map.empty 0 evs] that show thesis
    by (auto simp: renumber_def)
qed

lemma length_renumber [simp]: "length (renumber evs) = length evs"
  by (metis length_map renumber_relabels)

text \<open>The entries of events.\<close>

lemma length_convertEntries_loop [simp]: "length (convertEntries_loop i evs) = length evs"
  by (induction evs arbitrary: i) auto

lemma nth_convertEntries_loop:
  "k < length evs \<Longrightarrow> convertEntries_loop i evs ! k =
     \<lparr>e_kind = (if ev_Kind (evs ! k) = ReturnEvent then returnEntry else callEntry),
      e_value = ev_Value (evs ! k), e_id = ev_Id (evs ! k), e_time = i + int k,
      e_clientId = ev_ClientId (evs ! k)\<rparr>"
  by (induction evs arbitrary: i k) (auto simp: nth_Cons split: nat.split)

lemma length_convertEntries [simp]: "length (convertEntries evs) = length evs"
  by (simp add: convertEntries_def)

lemma nth_convertEntries:
  "k < length evs \<Longrightarrow> e_kind (convertEntries evs ! k) =
     (if ev_Kind (evs ! k) = ReturnEvent then returnEntry else callEntry)"
  "k < length evs \<Longrightarrow> e_id (convertEntries evs ! k) = ev_Id (evs ! k)"
  by (simp_all add: convertEntries_def nth_convertEntries_loop)

lemma convertEntries_relabel:
  "convertEntries (map (relabel g) evs) = map (relabel_entry g) (convertEntries evs)"
  by (intro nth_equalityI)
    (auto simp: convertEntries_def nth_convertEntries_loop relabel_entry_def)

lemma convertEntries_ids: "e_id ` set (convertEntries evs) = event_ids evs"
proof -
  have "map e_id (convertEntries evs) = map ev_Id evs"
    by (rule nth_equalityI) (simp_all add: nth_convertEntries)
  then show ?thesis
    by (metis event_ids_def set_map)
qed

text \<open>Renaming the ids of a history.\<close>

lemma is_relabel:
  assumes "inj_on g I" "i \<in> I" "e_id e \<in> I"
  shows "is_call (g i) (relabel_entry g e) = is_call i e"
    "is_return (g i) (relabel_entry g e) = is_return i e"
  using assms by (auto simp: is_call_def is_return_def inj_on_eq_iff)

lemma find_relabel:
  assumes "\<And>e. e \<in> set es \<Longrightarrow> P (f e) = Q e"
  shows "find P (map f es) = map_option f (find Q es)"
  using assms by (induction es) auto

lemma value_relabel:
  assumes "inj_on g I" "e_id ` set es \<subseteq> I" "i \<in> I"
  shows "call_value (map (relabel_entry g) es) (g i) = call_value es i"
    "return_value (map (relabel_entry g) es) (g i) = return_value es i"
proof -
  have "find (is_call (g i)) (map (relabel_entry g) es) = map_option (relabel_entry g) (find (is_call i) es)"
    "find (is_return (g i)) (map (relabel_entry g) es) = map_option (relabel_entry g) (find (is_return i) es)"
    using assms is_relabel [OF assms(1,3)] by (auto intro!: find_relabel)
  then show "call_value (map (relabel_entry g) es) (g i) = call_value es i"
    "return_value (map (relabel_entry g) es) (g i) = return_value es i"
    by (simp_all add: call_value_def return_value_def option.map_comp o_def)
qed

lemma rt_before_relabel:
  assumes "inj_on g I" "e_id ` set es \<subseteq> I" "a \<in> I" "b \<in> I"
  shows "rt_before (map (relabel_entry g) es) (g a) (g b) = rt_before es a b"
proof -
  have "e_id (es ! k) \<in> I" if "k < length es" for k
    using assms(2) that by auto
  then have eqs: "is_return (g a) (map (relabel_entry g) es ! k) = is_return a (es ! k)"
    "is_call (g b) (map (relabel_entry g) es ! k) = is_call b (es ! k)" if "k < length es" for k
    using that by (simp_all add: is_relabel [OF assms(1)] assms(3,4))
  show ?thesis
    unfolding rt_before_def length_map by (intro iff_exI conj_cong refl) (simp_all add: eqs del: nth_map)
qed

lemma run_ops_relabel:
  assumes "inj_on g I" "e_id ` set es \<subseteq> I" "set p \<subseteq> I"
  shows "run_ops m (map (relabel_entry g) es) s (map g p) = run_ops m es s p"
  using assms(3)
proof (induction p arbitrary: s)
  case (Cons i p)
  then show ?case
    using value_relabel [OF assms(1,2), of i] by (simp add: step_op_def)
qed simp

lemma linearizes_relabel:
  assumes g: "inj_on g I" and es: "e_id ` set es \<subseteq> I" and p: "set p \<subseteq> I"
  shows "linearizes m (map (relabel_entry g) es) (g ` I) s (map g p) \<longleftrightarrow> linearizes m es I s p"
proof -
  have "sorted_wrt (\<lambda>a b. \<not> rt_before (map (relabel_entry g) es) (g b) (g a)) p \<longleftrightarrow>
      sorted_wrt (\<lambda>a b. \<not> rt_before es b a) p"
    using p rt_before_relabel [OF g es]
    by (intro iffI; elim sorted_wrt_mono_rel [rotated]) (auto simp: subset_iff)
  moreover have "distinct (map g p) \<longleftrightarrow> distinct p"
    using g p by (metis distinct_map inj_on_subset)
  moreover have "g ` set p = g ` I \<longleftrightarrow> set p = I"
    using g p by (simp add: inj_on_image_eq_iff)
  ultimately show ?thesis
    using run_ops_relabel [OF g es p, of m s] by (simp add: linearizes_def sorted_wrt_map)
qed

lemma wf_eventsD:
  assumes "wf_events evs" "v \<in> set evs"
  shows "\<exists>j k. j < k \<and> k < length evs \<and>
    ev_Id (evs ! j) = ev_Id v \<and> ev_Kind (evs ! j) = CallEvent \<and>
    ev_Id (evs ! k) = ev_Id v \<and> ev_Kind (evs ! k) = ReturnEvent"
  using assms by (simp add: wf_events_def)

lemma wf_events_card:
  assumes "wf_events evs"
  shows "length evs = 2 * card (event_ids evs)"
proof -
  let ?key = "\<lambda>v. (ev_Kind v, ev_Id v)"
  have "?key ` set evs = {CallEvent, ReturnEvent} \<times> event_ids evs"
  proof (intro equalityI subsetI)
    fix x assume "x \<in> ?key ` set evs"
    then obtain v where "v \<in> set evs" "x = ?key v"
      by blast
    then show "x \<in> {CallEvent, ReturnEvent} \<times> event_ids evs"
      by (cases "ev_Kind v") (auto simp: event_ids_def)
  next
    fix x assume "x \<in> {CallEvent, ReturnEvent} \<times> event_ids evs"
    then obtain k v where v: "x = (k, ev_Id v)" "v \<in> set evs"
      unfolding event_ids_def by blast
    with assms obtain i j where "i < j" "j < length evs"
      "ev_Id (evs ! i) = ev_Id v" "ev_Kind (evs ! i) = CallEvent"
      "ev_Id (evs ! j) = ev_Id v" "ev_Kind (evs ! j) = ReturnEvent"
      by (meson wf_eventsD)
    then have "evs ! i \<in> set evs" "?key (evs ! i) = (CallEvent, ev_Id v)"
      "evs ! j \<in> set evs" "?key (evs ! j) = (ReturnEvent, ev_Id v)"
      by simp_all
    then show "x \<in> ?key ` set evs"
      using v by (cases k) (simp_all add: rev_image_eqI)
  qed
  then have "card (set (map ?key evs)) = 2 * card (event_ids evs)"
    by (simp add: card_cartesian_product)
  moreover have "card (set (map ?key evs)) = length evs"
    using assms distinct_card [of "map ?key evs"] by (simp add: wf_events_def)
  ultimately show ?thesis by simp
qed

lemma renumbered_entries:
  assumes "wf_events evs"
  obtains g where "convertEntries (renumber evs) = map (relabel_entry g) (convertEntries evs)"
    "inj_on g (event_ids evs)" "g ` event_ids evs = history_ids (convertEntries (renumber evs))"
proof -
  obtain g where g: "renumber evs = map (relabel g) evs" "inj_on g (event_ids evs)"
    "g ` event_ids evs = int ` {..<card (event_ids evs)}"
    by (rule renumber_relabels)
  show thesis
    using g wf_events_card [OF assms]
    by (intro that [of g]) (simp_all add: convertEntries_relabel history_ids_def)
qed

lemma convertEntries_wf:
  assumes wf: "wf_events evs"
  shows "wf_history (convertEntries (renumber evs))"
proof -
  obtain g where g: "convertEntries (renumber evs) = map (relabel_entry g) (convertEntries evs)"
    "inj_on g (event_ids evs)" "g ` event_ids evs = history_ids (convertEntries (renumber evs))"
    using wf by (rule renumbered_entries)
  let ?es = "convertEntries (renumber evs)"
  have len: "length ?es = length evs"
    by (simp add: g(1))
  have nth: "e_id (?es ! k) = g (ev_Id (evs ! k))"
    "e_kind (?es ! k) = (if ev_Kind (evs ! k) = ReturnEvent then returnEntry else callEntry)"
    if "k < length evs" for k
    using that by (simp_all add: g(1) nth_convertEntries)
  have mem: "ev_Id (evs ! k) \<in> event_ids evs" if "k < length evs" for k
    using that by (auto simp: event_ids_def)
  have "distinct (map (\<lambda>e. (e_kind e, e_id e)) ?es)"
  proof (unfold distinct_conv_nth length_map len, intro allI impI)
    fix i j assume ij: "i < length evs" "j < length evs" "i \<noteq> j"
    then have "(ev_Kind (evs ! i), ev_Id (evs ! i)) \<noteq> (ev_Kind (evs ! j), ev_Id (evs ! j))"
      using wf by (auto simp: wf_events_def distinct_conv_nth)
    then show "map (\<lambda>e. (e_kind e, e_id e)) ?es ! i \<noteq> map (\<lambda>e. (e_kind e, e_id e)) ?es ! j"
      using ij mem g(2) by (cases "ev_Kind (evs ! i)"; cases "ev_Kind (evs ! j)")
        (auto simp: nth len inj_on_eq_iff)
  qed
  moreover have "e_id e \<in> history_ids ?es" if "e \<in> set ?es" for e
    using that mem g(3) by (auto simp: in_set_conv_nth len nth)
  moreover have "\<exists>j k. j < k \<and> k < length ?es \<and> is_call i (?es ! j) \<and> is_return i (?es ! k)"
    if i: "i \<in> history_ids ?es" for i
  proof -
    from i g(3) obtain v where v: "v \<in> set evs" "i = g (ev_Id v)"
      by (auto simp: event_ids_def)
    with wf obtain j k where "j < k" "k < length evs"
      "ev_Id (evs ! j) = ev_Id v" "ev_Kind (evs ! j) = CallEvent"
      "ev_Id (evs ! k) = ev_Id v" "ev_Kind (evs ! k) = ReturnEvent"
      by (meson wf_eventsD)
    with v show ?thesis
      by (intro exI [of _ j] exI [of _ k]) (simp add: len nth is_call_def is_return_def)
  qed
  ultimately show ?thesis
    using wf len by (auto simp: wf_history_def wf_events_def)
qed

text \<open>Renumbering and converting keep linearizability.\<close>

lemma convertEntries_linearizable:
  assumes "wf_events evs"
  shows "linearizable m (convertEntries (renumber evs)) \<longleftrightarrow> ev_linearizable m evs"
proof -
  obtain g where g: "convertEntries (renumber evs) = map (relabel_entry g) (convertEntries evs)"
    "inj_on g (event_ids evs)" "g ` event_ids evs = history_ids (convertEntries (renumber evs))"
    using assms by (rule renumbered_entries)
  let ?I = "event_ids evs" and ?es = "convertEntries evs"
  have ids: "e_id ` set ?es \<subseteq> ?I"
    by (simp add: convertEntries_ids)
  note rel = linearizes_relabel [OF g(2) ids]
  have "(\<exists>p. linearizes m (map (relabel_entry g) ?es) (g ` ?I) (m_Init m) p) \<longleftrightarrow>
      (\<exists>q. linearizes m ?es ?I (m_Init m) q)"
  proof
    assume "\<exists>p. linearizes m (map (relabel_entry g) ?es) (g ` ?I) (m_Init m) p"
    then obtain p where p: "linearizes m (map (relabel_entry g) ?es) (g ` ?I) (m_Init m) p" ..
    then have sp: "set p = g ` ?I"
      by (simp add: linearizes_def)
    define q where "q = map (inv_into ?I g) p"
    have "map g q = map id p"
      unfolding q_def map_map using sp by (intro map_cong) (auto simp: f_inv_into_f)
    then have q: "map g q = p"
      by simp
    have "set q \<subseteq> ?I"
      using sp inv_into_into [of _ g ?I] by (auto simp: q_def)
    from p rel [OF this, of m "m_Init m"] have "linearizes m ?es ?I (m_Init m) q"
      unfolding q by simp
    then show "\<exists>q. linearizes m ?es ?I (m_Init m) q" ..
  next
    assume "\<exists>q. linearizes m ?es ?I (m_Init m) q"
    then obtain q where q: "linearizes m ?es ?I (m_Init m) q" ..
    then have "set q \<subseteq> ?I"
      by (simp add: linearizes_def)
    from q rel [OF this, of m "m_Init m"]
    have "linearizes m (map (relabel_entry g) ?es) (g ` ?I) (m_Init m) (map g q)"
      by simp
    then show "\<exists>p. linearizes m (map (relabel_entry g) ?es) (g ` ?I) (m_Init m) p" ..
  qed
  then show ?thesis
    unfolding linearizable_def ev_linearizable_def g(3) [symmetric] by (simp only: g(1))
qed

end
