(* ===== verification/CheckParallel.thy ===== *)
theory CheckParallel
  imports CheckSingleCorrect HistoryCorrect
begin

text \<open>
  The concurrent part of the checker (\<open>src/6.5840/src/porcupine/checker.go\<close>, lines 274--373, and
  \<open>porcupine.go\<close>): \<open>checkParallel\<close> starts one goroutine for each subhistory, receives their answers
  from a buffered channel, and gives up at a timeout.

  The program is the step relation \<open>pstep\<close>: at any moment a goroutine may make a turn of its search,
  store its \<open>longest\<close>, or send its answer, and the main goroutine may receive an answer or the timeout.
  The flag \<open>kill\<close> is shared: a turn reads the value it has at that moment. The order in which Go
  iterates over a map is the parameter \<open>perm\<close>.
\<close>

section \<open>The state\<close>

datatype ('v, 's) goroutine =
    G_start "'v entry list"
  | G_run "nat option" "('v, 's) search"
  | G_stored bool
  | G_done bool

record 'v linearizationInfo =
  li_history :: "'v entry list list"
  li_partials :: "int list list list"

datatype 'v phase = Selecting | Collecting | Finished CheckResult "'v linearizationInfo"

record ('v, 's) pstate =
  p_gs :: "('v, 's) goroutine list"
  p_longest :: "longest list"
  p_results :: "bool list"
  p_kill :: bool
  p_ok :: bool
  p_timedOut :: bool
  p_count :: nat
  p_phase :: "'v phase"

definition p_init :: "'v entry list list \<Rightarrow> ('v, 's) pstate" where
  "p_init history =
     \<lparr>p_gs = map G_start history, p_longest = replicate (length history) [], p_results = [],
      p_kill = False, p_ok = True, p_timedOut = False, p_count = 0, p_phase = Selecting\<rparr>"

section \<open>The steps\<close>

text \<open>A goroutine: \<open>checkSingle\<close>, then \<open>longest[i] = l\<close>, then \<open>results <- ok\<close>. The channel has room for
  every answer, so sending never blocks. \<^term>\<open>None\<close> is a panic, or a goroutine that has ended.\<close>

definition go_step ::
  "('v, 's) Model \<Rightarrow> bool \<Rightarrow> nat \<Rightarrow> ('v, 's) pstate \<Rightarrow> ('v, 's) pstate option" where
  "go_step model computeInfo i st = do {
     g \<leftarrow> slice_get (p_gs st) i;
     case g of
       G_start subhistory \<Rightarrow> do {
         (headEntry, s) \<leftarrow> checkSingle_init model subhistory;
         Some (st\<lparr>p_gs := (p_gs st)[i := G_run headEntry s]\<rparr>)
       }
     | G_run headEntry s \<Rightarrow> do {
         c \<leftarrow> checkSingle_step model computeInfo (\<lambda>_. p_kill st) headEntry s;
         (case c of
            Continue s' \<Rightarrow> Some (st\<lparr>p_gs := (p_gs st)[i := G_run headEntry s']\<rparr>)
          | Return (ok, l) \<Rightarrow>
              Some (st\<lparr>p_gs := (p_gs st)[i := G_stored ok], p_longest := (p_longest st)[i := l]\<rparr>))
       }
     | G_stored ok \<Rightarrow> Some (st\<lparr>p_gs := (p_gs st)[i := G_done ok], p_results := p_results st @ [ok]\<rparr>)
     | G_done ok \<Rightarrow> None
   }"

definition select_result :: "bool \<Rightarrow> nat \<Rightarrow> ('v, 's) pstate \<Rightarrow> ('v, 's) pstate option" where
  "select_result computeInfo n st =
     (case p_results st of
        [] \<Rightarrow> None
      | result # rest \<Rightarrow>
          let count = p_count st + 1;
              ok = (p_ok st \<and> result);
              st = st\<lparr>p_results := rest, p_count := count, p_ok := ok\<rparr>
          in Some (if \<not> ok \<and> \<not> computeInfo then st\<lparr>p_kill := True, p_phase := Collecting\<rparr>
                   else if count \<ge> n then st\<lparr>p_phase := Collecting\<rparr>
                   else st))"

definition select_timeout :: "('v, 's) pstate \<Rightarrow> ('v, 's) pstate" where
  "select_timeout st = st\<lparr>p_timedOut := True, p_kill := True, p_phase := Collecting\<rparr>"

text \<open>The set of distinct pointers of one \<open>longest[i]\<close>, and the slices they point to.\<close>

definition unique_partials ::
  "((nat \<times> int list) list \<Rightarrow> (nat \<times> int list) list) \<Rightarrow> longest \<Rightarrow> int list list" where
  "unique_partials perm lg = map snd (perm (remdups (map the (filter (\<lambda>v. v \<noteq> None) lg))))"

definition check_result :: "bool \<Rightarrow> bool \<Rightarrow> CheckResult" where
  "check_result ok timedOut = (if \<not> ok then Illegal else if timedOut then Unknown else Ok)"

definition collect ::
  "((nat \<times> int list) list \<Rightarrow> (nat \<times> int list) list) \<Rightarrow> bool \<Rightarrow> 'v entry list list \<Rightarrow>
   ('v, 's) pstate \<Rightarrow> ('v, 's) pstate option" where
  "collect perm computeInfo history st =
     (if computeInfo \<and> p_count st < length history then
        (case p_results st of
           [] \<Rightarrow> None
         | _ # rest \<Rightarrow> Some (st\<lparr>p_results := rest, p_count := p_count st + 1\<rparr>))
      else
        Some (st\<lparr>p_phase := Finished (check_result (p_ok st) (p_timedOut st))
          (if computeInfo
           then \<lparr>li_history = history, li_partials = map (unique_partials perm) (p_longest st)\<rparr>
           else \<lparr>li_history = [], li_partials = []\<rparr>)\<rparr>))"

inductive pstep ::
  "('v, 's) Model \<Rightarrow> ((nat \<times> int list) list \<Rightarrow> (nat \<times> int list) list) \<Rightarrow> bool \<Rightarrow> int \<Rightarrow>
   'v entry list list \<Rightarrow> ('v, 's) pstate \<Rightarrow> ('v, 's) pstate \<Rightarrow> bool"
  for m perm computeInfo timeout history where
  pstep_go: "go_step m computeInfo i st = Some st' \<Longrightarrow> pstep m perm computeInfo timeout history st st'"
| pstep_result: "p_phase st = Selecting \<Longrightarrow>
    select_result computeInfo (length history) st = Some st' \<Longrightarrow>
    pstep m perm computeInfo timeout history st st'"
| pstep_timeout: "p_phase st = Selecting \<Longrightarrow> timeout > 0 \<Longrightarrow>
    pstep m perm computeInfo timeout history st (select_timeout st)"
| pstep_collect: "p_phase st = Collecting \<Longrightarrow> collect perm computeInfo history st = Some st' \<Longrightarrow>
    pstep m perm computeInfo timeout history st st'"

text \<open>The states \<open>checkParallel\<close> can be in, and the results it can return.\<close>

definition p_reachable ::
  "('v, 's) Model \<Rightarrow> ((nat \<times> int list) list \<Rightarrow> (nat \<times> int list) list) \<Rightarrow> bool \<Rightarrow> int \<Rightarrow>
   'v entry list list \<Rightarrow> ('v, 's) pstate \<Rightarrow> bool" where
  "p_reachable m perm computeInfo timeout history st \<longleftrightarrow>
     (pstep m perm computeInfo timeout history)\<^sup>*\<^sup>* (p_init history) st"

definition checkParallel ::
  "('v, 's) Model \<Rightarrow> ((nat \<times> int list) list \<Rightarrow> (nat \<times> int list) list) \<Rightarrow> bool \<Rightarrow> int \<Rightarrow>
   'v entry list list \<Rightarrow> CheckResult \<Rightarrow> 'v linearizationInfo \<Rightarrow> bool" where
  "checkParallel m perm computeInfo timeout history res info \<longleftrightarrow>
     (\<exists>st. p_reachable m perm computeInfo timeout history st \<and> p_phase st = Finished res info)"

section \<open>The invariant\<close>

definition well_posed :: "('v, 's) Model \<Rightarrow> 'v entry list list \<Rightarrow> bool" where
  "well_posed m history \<longleftrightarrow> (\<forall>es \<in> set history. wf_history es \<and> steps_defined m es)"

text \<open>
  What a goroutine has to do with its subhistory, and a bound \<open>k\<close> on the steps it still makes.
\<close>

fun g_ok ::
  "('v, 's) Model \<Rightarrow> 'v entry list \<Rightarrow> bool \<Rightarrow> longest \<Rightarrow> nat \<Rightarrow> ('v, 's) goroutine \<Rightarrow> bool" where
  "g_ok m es kill lg k (G_start sub) \<longleftrightarrow> sub = es \<and> k = a_cost (length es) (a_init m es) + 3"
| "g_ok m es kill lg k (G_run headEntry s) \<longleftrightarrow> headEntry = Some (length es) \<and>
     (\<exists>a. a_inv m es a \<and> sim m es a s \<and> k = a_cost (length es) a + 2)"
| "g_ok m es kill lg k (G_stored ok) \<longleftrightarrow> answer_ok m es (\<lambda>_. kill) ok lg \<and> k = 1"
| "g_ok m es kill lg k (G_done ok) \<longleftrightarrow> answer_ok m es (\<lambda>_. kill) ok lg \<and> k = 0"

fun done_ok :: "('v, 's) goroutine \<Rightarrow> bool option" where
  "done_ok (G_done ok) = Some ok"
| "done_ok _ = None"

definition answers :: "('v, 's) goroutine list \<Rightarrow> bool multiset" where
  "answers gs = mset (map (the \<circ> done_ok) (filter (\<lambda>g. done_ok g \<noteq> None) gs))"

definition info_ok ::
  "('v, 's) Model \<Rightarrow> 'v entry list list \<Rightarrow> CheckResult \<Rightarrow> 'v linearizationInfo \<Rightarrow> bool" where
  "info_ok m history res info \<longleftrightarrow>
     li_history info = history \<and> length (li_partials info) = length history \<and>
     (\<forall>i < length history.
        (\<forall>p \<in> set (li_partials info ! i). partial_linearization m (history ! i) p) \<and>
        (res = Ok \<and> history ! i \<noteq> [] \<longrightarrow>
           (\<exists>p. li_partials info ! i = [p] \<and>
                linearizes m (history ! i) (history_ids (history ! i)) (m_Init m) p)))"

definition result_ok :: "('v, 's) Model \<Rightarrow> 'v entry list list \<Rightarrow> int \<Rightarrow> CheckResult \<Rightarrow> bool" where
  "result_ok m history timeout res \<longleftrightarrow>
     (case res of
        Ok \<Rightarrow> \<forall>es \<in> set history. linearizable m es
      | Illegal \<Rightarrow> \<exists>es \<in> set history. \<not> linearizable m es
      | Unknown \<Rightarrow> timeout > 0)"

definition phase_ok ::
  "('v, 's) Model \<Rightarrow> bool \<Rightarrow> int \<Rightarrow> 'v entry list list \<Rightarrow> bool multiset \<Rightarrow> ('v, 's) pstate \<Rightarrow> bool" where
  "phase_ok m computeInfo timeout history R st \<longleftrightarrow>
     (case p_phase st of
        Selecting \<Rightarrow> \<not> p_kill st \<and> \<not> p_timedOut st \<and> (p_ok st \<longleftrightarrow> False \<notin># R) \<and>
          (\<not> p_ok st \<longrightarrow> computeInfo) \<and> (history \<noteq> [] \<longrightarrow> p_count st < length history)
      | Collecting \<Rightarrow>
          (p_timedOut st \<longrightarrow> timeout > 0) \<and>
          (\<not> p_ok st \<longrightarrow> (\<exists>es \<in> set history. \<not> linearizable m es)) \<and>
          (p_ok st \<and> \<not> p_timedOut st \<longrightarrow> (\<forall>g \<in> set (p_gs st). g = G_done True))
      | Finished res info \<Rightarrow>
          result_ok m history timeout res \<and> (computeInfo \<longrightarrow> info_ok m history res info))"

definition p_inv ::
  "('v, 's) Model \<Rightarrow> bool \<Rightarrow> int \<Rightarrow> 'v entry list list \<Rightarrow> nat list \<Rightarrow> ('v, 's) pstate \<Rightarrow> bool" where
  "p_inv m computeInfo timeout history ks st \<longleftrightarrow>
     length (p_gs st) = length history \<and> length (p_longest st) = length history \<and>
     length ks = length history \<and>
     (\<forall>i < length history. g_ok m (history ! i) (p_kill st) (p_longest st ! i) (ks ! i) (p_gs st ! i)) \<and>
     (\<exists>R. p_count st = size R \<and> mset (p_results st) + R = answers (p_gs st) \<and>
          phase_ok m computeInfo timeout history R st)"

lemma answers_split: "answers (xs @ g # ys) =
   answers xs + (case done_ok g of None \<Rightarrow> {#} | Some ok \<Rightarrow> {#ok#}) + answers ys"
  by (simp add: answers_def split: option.split)

lemma answers_update:
  assumes "i < length gs" "done_ok (gs ! i) = None"
  shows "answers (gs[i := g]) = answers gs + (case done_ok g of None \<Rightarrow> {#} | Some ok \<Rightarrow> {#ok#})"
proof -
  have "answers gs = answers (take i gs) + answers (drop (Suc i) gs)"
    using answers_split [of "take i gs" "gs ! i" "drop (Suc i) gs"] assms
    by (simp add: id_take_nth_drop [symmetric])
  then show ?thesis
    using assms(1) by (simp add: upd_conv_take_nth_drop answers_split)
qed

lemma size_answers: "size (answers gs) = length (filter (\<lambda>g. done_ok g \<noteq> None) gs)"
  unfolding answers_def size_mset length_map ..

lemma size_answers_le: "size (answers gs) \<le> length gs"
  by (simp only: size_answers length_filter_le)

lemma all_answered:
  assumes "size (answers gs) = length gs" "g \<in> set gs"
  shows "\<exists>ok. g = G_done ok \<and> ok \<in># answers gs"
proof -
  have "done_ok g \<noteq> None"
    using assms length_filter_less [of g gs "\<lambda>g. done_ok g \<noteq> None"] unfolding size_answers by auto
  then obtain ok where g: "g = G_done ok"
    by (cases g) auto
  have "answers gs = mset (map (the \<circ> done_ok) (filter (\<lambda>g. done_ok g \<noteq> None) gs))"
    by (rule answers_def)
  also have "ok \<in># \<dots>"
    using assms(2) g by (force simp: image_iff)
  finally show ?thesis
    using g by simp
qed

lemma answered:
  assumes "ok \<in># answers gs"
  obtains i where "i < length gs" "gs ! i = G_done ok"
proof -
  from assms obtain g where "g \<in> set gs" "done_ok g = Some ok"
    by (auto simp: answers_def)
  then have "G_done ok \<in> set gs"
    by (auto elim: done_ok.elims)
  then show thesis
    using that by (auto simp: in_set_conv_nth)
qed

section \<open>Every step keeps the invariant\<close>

lemma answer_ok_kill:
  "answer_ok m es (\<lambda>_. kill) ok lg \<Longrightarrow> answer_ok m es (\<lambda>_. kill \<or> kill') ok lg"
  by (auto simp: answer_ok_def split: if_splits)

lemma g_ok_kill: "g_ok m es kill lg k g \<Longrightarrow> g_ok m es (kill \<or> kill') lg k g"
  by (cases g) (auto intro: answer_ok_kill)

lemma g_ok_killed: "g_ok m es kill lg k g \<Longrightarrow> g_ok m es True lg k g"
  using g_ok_kill [of m es kill lg k g True] by simp

lemma phase_ok_update:
  assumes "phase_ok m ci timeout history R st" "i < length (p_gs st)" "done_ok (p_gs st ! i) = None"
  shows "phase_ok m ci timeout history R (st\<lparr>p_gs := (p_gs st)[i := g], p_longest := lg, p_results := rs\<rparr>)"
proof (cases "p_phase st")
  case Collecting
  have "p_gs st ! i \<noteq> G_done True" "p_gs st ! i \<in> set (p_gs st)"
    using assms(2,3) by auto
  then have "p_ok st \<longrightarrow> p_timedOut st"
    using assms(1) Collecting unfolding phase_ok_def by auto
  then show ?thesis
    using assms(1) Collecting by (auto simp: phase_ok_def)
qed (use assms(1) in \<open>simp_all add: phase_ok_def\<close>)

context porcupine_model
begin

lemma g_step_ok:
  assumes wf: "wf_history es" "steps_defined m es"
    and inv: "p_inv m ci timeout history ks st" and i: "i < length history" "history ! i = es"
    and nd: "done_ok (p_gs st ! i) = None"
  shows "\<exists>st' k. go_step m ci i st = Some st' \<and> k < ks ! i \<and> p_inv m ci timeout history (ks[i := k]) st'"
proof -
  let ?gs = "p_gs st" and ?lg = "p_longest st"
  have len: "length ?gs = length history" "length ?lg = length history" "length ks = length history"
    and all: "\<forall>j < length history. g_ok m (history ! j) (p_kill st) (?lg ! j) (ks ! j) (?gs ! j)"
    using inv by (auto simp: p_inv_def)
  obtain R where R: "p_count st = size R" "mset (p_results st) + R = answers ?gs"
      "phase_ok m ci timeout history R st"
    using inv by (auto simp: p_inv_def)
  have g: "g_ok m es (p_kill st) (?lg ! i) (ks ! i) (?gs ! i)"
    using all i by blast
  have upd: "p_inv m ci timeout history (ks[i := k]) (st\<lparr>p_gs := ?gs[i := g'], p_longest := ?lg[i := l],
      p_results := p_results st @ (case done_ok g' of None \<Rightarrow> [] | Some ok \<Rightarrow> [ok])\<rparr>)"
    if "g_ok m es (p_kill st) l k g'" for g' l k
  proof -
    have "mset (p_results st @ (case done_ok g' of None \<Rightarrow> [] | Some ok \<Rightarrow> [ok])) + R = answers (?gs[i := g'])"
      using R(2) i len nd by (simp add: answers_update split: option.split)
    moreover have "g_ok m (history ! j) (p_kill st) (?lg[i := l] ! j) (ks[i := k] ! j) (?gs[i := g'] ! j)"
      if "j < length history" for j
      using all that \<open>g_ok m es (p_kill st) l k g'\<close> i len by (cases "j = i") auto
    ultimately show ?thesis
      using R phase_ok_update [OF R(3) _ nd] i len by (auto simp: p_inv_def)
  qed
  have same: "?lg[i := ?lg ! i] = ?lg" by simp
  show ?thesis
  proof (cases "?gs ! i")
    case (G_start sub)
    obtain s where s: "checkSingle_init m es = Some (Some (length es), s)" "sim m es (a_init m es) s"
      using wf(1) by (rule checkSingle_init_ok)
    have "g_ok m es (p_kill st) (?lg ! i) (a_cost (length es) (a_init m es) + 2) (G_run (Some (length es)) s)"
      using s(2) a_inv_init by auto
    from upd [OF this] s(1) g G_start i len same show ?thesis
      by (intro exI [of _ "st\<lparr>p_gs := ?gs[i := G_run (Some (length es)) s]\<rparr>"]
          exI [of _ "a_cost (length es) (a_init m es) + 2"]) (auto simp: go_step_def)
  next
    case (G_run headEntry s)
    with g obtain a where a: "headEntry = Some (length es)" "a_inv m es a" "sim m es a s"
        "ks ! i = a_cost (length es) a + 2" by auto
    let ?step = "checkSingle_step m ci (\<lambda>_. p_kill st) (Some (length es)) s"
    from sim_step [OF wf a(2,3), of ci "\<lambda>_. p_kill st"] show ?thesis
    proof (elim disjE exE conjE)
      fix ok lg assume r: "?step = Some (Return (ok, lg))" "answer_ok m es (\<lambda>_. p_kill st) ok lg"
      then have "g_ok m es (p_kill st) lg 1 (G_stored ok)" by simp
      from upd [OF this] r(1) a G_run i len show ?thesis
        by (intro exI [of _ "st\<lparr>p_gs := ?gs[i := G_stored ok], p_longest := ?lg[i := lg]\<rparr>"] exI [of _ 1])
          (simp add: go_step_def)
    next
      fix s' b assume r: "?step = Some (Continue s')" "astep m eq es a b" "sim m es b s'"
      have b: "a_inv m es b"
        by (rule a_inv_astep [OF r(2) wf(1) a(2)])
      have "g_ok m es (p_kill st) (?lg ! i) (a_cost (length es) b + 2) (G_run (Some (length es)) s')"
        using b r(3) by auto
      from upd [OF this] r(1) a G_run i len same astep_decreases [OF r(2) wf(1) a(2) b] show ?thesis
        by (intro exI [of _ "st\<lparr>p_gs := ?gs[i := G_run (Some (length es)) s']\<rparr>"]
            exI [of _ "a_cost (length es) b + 2"]) (simp add: go_step_def)
    qed
  next
    case (G_stored ok)
    with g have "g_ok m es (p_kill st) (?lg ! i) 0 (G_done ok)" by simp
    from upd [OF this] g G_stored i len same show ?thesis
      by (intro exI [of _ "st\<lparr>p_gs := ?gs[i := G_done ok], p_results := p_results st @ [ok]\<rparr>"] exI [of _ 0])
        (simp add: go_step_def)
  qed (use nd in simp)
qed

end

lemma p_invI:
  assumes "length (p_gs st) = length history" "length (p_longest st) = length history"
    "length ks = length history"
    "\<And>i. i < length history \<Longrightarrow>
       g_ok m (history ! i) (p_kill st) (p_longest st ! i) (ks ! i) (p_gs st ! i)"
    "p_count st = size R" "mset (p_results st) + R = answers (p_gs st)"
    "phase_ok m ci timeout history R st"
  shows "p_inv m ci timeout history ks st"
  using assms unfolding p_inv_def by blast

lemma p_inv_lengths:
  assumes "p_inv m ci timeout history ks st"
  shows "length (p_gs st) = length history" "length (p_longest st) = length history"
    "length ks = length history"
  using assms by (simp_all add: p_inv_def)

lemma p_invE:
  assumes "p_inv m ci timeout history ks st"
  obtains R where "p_count st = size R" "mset (p_results st) + R = answers (p_gs st)"
    "phase_ok m ci timeout history R st" "length (p_gs st) = length history"
    "\<And>i. i < length history \<Longrightarrow>
       g_ok m (history ! i) (p_kill st) (p_longest st ! i) (ks ! i) (p_gs st ! i)"
    "size R \<le> length history"
proof -
  from assms obtain R where R: "p_count st = size R" "mset (p_results st) + R = answers (p_gs st)"
      "phase_ok m ci timeout history R st" "length (p_gs st) = length history"
    by (auto simp: p_inv_def)
  have "size R \<le> size (answers (p_gs st))"
    unfolding R(2) [symmetric] by simp
  then have "size R \<le> length history"
    using size_answers_le [of "p_gs st"] R(4) by simp
  with R assms show thesis
    by (intro that) (auto simp: p_inv_def)
qed

text \<open>A negative answer given while \<open>kill\<close> is not set, and all answers positive.\<close>

lemma false_answer:
  assumes "\<And>i. i < length history \<Longrightarrow> g_ok m (history ! i) False (lg i) (ks ! i) (gs ! i)"
    "length gs = length history" "False \<in># answers gs"
  shows "\<exists>es \<in> set history. \<not> linearizable m es"
proof -
  from assms(3) obtain i where i: "i < length gs" "gs ! i = G_done False"
    by (rule answered)
  with assms(1) [of i] assms(2) have "\<not> linearizable m (history ! i)"
    by (simp add: answer_ok_def)
  with i assms(2) show ?thesis by auto
qed

lemma all_true:
  assumes "rs + R = answers gs" "length gs \<le> size R" "False \<notin># R" "g \<in> set gs"
  shows "g = G_done True"
proof -
  have "size rs + size R = size (answers gs)"
    by (metis assms(1) size_union)
  with assms(2) size_answers_le [of gs] have "size rs = 0" "size (answers gs) = length gs"
    by linarith+
  with assms(1) have "R = answers gs" by simp
  with all_answered [OF \<open>size (answers gs) = length gs\<close> assms(4)] assms(3) show ?thesis
    by (metis (full_types))
qed

lemma select_result_ok:
  assumes inv: "p_inv m ci timeout history ks st" and ph: "p_phase st = Selecting"
    and step: "select_result ci (length history) st = Some st'"
  shows "p_inv m ci timeout history ks st' \<and> p_count st' = Suc (p_count st) \<and>
    p_count st' \<le> length history \<and> p_phase st' \<in> {Selecting, Collecting}"
proof -
  from inv obtain R where R: "p_count st = size R" "mset (p_results st) + R = answers (p_gs st)"
      "phase_ok m ci timeout history R st" "length (p_gs st) = length history"
    and g: "\<And>i. i < length history \<Longrightarrow>
       g_ok m (history ! i) (p_kill st) (p_longest st ! i) (ks ! i) (p_gs st ! i)"
    by (rule p_invE) blast
  have sel: "\<not> p_kill st" "\<not> p_timedOut st" "p_ok st \<longleftrightarrow> False \<notin># R" "\<not> p_ok st \<longrightarrow> ci"
    using R(3) ph by (simp_all add: phase_ok_def)
  from step obtain r rs where rs: "p_results st = r # rs"
    by (auto simp: select_result_def split: list.splits)
  define R' where "R' = add_mset r R"
  have R': "mset rs + R' = answers (p_gs st)" "size R' = Suc (size R)"
    using R(2) rs by (simp_all add: R'_def)
  have "size R' \<le> size (answers (p_gs st))"
    unfolding R'(1) [symmetric] by simp
  then have cnt: "size R' \<le> length history"
    using size_answers_le [of "p_gs st"] R(4) by simp
  have ok': "(p_ok st \<and> r) \<longleftrightarrow> False \<notin># R'"
    using sel(3) by (auto simp: R'_def)
  have neg: "\<exists>es \<in> set history. \<not> linearizable m es" if "\<not> (p_ok st \<and> r)"
  proof (rule false_answer [OF _ R(4)])
    show "i < length history \<Longrightarrow> g_ok m (history ! i) False (p_longest st ! i) (ks ! i) (p_gs st ! i)" for i
      using g sel(1) by simp
    have "False \<in># R'" using that ok' by simp
    then show "False \<in># answers (p_gs st)"
      unfolding R'(1) [symmetric] by simp
  qed
  have pos: "\<forall>g \<in> set (p_gs st). g = G_done True" if "p_ok st \<and> r" "length history \<le> size R'"
    using all_true [OF R'(1)] that ok' R(4) by simp
  consider (kill) "\<not> (p_ok st \<and> r)" "\<not> ci" | (last) "p_ok st \<and> r \<or> ci" "length history \<le> size R'"
    | (more) "p_ok st \<and> r \<or> ci" "size R' < length history"
    by linarith
  then show ?thesis
  proof cases
    case kill
    with step rs have st': "st' = st\<lparr>p_results := rs, p_count := Suc (p_count st), p_ok := False,
        p_kill := True, p_phase := Collecting\<rparr>"
      by (auto simp: select_result_def Let_def)
    have "phase_ok m ci timeout history R' st'"
      using neg [OF kill(1)] sel(2) by (simp add: st' phase_ok_def)
    then have "p_inv m ci timeout history ks st'"
      using R' R(1) g_ok_killed [OF g] p_inv_lengths [OF inv]
      by (intro p_invI [where R = R']) (simp_all add: st')
    with R' R(1) cnt show ?thesis
      by (simp add: st')
  next
    case last
    with step rs R(1) R'(2) have st': "st' = st\<lparr>p_results := rs, p_count := Suc (p_count st),
        p_ok := p_ok st \<and> r, p_phase := Collecting\<rparr>"
      by (auto simp: select_result_def Let_def)
    have "phase_ok m ci timeout history R' st'"
      using neg pos [OF _ last(2)] sel(2) by (auto simp: st' phase_ok_def)
    then have "p_inv m ci timeout history ks st'"
      using R' R(1) g p_inv_lengths [OF inv] by (intro p_invI [where R = R']) (simp_all add: st')
    with R' R(1) cnt show ?thesis
      by (simp add: st')
  next
    case more
    with step rs R(1) R'(2) have st': "st' = st\<lparr>p_results := rs, p_count := Suc (p_count st),
        p_ok := p_ok st \<and> r\<rparr>"
      by (auto simp: select_result_def Let_def)
    have "phase_ok m ci timeout history R' st'"
      using more ok' sel R(1) R'(2) ph by (auto simp: st' phase_ok_def)
    then have "p_inv m ci timeout history ks st'"
      using R' R(1) g p_inv_lengths [OF inv] by (intro p_invI [where R = R']) (simp_all add: st')
    with R' R(1) cnt ph show ?thesis
      by (simp add: st')
  qed
qed

lemma select_timeout_ok:
  assumes inv: "p_inv m ci timeout history ks st" and ph: "p_phase st = Selecting" and tm: "timeout > 0"
  shows "p_inv m ci timeout history ks (select_timeout st)"
proof -
  from inv obtain R where R: "p_count st = size R" "mset (p_results st) + R = answers (p_gs st)"
      "phase_ok m ci timeout history R st" "length (p_gs st) = length history"
    and g: "\<And>i. i < length history \<Longrightarrow>
       g_ok m (history ! i) (p_kill st) (p_longest st ! i) (ks ! i) (p_gs st ! i)"
    by (rule p_invE) blast
  have sel: "\<not> p_kill st" "p_ok st \<longleftrightarrow> False \<notin># R"
    using R(3) ph by (simp_all add: phase_ok_def)
  have "\<exists>es \<in> set history. \<not> linearizable m es" if "\<not> p_ok st"
  proof (rule false_answer [OF _ R(4)])
    show "i < length history \<Longrightarrow> g_ok m (history ! i) False (p_longest st ! i) (ks ! i) (p_gs st ! i)" for i
      using g sel(1) by simp
    show "False \<in># answers (p_gs st)"
      using that sel(2) unfolding R(2) [symmetric] by simp
  qed
  then have "phase_ok m ci timeout history R (select_timeout st)"
    using tm by (simp add: phase_ok_def select_timeout_def)
  then show ?thesis
    using R g_ok_killed [OF g] p_inv_lengths [OF inv]
    by (intro p_invI [where R = R]) (simp_all add: select_timeout_def)
qed

section \<open>The result\<close>

lemma unique_partials_ok:
  assumes perm: "\<And>xs. mset (perm xs) = mset xs" and lg: "longest_ok m es lg"
    and p: "p \<in> set (unique_partials perm lg)"
  shows "partial_linearization m es p"
proof -
  have "set (perm xs) = set xs" for xs
    using perm mset_eq_setD by blast
  with p obtain r where "Some (r, p) \<in> set lg"
    by (auto simp: unique_partials_def)
  then obtain i where "i < length lg" "lg ! i = Some (r, p)"
    by (auto simp: in_set_conv_nth)
  with lg show ?thesis
    by (auto simp: longest_ok_def)
qed

lemma unique_partials_replicate:
  assumes perm: "\<And>xs. mset (perm xs) = mset xs" and "0 < k"
  shows "unique_partials perm (replicate k (Some (r, p))) = [p]"
proof -
  have "remdups (replicate (Suc j) x) = [x]" for j and x :: "nat \<times> int list"
    by (induction j) auto
  then have "remdups (map the (filter (\<lambda>v. v \<noteq> None) (replicate k (Some (r, p))))) = [(r, p)]"
    using assms(2) by (cases k) (simp_all add: filter_replicate del: replicate_Suc)
  moreover have "perm [(r, p)] = [(r, p)]"
    using perm [of "[(r, p)]"] by simp
  ultimately show ?thesis
    by (simp add: unique_partials_def)
qed

lemma finished_ok:
  assumes g: "\<And>i. i < length history \<Longrightarrow> g_ok m (history ! i) kill (lgs ! i) (ks ! i) (gs ! i)"
    and len: "length gs = length history"
    and ph: "timedOut \<longrightarrow> timeout > 0" "\<not> ok \<longrightarrow> (\<exists>es \<in> set history. \<not> linearizable m es)"
      "ok \<and> \<not> timedOut \<longrightarrow> (\<forall>g \<in> set gs. g = G_done True)"
  shows "result_ok m history timeout (check_result ok timedOut)"
proof -
  have "linearizable m es" if "ok \<and> \<not> timedOut" "es \<in> set history" for es
  proof -
    from that(2) obtain i where i: "i < length history" "es = history ! i"
      by (auto simp: in_set_conv_nth)
    with that(1) ph(3) len have "gs ! i = G_done True" by auto
    with g [OF i(1)] i(2) show ?thesis
      by (auto simp: answer_ok_def linearizable_def)
  qed
  with ph show ?thesis
    by (auto simp: result_ok_def check_result_def)
qed

lemma partials_ok:
  assumes perm: "\<And>xs. mset (perm xs) = mset xs"
    and g: "\<And>i. i < length history \<Longrightarrow> g_ok m (history ! i) kill (lgs ! i) (ks ! i) (gs ! i)"
    and len: "length gs = length history" "length lgs = length history"
    and wf: "\<And>es. es \<in> set history \<Longrightarrow> wf_history es"
    and all: "\<And>i. i < length history \<Longrightarrow> \<exists>ok. gs ! i = G_done ok \<and> (res = Ok \<longrightarrow> ok)"
  shows "info_ok m history res \<lparr>li_history = history, li_partials = map (unique_partials perm) lgs\<rparr>"
proof -
  have "partial_linearization m (history ! i) p"
    if "i < length history" "p \<in> set (unique_partials perm (lgs ! i))" for i p
    using g [OF that(1)] all [OF that(1)] unique_partials_ok [OF perm _ that(2)]
    by (auto simp: answer_ok_def)
  moreover have "\<exists>p. unique_partials perm (lgs ! i) = [p] \<and>
      linearizes m (history ! i) (history_ids (history ! i)) (m_Init m) p"
    if i: "i < length history" "res = Ok" "history ! i \<noteq> []" for i
  proof -
    have "gs ! i = G_done True"
      using all [OF i(1)] i(2) by auto
    with g [OF i(1)] obtain r p where rp:
      "linearizes m (history ! i) (history_ids (history ! i)) (m_Init m) p"
      "lgs ! i = replicate (length (history ! i) div 2) (Some (r, p))"
      by (auto simp: answer_ok_def)
    have "hd (history ! i) \<in> set (history ! i)"
      using i(3) by simp
    then have "history_ids (history ! i) \<noteq> {}"
      using wf_historyD(3) [OF wf [OF nth_mem [OF i(1)]]] by blast
    then have "0 < length (history ! i) div 2"
      unfolding history_ids_def by (cases "length (history ! i) div 2 = 0") simp_all
    then show ?thesis
      using rp unique_partials_replicate [OF perm] by auto
  qed
  ultimately show ?thesis
    using len(2) by (simp add: info_ok_def)
qed

lemma collect_ok:
  assumes inv: "p_inv m ci timeout history ks st" and ph: "p_phase st = Collecting"
    and wf: "well_posed m history" and perm: "\<And>xs. mset (perm xs) = mset xs"
    and step: "collect perm ci history st = Some st'"
  shows "p_inv m ci timeout history ks st' \<and>
    (p_phase st' = Collecting \<and> p_count st' = Suc (p_count st) \<and> p_count st < length history \<or>
     (\<exists>res info. p_phase st' = Finished res info))"
proof -
  from inv obtain R where R: "p_count st = size R" "mset (p_results st) + R = answers (p_gs st)"
      "phase_ok m ci timeout history R st" "length (p_gs st) = length history"
    and g: "\<And>i. i < length history \<Longrightarrow>
       g_ok m (history ! i) (p_kill st) (p_longest st ! i) (ks ! i) (p_gs st ! i)"
    by (rule p_invE) blast
  have col: "p_timedOut st \<longrightarrow> timeout > 0"
    "\<not> p_ok st \<longrightarrow> (\<exists>es \<in> set history. \<not> linearizable m es)"
    "p_ok st \<and> \<not> p_timedOut st \<longrightarrow> (\<forall>g \<in> set (p_gs st). g = G_done True)"
    using R(3) ph by (simp_all add: phase_ok_def)
  have lens: "length (p_longest st) = length history"
    using inv by (simp add: p_inv_def)
  show ?thesis
  proof (cases "ci \<and> p_count st < length history")
    case True
    with step obtain r rs where rs: "p_results st = r # rs"
      "st' = st\<lparr>p_results := rs, p_count := p_count st + 1\<rparr>"
      by (auto simp: collect_def split: list.splits)
    have "phase_ok m ci timeout history (add_mset r R) st'"
      using col ph rs by (simp add: phase_ok_def)
    then have "p_inv m ci timeout history ks st'"
      using R g rs p_inv_lengths [OF inv] by (intro p_invI [where R = "add_mset r R"]) simp_all
    with rs ph True show ?thesis
      by simp
  next
    case False
    let ?res = "check_result (p_ok st) (p_timedOut st)"
    define info where "info = (if ci
      then \<lparr>li_history = history, li_partials = map (unique_partials perm) (p_longest st)\<rparr>
      else \<lparr>li_history = [], li_partials = []\<rparr>)"
    have st': "st' = st\<lparr>p_phase := Finished ?res info\<rparr>"
      using step False by (auto simp: collect_def info_def)
    have "info_ok m history ?res info" if ci
    proof -
      have all: "\<exists>ok. p_gs st ! i = G_done ok \<and> (?res = Ok \<longrightarrow> ok)" if i: "i < length history" for i
      proof -
        have "size (mset (p_results st)) + size R = size (answers (p_gs st))"
          by (metis R(2) size_union)
        then have "size (answers (p_gs st)) = length (p_gs st)"
          using False \<open>ci\<close> R(1,4) size_answers_le [of "p_gs st"] by simp
        with all_answered [of "p_gs st" "p_gs st ! i"] i R(4) obtain ok where "p_gs st ! i = G_done ok"
          by auto
        moreover have "?res = Ok \<longrightarrow> p_gs st ! i = G_done True"
          using col(3) i R(4) by (auto simp: check_result_def split: if_splits)
        ultimately show ?thesis by auto
      qed
      have "wf_history es" if "es \<in> set history" for es
        using wf that by (simp add: well_posed_def)
      from partials_ok [OF perm g R(4) lens this all] \<open>ci\<close> show ?thesis
        by (simp add: info_def)
    qed
    then have "phase_ok m ci timeout history R st'"
      using finished_ok [OF g R(4) col] by (simp add: phase_ok_def st')
    then have "p_inv m ci timeout history ks st'"
      using R g p_inv_lengths [OF inv] by (intro p_invI [where R = R]) (simp_all add: st')
    then show ?thesis
      by (simp add: st')
  qed
qed

section \<open>Runs\<close>

fun phase_rank :: "nat \<Rightarrow> nat \<Rightarrow> 'v phase \<Rightarrow> nat" where
  "phase_rank n cnt Selecting = 2 * n + 2 - cnt"
| "phase_rank n cnt Collecting = n + 1 - cnt"
| "phase_rank n cnt (Finished res info) = 0"

definition p_rank :: "'v entry list list \<Rightarrow> nat list \<Rightarrow> ('v, 's) pstate \<Rightarrow> nat" where
  "p_rank history ks st = sum_list ks + phase_rank (length history) (p_count st) (p_phase st)"

lemma sum_list_update_less:
  "i < length ks \<Longrightarrow> k < ks ! i \<Longrightarrow> sum_list (ks[i := k]) < sum_list (ks :: nat list)"
proof (induction ks arbitrary: i)
  case (Cons x ks)
  then show ?case by (cases i) auto
qed simp

lemma go_step_running:
  assumes "go_step m ci i st = Some st'"
  shows "i < length (p_gs st)" "done_ok (p_gs st ! i) = None"
    "p_phase st' = p_phase st" "p_count st' = p_count st"
  using assms
  by (auto simp: go_step_def slice_get_Some_iff split: bind_splits goroutine.splits ctl.splits)

text \<open>What the run relies on: complete histories, and that ranging over a map visits every key once.\<close>

definition checkable ::
  "('v, 's) Model \<Rightarrow> ((nat \<times> int list) list \<Rightarrow> (nat \<times> int list) list) \<Rightarrow> 'v entry list list \<Rightarrow> bool" where
  "checkable m perm history \<longleftrightarrow> well_posed m history \<and> (\<forall>xs. mset (perm xs) = mset xs)"

lemma checkableD:
  assumes "checkable m perm history"
  shows "well_posed m history" "mset (perm xs) = mset xs"
  using assms by (auto simp: checkable_def)

context porcupine_model
begin

lemma go_ok:
  assumes ck: "checkable m perm history" and inv: "p_inv m ci timeout history ks st" and i: "i < length history"
    and nd: "done_ok (p_gs st ! i) = None"
  obtains st' k where "go_step m ci i st = Some st'" "k < ks ! i"
    "p_inv m ci timeout history (ks[i := k]) st'"
proof -
  have "wf_history (history ! i)" "steps_defined m (history ! i)"
    using checkableD(1) [OF ck] i by (auto simp: well_posed_def)
  from g_step_ok [OF this inv i refl nd] that show thesis by blast
qed

lemma pstep_ok:
  assumes ck: "checkable m perm history" and inv: "p_inv m ci timeout history ks st" and step: "pstep m perm ci timeout history st st'"
  shows "\<exists>ks'. p_inv m ci timeout history ks' st' \<and> p_rank history ks' st' < p_rank history ks st"
  using step
proof cases
  case (pstep_go i)
  note run = go_step_running [OF this]
  have i: "i < length history"
    using run(1) p_inv_lengths [OF inv] by simp
  obtain st'' k where k: "go_step m ci i st = Some st''" "k < ks ! i"
      "p_inv m ci timeout history (ks[i := k]) st''"
    using ck inv i run(2) by (rule go_ok)
  have "sum_list (ks[i := k]) < sum_list ks"
    using sum_list_update_less k(2) i p_inv_lengths(3) [OF inv] by simp
  then show ?thesis
    using k pstep_go run(3,4) by (intro exI [of _ "ks[i := k]"]) (simp add: p_rank_def)
next
  case pstep_result
  from select_result_ok [OF inv this] pstep_result(1) show ?thesis
    by (intro exI [of _ ks]) (auto simp: p_rank_def)
next
  case pstep_timeout
  have "p_count st \<le> length history"
    using inv by (rule p_invE) simp
  with select_timeout_ok [OF inv pstep_timeout(2,3)] pstep_timeout show ?thesis
    by (intro exI [of _ ks]) (simp add: p_rank_def select_timeout_def)
next
  case pstep_collect
  have "p_count st \<le> length history"
    using inv by (rule p_invE) simp
  with collect_ok [OF inv pstep_collect(1) checkableD [OF ck] pstep_collect(2)] pstep_collect(1)
  show ?thesis
    by (intro exI [of _ ks]) (auto simp: p_rank_def)
qed

lemma p_inv_init:
  "\<exists>ks. p_inv m ci timeout history ks (p_init history)"
proof -
  define ks where "ks = map (\<lambda>es. a_cost (length es) (a_init m es) + 3) history"
  have "p_inv m ci timeout history ks (p_init history)"
    by (rule p_invI [where R = "{#}"])
      (simp_all add: ks_def p_init_def phase_ok_def answers_def filter_map o_def)
  then show ?thesis ..
qed

lemma reachable_inv:
  assumes ck: "checkable m perm history" and "p_reachable m perm ci timeout history st"
  shows "\<exists>ks. p_inv m ci timeout history ks st"
  using assms(2) unfolding p_reachable_def
proof (induction rule: rtranclp_induct)
  case base
  show ?case by (rule p_inv_init)
next
  case (step st st')
  then show ?case using pstep_ok [OF ck] by blast
qed

text \<open>Whatever the schedule, an answer that is returned is right.\<close>

lemma checkParallel_sound:
  assumes ck: "checkable m perm history" and "checkParallel m perm ci timeout history res info"
  shows "result_ok m history timeout res \<and> (ci \<longrightarrow> info_ok m history res info)"
proof -
  from assms(2) obtain st where st: "p_reachable m perm ci timeout history st" "p_phase st = Finished res info"
    by (auto simp: checkParallel_def)
  from reachable_inv [OF ck st(1)] obtain ks where "p_inv m ci timeout history ks st" ..
  then obtain R where "phase_ok m ci timeout history R st"
    by (rule p_invE) blast
  with st(2) show ?thesis
    by (simp add: phase_ok_def)
qed

text \<open>No goroutine panics, and while the function has not returned something can happen without the
  timeout.\<close>

lemma go_no_panic:
  assumes "checkable m perm history" "p_reachable m perm ci timeout history st" "i < length history" "done_ok (p_gs st ! i) = None"
  shows "\<exists>st'. go_step m ci i st = Some st'"
  using reachable_inv [OF assms(1,2)] go_ok [OF assms(1) _ assms(3,4)] by blast

lemma progress:
  assumes ck: "checkable m perm history" and r: "p_reachable m perm ci timeout history st" and ne: "history \<noteq> []"
    and nf: "\<And>res info. p_phase st \<noteq> Finished res info"
  shows "\<exists>st'. pstep m perm ci 0 history st st'"
proof (cases "\<exists>i < length history. done_ok (p_gs st ! i) = None")
  case True
  then show ?thesis
    using go_no_panic [OF ck r] pstep_go by blast
next
  case False
  from reachable_inv [OF ck r] obtain ks where inv: "p_inv m ci timeout history ks st" ..
  then obtain R where R: "p_count st = size R" "mset (p_results st) + R = answers (p_gs st)"
      "phase_ok m ci timeout history R st" "length (p_gs st) = length history"
    by (rule p_invE) blast
  have "filter (\<lambda>g. done_ok g \<noteq> None) (p_gs st) = p_gs st"
    using False R(4) by (auto simp: filter_id_conv in_set_conv_nth)
  then have "size (answers (p_gs st)) = length history"
    using R(4) by (simp only: size_answers)
  then have len: "length (p_results st) + p_count st = length history"
    using R(1,2) by (metis size_mset size_union)
  show ?thesis
  proof (cases "p_phase st")
    case Selecting
    then have "p_count st < length history"
      using R(3) ne by (simp add: phase_ok_def)
    then obtain r rs where "p_results st = r # rs"
      using len by (cases "p_results st") auto
    then have "\<exists>st'. select_result ci (length history) st = Some st'"
      by (simp add: select_result_def Let_def)
    then show ?thesis
      using Selecting pstep_result by blast
  next
    case Collecting
    have "p_results st \<noteq> []" if "p_count st < length history"
      using len that by auto
    then have "\<exists>st'. collect perm ci history st = Some st'"
      by (auto simp: collect_def split: list.split)
    then show ?thesis
      using Collecting pstep_collect by blast
  qed (use nf in blast)
qed

lemma no_infinite_run:
  assumes ck: "checkable m perm history" and "p_inv m ci timeout history ks (run 0)"
  shows "\<not> (\<forall>i. pstep m perm ci timeout history (run i) (run (Suc i)))"
  using assms(2)
proof (induction "p_rank history ks (run 0)" arbitrary: ks run rule: less_induct)
  case less
  show ?case
  proof
    assume steps: "\<forall>i. pstep m perm ci timeout history (run i) (run (Suc i))"
    from pstep_ok [OF ck less.prems, of "run 1"] steps obtain ks' where
      "p_inv m ci timeout history ks' (run 1)" "p_rank history ks' (run 1) < p_rank history ks (run 0)"
      by (metis One_nat_def)
    with less.hyps [of ks' "\<lambda>i. run (Suc i)"] steps show False
      by simp
  qed
qed

lemma terminates:
  assumes "checkable m perm history" "run 0 = p_init history"
  shows "\<not> (\<forall>i. pstep m perm ci timeout history (run i) (run (Suc i)))"
  using p_inv_init [of ci timeout] no_infinite_run [OF assms(1), of ci timeout _ run] assms(2) by auto

lemma reaches_result:
  assumes ck: "checkable m perm history" and ne: "history \<noteq> []"
    and "p_inv m ci 0 history ks st" "p_reachable m perm ci 0 history st"
  shows "\<exists>res info. checkParallel m perm ci 0 history res info"
  using assms(3,4)
proof (induction "p_rank history ks st" arbitrary: ks st rule: less_induct)
  case less
  show ?case
  proof (cases "\<exists>res info. p_phase st = Finished res info")
    case True
    with less.prems(2) show ?thesis unfolding checkParallel_def by blast
  next
    case False
    then obtain st' where st': "pstep m perm ci 0 history st st'"
      using progress [OF ck less.prems(2) ne] by blast
    from pstep_ok [OF ck less.prems(1) st'] obtain ks' where
      "p_inv m ci 0 history ks' st'" "p_rank history ks' st' < p_rank history ks st" by blast
    moreover have "p_reachable m perm ci 0 history st'"
      using less.prems(2) st' by (auto simp: p_reachable_def)
    ultimately show ?thesis using less.hyps by blast
  qed
qed

lemma has_result:
  assumes "checkable m perm history" "history \<noteq> []"
  shows "\<exists>res info. checkParallel m perm ci 0 history res info"
proof -
  obtain ks where "p_inv m ci 0 history ks (p_init history)" using p_inv_init by blast
  then show ?thesis by (rule reaches_result [OF assms]) (simp add: p_reachable_def)
qed

end

end
