(* ===== verification/Porcupine.thy ===== *)
theory Porcupine
  imports CheckParallel
begin

text \<open>
  The entry points of the checker (\<open>src/6.5840/src/porcupine/checker.go\<close>, lines 355--373, and
  \<open>porcupine.go\<close>). They return what \<open>checkParallel\<close> can return, which depends on the schedule, so each
  is a relation between the arguments and the possible results. \<open>fv\<close> and \<open>fs\<close> are
  \<open>fmt.Sprintf("%v")\<close> on values and states, \<open>srt\<close> is \<open>sort.Sort\<close>, \<open>perm\<close> the iteration order of maps.
\<close>

section \<open>Entry points\<close>

definition event_histories ::
  "('v, 's) Model \<Rightarrow> 'v Event list \<Rightarrow> 'v entry list list option" where
  "event_histories model history = do {
     PartitionEvent \<leftarrow> m_PartitionEvent model;
     partitions \<leftarrow> PartitionEvent history;
     Some (map (\<lambda>subhistory. convertEntries (renumber subhistory)) partitions)
   }"

definition checkEvents where
  "checkEvents fv fs perm model history verbose timeout res info \<longleftrightarrow>
     (let model = fillDefault fv fs model in
      \<exists>l. event_histories model history = Some l \<and> checkParallel model perm verbose timeout l res info)"

definition operation_histories ::
  "(('v entry \<Rightarrow> 'v entry \<Rightarrow> bool) \<Rightarrow> 'v entry list \<Rightarrow> 'v entry list) \<Rightarrow>
   ('v, 's) Model \<Rightarrow> 'v Operation list \<Rightarrow> 'v entry list list option" where
  "operation_histories srt model history = do {
     Partition \<leftarrow> m_Partition model;
     partitions \<leftarrow> Partition history;
     Some (map (makeEntries srt) partitions)
   }"

definition checkOperations where
  "checkOperations fv fs srt perm model history verbose timeout res info \<longleftrightarrow>
     (let model = fillDefault fv fs model in
      \<exists>l. operation_histories srt model history = Some l \<and>
          checkParallel model perm verbose timeout l res info)"

definition CheckOperations where
  "CheckOperations fv fs srt perm model history b \<longleftrightarrow>
     (\<exists>res info. checkOperations fv fs srt perm model history False 0 res info \<and> b = (res = Ok))"

definition CheckOperationsTimeout where
  "CheckOperationsTimeout fv fs srt perm model history timeout res \<longleftrightarrow>
     (\<exists>info. checkOperations fv fs srt perm model history False timeout res info)"

definition CheckOperationsVerbose where
  "CheckOperationsVerbose fv fs srt perm model history timeout res info \<longleftrightarrow>
     checkOperations fv fs srt perm model history True timeout res info"

definition CheckEvents where
  "CheckEvents fv fs perm model history b \<longleftrightarrow>
     (\<exists>res info. checkEvents fv fs perm model history False 0 res info \<and> b = (res = Ok))"

definition CheckEventsTimeout where
  "CheckEventsTimeout fv fs perm model history timeout res \<longleftrightarrow>
     (\<exists>info. checkEvents fv fs perm model history False timeout res info)"

definition CheckEventsVerbose where
  "CheckEventsVerbose fv fs perm model history timeout res info \<longleftrightarrow>
     checkEvents fv fs perm model history True timeout res info"

section \<open>Steps that do not panic\<close>

definition op_steps_total :: "('v, 's) Model \<Rightarrow> 'v Operation list \<Rightarrow> bool" where
  "op_steps_total m ops \<longleftrightarrow> (\<forall>q \<in> set ops. \<forall>s. m_Step m s (op_Input q) (op_Output q) \<noteq> None)"

definition ev_steps_total :: "('v, 's) Model \<Rightarrow> 'v Event list \<Rightarrow> bool" where
  "ev_steps_total m evs \<longleftrightarrow> (\<forall>a \<in> set evs. \<forall>b \<in> set evs. \<forall>s.
     ev_Kind a = CallEvent \<longrightarrow> ev_Kind b = ReturnEvent \<longrightarrow> ev_Id a = ev_Id b \<longrightarrow>
     m_Step m s (ev_Value a) (ev_Value b) \<noteq> None)"

lemma find_SomeD: "find P xs = Some x \<Longrightarrow> x \<in> set xs \<and> P x"
  by (auto simp: find_Some_iff)

context entry_sorting
begin

lemma steps_defined_makeEntries:
  assumes "op_steps_total m ops"
  shows "steps_defined m (makeEntries srt ops)"
proof (unfold steps_defined_def, intro allI impI)
  fix i s a b
  assume ab: "call_value (makeEntries srt ops) i = Some a" "return_value (makeEntries srt ops) i = Some b"
  then obtain c where c: "c \<in> set (makeEntries srt ops)" "is_call i c"
    by (auto simp: call_value_def dest: find_SomeD)
  then obtain n where n: "n < length ops" "i = int n"
    by (auto simp: makeEntries_set is_call_def entry_of_defs)
  with ab assms show "m_Step m s a b \<noteq> None"
    by (auto simp: makeEntries_find op_steps_total_def)
qed

lemma well_posed_operations:
  assumes "\<And>p. p \<in> set parts \<Longrightarrow> wf_operations p \<and> op_steps_total m p"
  shows "well_posed m (map (makeEntries srt) parts)"
  using assms makeEntries_wf steps_defined_makeEntries by (auto simp: well_posed_def)

end

lemma fillDefault_linearizable [simp]:
  "op_linearizable (fillDefault fv fs m) ops = op_linearizable m ops"
  "ev_linearizable (fillDefault fv fs m) evs = ev_linearizable m evs"
  "op_steps_total (fillDefault fv fs m) ops = op_steps_total m ops"
  "ev_steps_total (fillDefault fv fs m) evs = ev_steps_total m evs"
proof -
  have "run_Operations (fillDefault fv fs m) s qs = run_Operations m s qs" for s qs
    by (induction qs arbitrary: s) (auto split: bind_splits)
  moreover have "run_ops (fillDefault fv fs m) es s qs = run_ops m es s qs" for es s qs
    by (induction qs arbitrary: s) (auto simp: step_op_def)
  ultimately show "op_linearizable (fillDefault fv fs m) ops = op_linearizable m ops"
    "ev_linearizable (fillDefault fv fs m) evs = ev_linearizable m evs"
    "op_steps_total (fillDefault fv fs m) ops = op_steps_total m ops"
    "ev_steps_total (fillDefault fv fs m) evs = ev_steps_total m evs"
    by (simp_all add: op_linearizable_def ev_linearizable_def linearizes_def op_steps_total_def
        ev_steps_total_def)
qed

lemma convertEntries_values:
  assumes "call_value (convertEntries evs) i = Some a" "return_value (convertEntries evs) i = Some b"
  obtains v w where "v \<in> set evs" "ev_Kind v = CallEvent" "ev_Id v = i" "ev_Value v = a"
    "w \<in> set evs" "ev_Kind w = ReturnEvent" "ev_Id w = i" "ev_Value w = b"
proof -
  from assms obtain c r where c: "c \<in> set (convertEntries evs)" "is_call i c" "e_value c = a"
    and r: "r \<in> set (convertEntries evs)" "is_return i r" "e_value r = b"
    by (auto simp: call_value_def return_value_def dest: find_SomeD)
  obtain j k where j: "j < length evs" "c = convertEntries evs ! j"
    and k: "k < length evs" "r = convertEntries evs ! k"
    using c(1) r(1) by (auto simp: in_set_conv_nth)
  have "ev_Kind (evs ! j) = CallEvent"
    using c(2) j by (cases "ev_Kind (evs ! j)") (simp_all add: is_call_def nth_convertEntries)
  moreover have "ev_Kind (evs ! k) = ReturnEvent"
    using r(2) k by (cases "ev_Kind (evs ! k)") (simp_all add: is_return_def nth_convertEntries)
  moreover have "ev_Value (evs ! j) = a" "ev_Value (evs ! k) = b" "ev_Id (evs ! j) = i" "ev_Id (evs ! k) = i"
    using c r j k by (simp_all add: is_call_def is_return_def convertEntries_def nth_convertEntries_loop)
  ultimately show thesis
    using that j(1) k(1) nth_mem by blast
qed

lemma steps_defined_convertEntries:
  assumes wf: "wf_events evs" and tot: "ev_steps_total m evs"
  shows "steps_defined m (convertEntries (renumber evs))"
proof (unfold steps_defined_def, intro allI impI)
  fix i s a b
  assume ab: "call_value (convertEntries (renumber evs)) i = Some a"
    "return_value (convertEntries (renumber evs)) i = Some b"
  obtain g where g: "renumber evs = map (relabel g) evs" "inj_on g (event_ids evs)"
    by (rule renumber_relabels)
  from ab obtain v w where vw: "v \<in> set (renumber evs)" "ev_Kind v = CallEvent" "ev_Id v = i" "ev_Value v = a"
    "w \<in> set (renumber evs)" "ev_Kind w = ReturnEvent" "ev_Id w = i" "ev_Value w = b"
    by (rule convertEntries_values)
  then obtain v' w' where v': "v' \<in> set evs" "v = relabel g v'" and w': "w' \<in> set evs" "w = relabel g w'"
    by (auto simp: g(1))
  have "g (ev_Id v') = g (ev_Id w')"
    using vw v' w' by simp
  then have "ev_Id v' = ev_Id w'"
    using g(2) v'(1) w'(1) by (simp add: inj_on_eq_iff event_ids_def)
  moreover have "ev_Kind v' = CallEvent" "ev_Kind w' = ReturnEvent" "ev_Value v' = a" "ev_Value w' = b"
    using vw v' w' by auto
  ultimately show "m_Step m s a b \<noteq> None"
    using tot v'(1) w'(1) by (auto simp: ev_steps_total_def)
qed

section \<open>The contract of a partition\<close>

text \<open>
  A model that partitions promises that the parts together say what the whole history says: it is
  linearizable for the system (\<open>spec\<close>) exactly when every part is for the model.
\<close>

locale operation_checker = entry_sorting srt + porcupine_model m eq
  for srt :: "('v entry \<Rightarrow> 'v entry \<Rightarrow> bool) \<Rightarrow> 'v entry list \<Rightarrow> 'v entry list"
    and m :: "('v, 's) Model" and eq +
  fixes perm :: "(nat \<times> int list) list \<Rightarrow> (nat \<times> int list) list"
    and spec :: "'v Operation list \<Rightarrow> bool"
  assumes map_order: "mset (perm xs) = mset xs"
    and partition: "wf_operations ops \<Longrightarrow> op_steps_total m ops \<Longrightarrow>
      \<exists>P parts. m_Partition m = Some P \<and> P ops = Some parts \<and>
        (\<forall>p \<in> set parts. wf_operations p \<and> op_steps_total m p) \<and>
        (spec ops \<longleftrightarrow> (\<forall>p \<in> set parts. op_linearizable m p))"
begin

lemma histories:
  assumes "wf_operations ops" "op_steps_total m ops"
  obtains l where "operation_histories srt m ops = Some l" "checkable m perm l"
    "spec ops \<longleftrightarrow> (\<forall>es \<in> set l. linearizable m es)"
proof -
  from partition [OF assms] obtain P parts where P: "m_Partition m = Some P" "P ops = Some parts"
    "\<forall>p \<in> set parts. wf_operations p \<and> op_steps_total m p"
    "spec ops \<longleftrightarrow> (\<forall>p \<in> set parts. op_linearizable m p)" by blast
  have "checkable m perm (map (makeEntries srt) parts)"
    using P(3) map_order by (auto simp: checkable_def intro!: well_posed_operations)
  moreover have "spec ops \<longleftrightarrow> (\<forall>es \<in> set (map (makeEntries srt) parts). linearizable m es)"
    using P(4) by (simp add: makeEntries_linearizable)
  ultimately show thesis
    using P(1,2) by (intro that [of "map (makeEntries srt) parts"]) (simp_all add: operation_histories_def)
qed

text \<open>What the checker returns, it returns rightly.\<close>

lemma operations_sound:
  assumes "wf_operations ops" "op_steps_total m ops"
    and "operation_histories srt m ops = Some l" "checkParallel m perm verbose timeout l res info"
  shows "(res = Ok \<longrightarrow> spec ops) \<and> (res = Illegal \<longrightarrow> \<not> spec ops) \<and> (res = Unknown \<longrightarrow> timeout > 0) \<and>
    (verbose \<longrightarrow> info_ok m l res info)"
proof -
  from assms(1,2) obtain l' where l': "operation_histories srt m ops = Some l'" "checkable m perm l'"
    "spec ops \<longleftrightarrow> (\<forall>es \<in> set l'. linearizable m es)"
    by (rule histories)
  with assms(3) have l: "l' = l" by simp
  have "result_ok m l timeout res \<and> (verbose \<longrightarrow> info_ok m l res info)"
    using checkParallel_sound [OF l'(2) [unfolded l] assms(4)] .
  with l'(3) l show ?thesis
    by (cases res) (auto simp: result_ok_def)
qed

end

text \<open>Without \<open>Partition\<close> there is one part, the history itself.\<close>

lemma NoPartition_checker:
  assumes "entry_sorting srt" "porcupine_model (fillDefault fv fs model) eq"
    "\<And>xs. mset (perm xs) = mset xs" "m_Partition model = None"
  shows "operation_checker srt (fillDefault fv fs model) eq perm (op_linearizable model)"
  using assms
  by (intro operation_checker.intro operation_checker_axioms.intro) (auto simp: NoPartition_def)

end
