(* ===== verification/KvModel.thy ===== *)
theory KvModel
  imports Porcupine "HOL-Library.AList" "HOL-Library.Char_ord" "HOL-Library.List_Lexorder"
begin

text \<open>
  The key/value model of the labs (\<open>src/6.5840/src/models/kv.go\<close>): \<open>KvModel\<close> describes the value of
  one key and partitions a history by key. Go's \<open>interface{}\<close> is the type \<open>iface\<close>, so that the type
  assertions of the model can fail (a panic, \<^term>\<open>None\<close>). A Go map is an association list; the
  keys are sorted before they are used, so the iteration order does not matter.

  The theory shows that checking each key on its own is right: a history is linearizable for a store
  that maps keys to values (\<open>kvStore\<close>) exactly when every part is for \<open>KvModel\<close>.
\<close>

section \<open>The model\<close>

record KvInput =
  in_Op :: uint8
  in_Key :: string
  in_Value :: string

record KvOutput =
  out_Value :: string

datatype iface = IInput KvInput | IOutput KvOutput | INil

fun as_KvInput :: "iface \<Rightarrow> KvInput option" where
  "as_KvInput (IInput x) = Some x"
| "as_KvInput _ = None"

fun as_KvOutput :: "iface \<Rightarrow> KvOutput option" where
  "as_KvOutput (IOutput x) = Some x"
| "as_KvOutput _ = None"

text \<open>Reading a key that is not in the map gives nil, the empty slice.\<close>

definition map_get :: "(string \<times> 'a list) list \<Rightarrow> string \<Rightarrow> 'a list" where
  "map_get m key = (case map_of m key of None \<Rightarrow> [] | Some vs \<Rightarrow> vs)"

definition map_append :: "string \<Rightarrow> 'a \<Rightarrow> (string \<times> 'a list) list \<Rightarrow> (string \<times> 'a list) list" where
  "map_append key v m = AList.update key (map_get m key @ [v]) m"

fun kv_group :: "(string \<times> iface Operation list) list \<Rightarrow> iface Operation list \<Rightarrow>
    (string \<times> iface Operation list) list option" where
  "kv_group m [] = Some m"
| "kv_group m (v # vs) = do { inp \<leftarrow> as_KvInput (op_Input v); kv_group (map_append (in_Key inp) v m) vs }"

definition kv_Partition :: "iface Operation list \<Rightarrow> iface Operation list list option" where
  "kv_Partition history = do {
     m \<leftarrow> kv_group [] history;
     let keys = sort (map fst m);
     Some (map (map_get m) keys)
   }"

definition kv_Init :: string where
  "kv_Init = ''''"

definition kv_Step :: "string \<Rightarrow> iface \<Rightarrow> iface \<Rightarrow> (bool \<times> string) option" where
  "kv_Step st input output = do {
     inp \<leftarrow> as_KvInput input;
     out \<leftarrow> as_KvOutput output;
     Some (if in_Op inp = 0 then (out_Value out = st, st)
           else if in_Op inp = 1 then (True, in_Value inp)
           else (True, st @ in_Value inp))
   }"

text \<open>A quoted \<open>%s\<close> of a format string.\<close>

definition quoted :: "string \<Rightarrow> string" where
  "quoted x = [CHR 0x27] @ x @ [CHR 0x27]"

definition kv_DescribeOperation :: "iface \<Rightarrow> iface \<Rightarrow> string option" where
  "kv_DescribeOperation input output = do {
     inp \<leftarrow> as_KvInput input;
     out \<leftarrow> as_KvOutput output;
     Some (if in_Op inp = 0 then ''get('' @ quoted (in_Key inp) @ '') -> '' @ quoted (out_Value out)
           else if in_Op inp = 1 then ''put('' @ quoted (in_Key inp) @ '', '' @ quoted (in_Value inp) @ '')''
           else if in_Op inp = 2 then ''append('' @ quoted (in_Key inp) @ '', '' @ quoted (in_Value inp) @ '')''
           else ''<invalid>'')
   }"

definition KvModel :: "(iface, string) Model" where
  "KvModel =
     \<lparr>m_Partition = Some kv_Partition, m_PartitionEvent = None, m_Init = kv_Init, m_Step = kv_Step,
      m_Equal = None, m_DescribeOperation = Some kv_DescribeOperation, m_DescribeState = None\<rparr>"

section \<open>The partition\<close>

definition op_key :: "iface Operation \<Rightarrow> string" where
  "op_key q = (case as_KvInput (op_Input q) of None \<Rightarrow> '''' | Some inp \<Rightarrow> in_Key inp)"

definition kv_typed :: "iface Operation list \<Rightarrow> bool" where
  "kv_typed ops \<longleftrightarrow> (\<forall>q \<in> set ops. as_KvInput (op_Input q) \<noteq> None \<and> as_KvOutput (op_Output q) \<noteq> None)"

lemma kv_typedD:
  assumes "kv_typed ops" "q \<in> set ops"
  obtains inp out where "as_KvInput (op_Input q) = Some inp" "as_KvOutput (op_Output q) = Some out"
    "op_key q = in_Key inp"
  using assms by (auto simp: kv_typed_def op_key_def)

lemma map_append_simps:
  "map_get (map_append k v m) k' = map_get m k' @ (if k' = k then [v] else [])"
  "fst ` set (map_append k v m) = insert k (fst ` set m)"
  by (simp_all add: map_append_def map_get_def update_conv' flip: dom_map_of_conv_image_fst)

text \<open>\<open>kv_group\<close> appends to the list of each key its operations, in the order of the history.\<close>

lemma kv_group_spec:
  assumes "kv_typed ops" "distinct (map fst m)"
  shows "\<exists>m'. kv_group m ops = Some m' \<and> distinct (map fst m') \<and>
    fst ` set m' = fst ` set m \<union> op_key ` set ops \<and>
    (\<forall>k. map_get m' k = map_get m k @ filter (\<lambda>q. op_key q = k) ops)"
  using assms
proof (induction ops arbitrary: m)
  case (Cons q ops)
  obtain inp where inp: "as_KvInput (op_Input q) = Some inp" "op_key q = in_Key inp"
    using Cons.prems(1) by (rule kv_typedD [of _ q]) auto
  let ?m = "map_append (op_key q) q m"
  have "kv_typed ops" "distinct (map fst ?m)"
    using Cons.prems by (simp_all add: kv_typed_def map_append_def distinct_update)
  from Cons.IH [OF this] inp show ?case
    by (auto simp: map_append_simps)
qed simp

lemma kv_Partition_spec:
  assumes "kv_typed ops"
  shows "kv_Partition ops =
    Some (map (\<lambda>k. filter (\<lambda>q. op_key q = k) ops) (sorted_list_of_set (op_key ` set ops)))"
proof -
  from kv_group_spec [OF assms, of "[]"] obtain m where m: "kv_group [] ops = Some m" "distinct (map fst m)"
    "fst ` set m = op_key ` set ops" "\<And>k. map_get m k = filter (\<lambda>q. op_key q = k) ops"
    by (auto simp: map_get_def)
  have "sort (map fst m) = sorted_list_of_set (op_key ` set ops)"
    using m(2,3) by (metis list.set_map sorted_list_of_set_sort_remdups distinct_remdups_id)
  with m show ?thesis
    by (simp add: kv_Partition_def)
qed

section \<open>Checking each key on its own\<close>

text \<open>The store the labs implement: every key has a value, at first the empty string.\<close>

definition kvStore_Step :: "(string \<Rightarrow> string) \<Rightarrow> iface \<Rightarrow> iface \<Rightarrow> (bool \<times> (string \<Rightarrow> string)) option" where
  "kvStore_Step st input output = do {
     inp \<leftarrow> as_KvInput input;
     out \<leftarrow> as_KvOutput output;
     let k = in_Key inp;
     Some (if in_Op inp = 0 then (out_Value out = st k, st)
           else if in_Op inp = 1 then (True, st(k := in_Value inp))
           else (True, st(k := st k @ in_Value inp)))
   }"

definition kvStore :: "(iface, string \<Rightarrow> string) Model" where
  "kvStore =
     \<lparr>m_Partition = None, m_PartitionEvent = None, m_Init = (\<lambda>_. ''''), m_Step = kvStore_Step,
      m_Equal = None, m_DescribeOperation = None, m_DescribeState = None\<rparr>"

text \<open>A step of the store is a step of the model at the key.\<close>

lemma kvStore_Step_key:
  "kvStore_Step st input output = do {
     inp \<leftarrow> as_KvInput input;
     (ok, v) \<leftarrow> kv_Step (st (in_Key inp)) input output;
     Some (ok, st(in_Key inp := v))
   }"
  by (cases "as_KvInput input"; cases "as_KvOutput output") (simp_all add: kvStore_Step_def kv_Step_def Let_def)

lemma kvStore_run:
  assumes "kv_typed qs"
  shows "run_Operations kvStore s qs \<noteq> None \<longleftrightarrow>
    (\<forall>k. run_Operations KvModel (s k) (filter (\<lambda>q. op_key q = k) qs) \<noteq> None)"
  using assms
proof (induction qs arbitrary: s)
  case (Cons q qs)
  have typed: "kv_typed qs"
    using Cons.prems by (simp add: kv_typed_def)
  obtain inp out where io: "as_KvInput (op_Input q) = Some inp" "as_KvOutput (op_Output q) = Some out"
      "op_key q = in_Key inp"
    using Cons.prems by (rule kv_typedD [of _ q]) auto
  then obtain ok v where step: "kv_Step (s (in_Key inp)) (op_Input q) (op_Output q) = Some (ok, v)"
    by (simp add: kv_Step_def) (metis surj_pair)
  define s' where "s' = s(in_Key inp := v)"
  have store: "run_Operations kvStore s (q # qs) = (if ok then run_Operations kvStore s' qs else None)"
    using io step by (simp add: kvStore_def kvStore_Step_key s'_def)
  have part: "run_Operations KvModel (s k) (filter (\<lambda>q. op_key q = k) (q # qs)) =
      (if k = in_Key inp \<and> \<not> ok then None
       else run_Operations KvModel (s' k) (filter (\<lambda>q. op_key q = k) qs))" for k
    using io step by (simp add: KvModel_def s'_def)
  show ?case
    unfolding store part using Cons.IH [OF typed, of s'] by (cases ok) auto
qed simp

text \<open>Linearizability of the operations at some of the indices of a history.\<close>

definition lin_at :: "('v, 's) Model \<Rightarrow> 'v Operation list \<Rightarrow> nat set \<Rightarrow> nat list \<Rightarrow> bool" where
  "lin_at m ops J p \<longleftrightarrow>
     distinct p \<and> set p = J \<and> sorted_wrt (\<lambda>a b. \<not> op_Return (ops ! b) < op_Call (ops ! a)) p \<and>
     run_Operations m (m_Init m) (map ((!) ops) p) \<noteq> None"

lemma lin_at_map:
  assumes J: "distinct J" and p: "set p \<subseteq> {..<length J}"
  shows "lin_at m (map ((!) ops) J) {..<length J} p \<longleftrightarrow> lin_at m ops (set J) (map ((!) J) p)"
proof -
  have inj: "inj_on ((!) J) {..<length J}"
    using J by (auto simp: inj_on_def nth_eq_iff_index_eq)
  have "(!) J ` {..<length J} = set J"
    by (auto simp: in_set_conv_nth)
  then have "set p = {..<length J} \<longleftrightarrow> (!) J ` set p = set J"
    using inj p by (metis inj_on_image_eq_iff subset_refl)
  moreover have "distinct p \<longleftrightarrow> distinct (map ((!) J) p)"
    using inj p by (metis distinct_map inj_on_subset)
  moreover have "sorted_wrt (\<lambda>a b. \<not> op_Return (map ((!) ops) J ! b) < op_Call (map ((!) ops) J ! a)) p \<longleftrightarrow>
      sorted_wrt (\<lambda>a b. \<not> op_Return (ops ! (J ! b)) < op_Call (ops ! (J ! a))) p"
    using p by (intro iffI; elim sorted_wrt_mono_rel [rotated]) (auto simp: subset_iff)
  moreover have "map ((!) (map ((!) ops) J)) p = map ((!) ops) (map ((!) J) p)"
    using p by (auto simp: subset_iff)
  ultimately show ?thesis
    by (simp only: lin_at_def sorted_wrt_map set_map)
qed

lemma op_linearizable_at:
  assumes "distinct J"
  shows "op_linearizable m (map ((!) ops) J) \<longleftrightarrow> (\<exists>q. lin_at m ops (set J) q)"
proof
  assume "op_linearizable m (map ((!) ops) J)"
  then obtain p where p: "lin_at m (map ((!) ops) J) {..<length J} p"
    by (auto simp: op_linearizable_def lin_at_def)
  then have "set p \<subseteq> {..<length J}"
    by (simp add: lin_at_def)
  from lin_at_map [OF assms this, of m ops] p show "\<exists>q. lin_at m ops (set J) q"
    by blast
next
  assume "\<exists>q. lin_at m ops (set J) q"
  then obtain q where q: "lin_at m ops (set J) q" ..
  then have sq: "set q = set J"
    by (simp add: lin_at_def)
  define p where "p = map (inv_into {..<length J} ((!) J)) q"
  have img: "(!) J ` {..<length J} = set J"
    by (auto simp: in_set_conv_nth)
  have "map ((!) J) p = map id q"
    unfolding p_def map_map using sq img by (intro map_cong) (auto simp: f_inv_into_f)
  then have pq: "map ((!) J) p = q"
    by simp
  have "set p \<subseteq> {..<length J}"
    using sq img inv_into_into [of _ "(!) J" "{..<length J}"] by (auto simp: p_def)
  from lin_at_map [OF assms this, of m ops] q pq have "lin_at m (map ((!) ops) J) {..<length J} p"
    by simp
  then show "op_linearizable m (map ((!) ops) J)"
    by (auto simp: op_linearizable_def lin_at_def)
qed

text \<open>
  Linearization points: each operation of one key takes effect at the latest call of the operations
  linearized up to it. The point lies between the operation's call and return.
\<close>

definition lin_point :: "'v Operation list \<Rightarrow> nat list \<Rightarrow> nat \<Rightarrow> int" where
  "lin_point ops p i = Max ((\<lambda>j. op_Call (ops ! j)) ` set (takeWhile (\<lambda>j. j \<noteq> i) p @ [i]))"

lemma lin_point_lower: "op_Call (ops ! i) \<le> lin_point ops p i"
  unfolding lin_point_def by (rule Max_ge) auto

lemma lin_point_upper:
  assumes "sorted_wrt (\<lambda>a b. \<not> op_Return (ops ! b) < op_Call (ops ! a)) p" "i \<in> set p"
    "op_Call (ops ! i) \<le> op_Return (ops ! i)"
  shows "lin_point ops p i \<le> op_Return (ops ! i)"
proof -
  obtain as bs where p: "p = as @ i # bs" "i \<notin> set as"
    using assms(2) by (meson split_list_first)
  then have "takeWhile (\<lambda>j. j \<noteq> i) p = as"
    by (auto intro: takeWhile_eq_Nil_iff simp: takeWhile_append)
  moreover have "op_Call (ops ! a) \<le> op_Return (ops ! i)" if "a \<in> set as" for a
    using assms(1) p that by (auto simp: sorted_wrt_append)
  ultimately show ?thesis
    using assms(3) by (auto simp: lin_point_def)
qed

lemma lin_point_sorted:
  assumes "distinct p"
  shows "sorted (map (lin_point ops p) p)"
proof -
  have "lin_point ops p (p ! i) \<le> lin_point ops p (p ! j)" if "i < j" "j < length p" for i j
  proof -
    have tw: "takeWhile (\<lambda>x. x \<noteq> p ! k) p = take k p" if "k < length p" for k
      using that assms by (intro takeWhile_eq_take_P_nth) (auto simp: nth_eq_iff_index_eq)
    have "set (take (Suc i) p) \<subseteq> set (take j p)"
      using that by (intro set_take_subset_set_take) simp
    then have sub: "set (take i p @ [p ! i]) \<subseteq> set (take j p @ [p ! j])"
      using that by (auto simp: take_Suc_conv_app_nth)
    have i: "i < length p"
      using that by simp
    show ?thesis
      unfolding lin_point_def tw [OF i] tw [OF that(2)]
      by (intro Max_mono image_mono sub) auto
  qed
  then show ?thesis
    by (auto simp: sorted_wrt_iff_nth_less)
qed

text \<open>The linearizations of the keys, merged in the order of their points.\<close>

lemma merge_linearizations:
  fixes key :: "nat \<Rightarrow> 'k :: linorder" and ops :: "'v Operation list"
  assumes P: "\<And>k. k \<in> key ` {..<n} \<Longrightarrow> distinct (P k) \<and> set (P k) = {i. i < n \<and> key i = k} \<and>
      sorted_wrt (\<lambda>a b. \<not> op_Return (ops ! b) < op_Call (ops ! a)) (P k)"
    and le: "\<And>i. i < n \<Longrightarrow> op_Call (ops ! i) \<le> op_Return (ops ! i)"
  obtains L where "distinct L" "set L = {..<n}"
    "sorted_wrt (\<lambda>a b. \<not> op_Return (ops ! b) < op_Call (ops ! a)) L"
    "\<And>k. k \<in> key ` {..<n} \<Longrightarrow> filter (\<lambda>i. key i = k) L = P k"
proof -
  let ?K = "sorted_list_of_set (key ` {..<n})"
  define t where "t i = lin_point ops (P (key i)) i" for i
  define B where "B = concat (map P ?K)"
  define L where "L = sort_key t B"
  have K: "set ?K = key ` {..<n}" "distinct ?K"
    by simp_all
  have fil: "filter (\<lambda>i. key i = k) (P k') = (if k' = k then P k else [])" if "k' \<in> key ` {..<n}" for k k'
    using P [OF that] by (auto simp: filter_id_conv filter_empty_conv)
  have setB: "set B = {..<n}"
    using P K(1) by (auto simp: B_def)
  have "distinct (concat (map P ks))" if "distinct ks" "set ks \<subseteq> key ` {..<n}" for ks
    using that
  proof (induction ks)
    case (Cons k ks)
    have "set (P k) \<inter> set (concat (map P ks)) = {}"
      using P Cons.prems by fastforce
    then show ?case
      using Cons P by simp
  qed simp
  then have distB: "distinct B"
    using K by (simp add: B_def)
  have filB: "filter (\<lambda>i. key i = k) B = P k" if "k \<in> key ` {..<n}" for k
  proof -
    have "filter (\<lambda>i. key i = k) (concat (map P ks)) = (if k \<in> set ks then P k else [])"
      if "distinct ks" "set ks \<subseteq> key ` {..<n}" for ks
      using that by (induction ks) (auto simp: fil)
    then show ?thesis
      using K that by (simp add: B_def)
  qed
  have bounds: "op_Call (ops ! i) \<le> t i \<and> t i \<le> op_Return (ops ! i)" if "i < n" for i
  proof -
    have "sorted_wrt (\<lambda>a b. \<not> op_Return (ops ! b) < op_Call (ops ! a)) (P (key i))" "i \<in> set (P (key i))"
      using P [of "key i"] that by auto
    then show ?thesis
      using lin_point_lower lin_point_upper le [OF that] by (auto simp: t_def)
  qed
  have "sorted_wrt (\<lambda>a b. t a \<le> t b) L"
    unfolding L_def by (metis sorted_map sorted_sort_key)
  then have rt: "sorted_wrt (\<lambda>a b. \<not> op_Return (ops ! b) < op_Call (ops ! a)) L"
  proof (rule sorted_wrt_mono_rel [rotated])
    fix a b assume "a \<in> set L" "b \<in> set L" "t a \<le> t b"
    then have "a < n" "b < n"
      using setB by (auto simp: L_def)
    with bounds [of a] bounds [of b] \<open>t a \<le> t b\<close> show "\<not> op_Return (ops ! b) < op_Call (ops ! a)"
      by linarith
  qed
  have "filter (\<lambda>i. key i = k) L = P k" if "k \<in> key ` {..<n}" for k
  proof -
    have t: "map t (P k) = map (lin_point ops (P k)) (P k)"
      using P [OF that] by (auto simp: t_def)
    have "sorted (map t (P k))"
      unfolding t using P [OF that] by (intro lin_point_sorted) simp
    then have "sort_key t (P k) = P k"
      by (rule sort_key_id_if_sorted)
    then show ?thesis
      by (simp add: L_def filter_sort filB [OF that])
  qed
  with rt distB setB show thesis
    by (intro that [of L]) (auto simp: L_def)
qed

text \<open>The partition is right: the store is linearizable when every key is.\<close>

lemma kv_partition_correct:
  assumes wf: "wf_operations ops" and typed: "kv_typed ops"
  shows "op_linearizable kvStore ops \<longleftrightarrow>
    (\<forall>k \<in> op_key ` set ops. op_linearizable KvModel (filter (\<lambda>q. op_key q = k) ops))"
proof -
  let ?n = "length ops"
  define key where "key i = op_key (ops ! i)" for i
  define J where "J k = filter (\<lambda>i. key i = k) [0..<?n]" for k
  have keys: "op_key ` set ops = key ` {..<?n}"
    by (auto simp: key_def set_conv_nth)
  have J: "distinct (J k)" "set (J k) = {i. i < ?n \<and> key i = k}" for k
    by (auto simp: J_def)
  have "filter (\<lambda>q. op_key q = k) (map ((!) ops) [0..<?n]) = map ((!) ops) (J k)" for k
    by (simp add: J_def filter_map o_def key_def)
  then have part: "op_linearizable KvModel (filter (\<lambda>q. op_key q = k) ops) \<longleftrightarrow>
      (\<exists>q. lin_at KvModel ops {i. i < ?n \<and> key i = k} q)" for k
    using op_linearizable_at [OF J(1)] J(2) by (metis map_nth)
  have whole: "op_linearizable kvStore ops \<longleftrightarrow> (\<exists>q. lin_at kvStore ops {..<?n} q)"
    by (auto simp: op_linearizable_def lin_at_def)
  have ty: "kv_typed (map ((!) ops) p)" if "set p \<subseteq> {..<?n}" for p
    using typed that by (auto simp: kv_typed_def subset_iff)
  have run: "run_Operations kvStore (m_Init kvStore) (map ((!) ops) p) \<noteq> None \<longleftrightarrow>
      (\<forall>k. run_Operations KvModel (m_Init KvModel) (map ((!) ops) (filter (\<lambda>i. key i = k) p)) \<noteq> None)"
    if "set p \<subseteq> {..<?n}" for p
  proof -
    have "filter (\<lambda>q. op_key q = k) (map ((!) ops) p) = map ((!) ops) (filter (\<lambda>i. key i = k) p)" for k
      by (simp add: filter_map o_def key_def)
    moreover have "m_Init kvStore k = m_Init KvModel" for k
      by (simp add: kvStore_def KvModel_def kv_Init_def)
    ultimately show ?thesis
      using kvStore_run [OF ty [OF that], of "m_Init kvStore"] by simp
  qed
  show ?thesis
    unfolding keys part whole
  proof (intro iffI ballI)
    fix k
    assume "\<exists>q. lin_at kvStore ops {..<?n} q"
    then obtain q where q: "lin_at kvStore ops {..<?n} q" ..
    then have "lin_at KvModel ops {i. i < ?n \<and> key i = k} (filter (\<lambda>i. key i = k) q)"
      using run [of q] by (auto simp: lin_at_def sorted_wrt_filter)
    then show "\<exists>q. lin_at KvModel ops {i. i < ?n \<and> key i = k} q" ..
  next
    assume "\<forall>k \<in> key ` {..<?n}. \<exists>q. lin_at KvModel ops {i. i < ?n \<and> key i = k} q"
    then obtain P where P: "\<And>k. k \<in> key ` {..<?n} \<Longrightarrow> lin_at KvModel ops {i. i < ?n \<and> key i = k} (P k)"
      by metis
    obtain L where L: "distinct L" "set L = {..<?n}"
      "sorted_wrt (\<lambda>a b. \<not> op_Return (ops ! b) < op_Call (ops ! a)) L"
      "\<And>k. k \<in> key ` {..<?n} \<Longrightarrow> filter (\<lambda>i. key i = k) L = P k"
    proof (rule merge_linearizations [of key ?n P ops])
      show "\<And>i. i < ?n \<Longrightarrow> op_Call (ops ! i) \<le> op_Return (ops ! i)"
        using wf by (simp add: wf_operations_def)
    qed (use P in \<open>auto simp: lin_at_def\<close>)
    have "run_Operations KvModel (m_Init KvModel) (map ((!) ops) (filter (\<lambda>i. key i = k) L)) \<noteq> None" for k
    proof (cases "k \<in> key ` {..<?n}")
      case True
      with L(4) P show ?thesis
        by (auto simp: lin_at_def)
    next
      case False
      then have "filter (\<lambda>i. key i = k) L = []"
        using L(2) by (auto simp: filter_empty_conv)
      then show ?thesis by simp
    qed
    then have "lin_at kvStore ops {..<?n} L"
      using L run [of L] by (simp add: lin_at_def)
    then show "\<exists>q. lin_at kvStore ops {..<?n} q" ..
  qed
qed

section \<open>The checker on the key/value model\<close>

lemma kv_steps_total: "op_steps_total KvModel ops \<longleftrightarrow> kv_typed ops"
proof -
  have "(\<forall>s. kv_Step s a b \<noteq> None) \<longleftrightarrow> as_KvInput a \<noteq> None \<and> as_KvOutput b \<noteq> None" for a b
    by (cases a; cases b) (auto simp: kv_Step_def)
  then show ?thesis
    by (simp add: op_steps_total_def kv_typed_def KvModel_def)
qed

lemma KvModel_porcupine: "porcupine_model (fillDefault fv fs KvModel) ShallowEqual"
  by (rule ShallowEqual_porcupine_model) (simp add: KvModel_def)

lemma wf_operations_filter:
  assumes "wf_operations ops"
  shows "wf_operations (filter P ops)"
proof -
  have "2 * length (filter P ops) \<le> 2 * length ops"
    using length_filter_le [of P ops] by linarith
  moreover have "2 * length ops < 2 ^ 63"
    using assms unfolding wf_operations_def by blast
  ultimately have "2 * length (filter P ops) < 2 ^ 63"
    by (rule le_less_trans)
  then show ?thesis
    using assms unfolding wf_operations_def by auto
qed

lemma kv_checker:
  assumes "entry_sorting srt" "\<And>xs. mset (perm xs) = mset xs"
  shows "operation_checker srt (fillDefault fv fs KvModel) ShallowEqual perm (op_linearizable kvStore)"
proof (intro operation_checker.intro operation_checker_axioms.intro)
  fix ops
  assume ops: "wf_operations ops" "op_steps_total (fillDefault fv fs KvModel) ops"
  then have typed: "kv_typed ops"
    by (simp add: kv_steps_total)
  let ?parts = "map (\<lambda>k. filter (\<lambda>q. op_key q = k) ops) (sorted_list_of_set (op_key ` set ops))"
  have "wf_operations p \<and> op_steps_total KvModel p" if "p \<in> set ?parts" for p
  proof -
    from that obtain k where p: "p = filter (\<lambda>q. op_key q = k) ops"
      by auto
    with ops(1) typed wf_operations_filter [OF ops(1)] show ?thesis
      by (auto simp: p kv_steps_total kv_typed_def)
  qed
  then show "\<exists>P parts. m_Partition (fillDefault fv fs KvModel) = Some P \<and> P ops = Some parts \<and>
      (\<forall>p \<in> set parts. wf_operations p \<and> op_steps_total (fillDefault fv fs KvModel) p) \<and>
      (op_linearizable kvStore ops \<longleftrightarrow> (\<forall>p \<in> set parts. op_linearizable (fillDefault fv fs KvModel) p))"
    using kv_Partition_spec [OF typed] kv_partition_correct [OF ops(1) typed]
    by (intro exI [of _ kv_Partition] exI [of _ ?parts]) (simp add: KvModel_def [THEN arg_cong [of _ _ m_Partition]])
qed (use assms KvModel_porcupine in auto)

interpretation kvm: porcupine_model "fillDefault fv fs KvModel" ShallowEqual
  by (rule KvModel_porcupine)

interpretation kv: operation_checker insertionSort "fillDefault fv fs KvModel" ShallowEqual "\<lambda>xs. xs"
  "op_linearizable kvStore"
  by (rule kv_checker) (simp_all add: eis.entry_sorting_axioms)

end
