(* ===== verification/Visualization.thy ===== *)
theory Visualization
  imports Porcupine
begin

text \<open>
  The data behind the checker's visualization (\<open>src/6.5840/src/porcupine/visualization.go\<close>, lines
  11--87). The panic of \<open>computeVisualizationData\<close> on a partial linearization that the model rejects,
  and every index out of range, is \<^term>\<open>None\<close>. Reading a missing key of a Go map gives the nil
  interface, the parameter \<open>nilv\<close>; \<open>sort.Slice\<close> is the parameter \<open>srt\<close>. Writing the JSON and HTML is
  not modelled.
\<close>

section \<open>Data\<close>

record historyElement =
  he_ClientId :: int
  he_Start :: int
  he_End :: int
  he_Description :: string

record linearizationStep =
  ls_Index :: int
  ls_StateDescription :: string

record partitionVisualizationData =
  pv_History :: "historyElement list"
  pv_PartialLinearizations :: "linearizationStep list list"
  pv_Largest :: "int \<rightharpoonup> int"

definition zero_historyElement :: historyElement where
  "zero_historyElement = \<lparr>he_ClientId = 0, he_Start = 0, he_End = 0, he_Description = ''''\<rparr>"

definition map_read :: "'v \<Rightarrow> (int \<rightharpoonup> 'v) \<Rightarrow> int \<Rightarrow> 'v" where
  "map_read nilv m i = (case m i of None \<Rightarrow> nilv | Some v \<Rightarrow> v)"

section \<open>The history of a partition\<close>

fun vis_history ::
  "('v, 's) Model \<Rightarrow> 'v \<Rightarrow> historyElement list \<Rightarrow> (int \<rightharpoonup> 'v) \<Rightarrow> (int \<rightharpoonup> 'v) \<Rightarrow> 'v entry list \<Rightarrow>
   (historyElement list \<times> (int \<rightharpoonup> 'v) \<times> (int \<rightharpoonup> 'v)) option" where
  "vis_history model nilv history callValue returnValue [] = Some (history, callValue, returnValue)"
| "vis_history model nilv history callValue returnValue (elem # elems) =
     (case e_kind elem of
        callEntry \<Rightarrow> do {
          he \<leftarrow> int_get history (e_id elem);
          history \<leftarrow> int_set history (e_id elem)
            (he\<lparr>he_ClientId := e_clientId elem, he_Start := e_time elem\<rparr>);
          vis_history model nilv history (callValue(e_id elem \<mapsto> e_value elem)) returnValue elems
        }
      | returnEntry \<Rightarrow> do {
          he \<leftarrow> int_get history (e_id elem);
          describe \<leftarrow> m_DescribeOperation model;
          d \<leftarrow> describe (map_read nilv callValue (e_id elem)) (e_value elem);
          history \<leftarrow> int_set history (e_id elem) (he\<lparr>he_End := e_time elem, he_Description := d\<rparr>);
          vis_history model nilv history callValue (returnValue(e_id elem \<mapsto> e_value elem)) elems
        })"

section \<open>The partial linearizations\<close>

text \<open>One partial linearization: its steps, and the indices of the largest ones seen so far.\<close>

fun vis_partial ::
  "('v, 's) Model \<Rightarrow> ('s \<Rightarrow> string) \<Rightarrow> (int \<Rightarrow> 'v) \<Rightarrow> (int \<Rightarrow> 'v) \<Rightarrow> int \<Rightarrow> nat \<Rightarrow> 's \<Rightarrow>
   (int \<rightharpoonup> int) \<Rightarrow> (int \<rightharpoonup> nat) \<Rightarrow> int list \<Rightarrow>
   (linearizationStep list \<times> (int \<rightharpoonup> int) \<times> (int \<rightharpoonup> nat)) option" where
  "vis_partial model desc callValue returnValue i len state largestIndex largestSize [] =
     Some ([], largestIndex, largestSize)"
| "vis_partial model desc callValue returnValue i len state largestIndex largestSize (histId # ids) = do {
     (ok, state) \<leftarrow> m_Step model state (callValue histId) (returnValue histId);
     if ok \<noteq> True then None else do {
       let step = \<lparr>ls_Index = histId, ls_StateDescription = desc state\<rparr>;
       (steps, largestIndex, largestSize) \<leftarrow>
         (if (case largestSize histId of None \<Rightarrow> 0 | Some k \<Rightarrow> k) < len
          then vis_partial model desc callValue returnValue i len state
                 (largestIndex(histId \<mapsto> i)) (largestSize(histId \<mapsto> len)) ids
          else vis_partial model desc callValue returnValue i len state largestIndex largestSize ids);
       Some (step # steps, largestIndex, largestSize)
     }
   }"

fun vis_partials ::
  "('v, 's) Model \<Rightarrow> ('s \<Rightarrow> string) \<Rightarrow> (int \<Rightarrow> 'v) \<Rightarrow> (int \<Rightarrow> 'v) \<Rightarrow> int \<Rightarrow>
   (int \<rightharpoonup> int) \<Rightarrow> (int \<rightharpoonup> nat) \<Rightarrow> int list list \<Rightarrow>
   (linearizationStep list list \<times> (int \<rightharpoonup> int)) option" where
  "vis_partials model desc callValue returnValue i largestIndex largestSize [] = Some ([], largestIndex)"
| "vis_partials model desc callValue returnValue i largestIndex largestSize (partial # partials) = do {
     (linearization, largestIndex, largestSize) \<leftarrow>
       vis_partial model desc callValue returnValue i (length partial) (m_Init model)
         largestIndex largestSize partial;
     (linearizations, largestIndex) \<leftarrow>
       vis_partials model desc callValue returnValue (i + 1) largestIndex largestSize partials;
     Some (linearization # linearizations, largestIndex)
   }"

definition longer :: "int list \<Rightarrow> int list \<Rightarrow> bool" where
  "longer a b = (length a > length b)"

definition vis_partition ::
  "((int list \<Rightarrow> int list \<Rightarrow> bool) \<Rightarrow> int list list \<Rightarrow> int list list) \<Rightarrow> ('v, 's) Model \<Rightarrow> 'v \<Rightarrow>
   'v entry list \<Rightarrow> int list list \<Rightarrow> partitionVisualizationData option" where
  "vis_partition srt model nilv entries partials = do {
     desc \<leftarrow> m_DescribeState model;
     let n = length entries div 2;
     (history, callValue, returnValue) \<leftarrow>
       vis_history model nilv (replicate n zero_historyElement) Map.empty Map.empty entries;
     (linearizations, largestIndex) \<leftarrow>
       vis_partials model desc (map_read nilv callValue) (map_read nilv returnValue) 0
         Map.empty Map.empty (srt longer partials);
     Some \<lparr>pv_History = history, pv_PartialLinearizations = linearizations, pv_Largest = largestIndex\<rparr>
   }"

fun vis_loop ::
  "((int list \<Rightarrow> int list \<Rightarrow> bool) \<Rightarrow> int list list \<Rightarrow> int list list) \<Rightarrow> ('v, 's) Model \<Rightarrow> 'v \<Rightarrow>
   'v entry list list \<Rightarrow> int list list list \<Rightarrow> partitionVisualizationData list option" where
  "vis_loop srt model nilv [] partials = Some []"
| "vis_loop srt model nilv (entries # rest) [] = None"
| "vis_loop srt model nilv (entries # rest) (partial # partials) = do {
     d \<leftarrow> vis_partition srt model nilv entries partial;
     ds \<leftarrow> vis_loop srt model nilv rest partials;
     Some (d # ds)
   }"

definition computeVisualizationData where
  "computeVisualizationData fv fs srt nilv model info =
     vis_loop srt (fillDefault fv fs model) nilv (li_history info) (li_partials info)"

section \<open>The panic is never reached\<close>

definition describable :: "('v, 's) Model \<Rightarrow> 'v entry list \<Rightarrow> bool" where
  "describable m es \<longleftrightarrow>
     m_DescribeState m \<noteq> None \<and>
     (\<exists>describe. m_DescribeOperation m = Some describe \<and>
        (\<forall>i a b. call_value es i = Some a \<longrightarrow> return_value es i = Some b \<longrightarrow> describe a b \<noteq> None))"

lemma find_appended:
  "find P (xs @ ys) = (case find P xs of None \<Rightarrow> find P ys | Some x \<Rightarrow> Some x)"
  by (induction xs) auto

lemma values_snoc:
  "call_value (xs @ [e]) = (if e_kind e = callEntry \<and> call_value xs (e_id e) = None
     then (call_value xs)(e_id e \<mapsto> e_value e) else call_value xs)"
  "return_value (xs @ [e]) = (if e_kind e = returnEntry \<and> return_value xs (e_id e) = None
     then (return_value xs)(e_id e \<mapsto> e_value e) else return_value xs)"
  by (auto simp: call_value_def return_value_def find_appended is_call_def is_return_def
      intro!: ext split: option.splits)

text \<open>The call of a return is scanned before it.\<close>

lemma call_before_return:
  assumes wf: "wf_history (xs @ e # ys)" and e: "e_kind e = returnEntry"
  obtains a where "call_value xs (e_id e) = Some a" "call_value (xs @ e # ys) (e_id e) = Some a"
    "return_value (xs @ e # ys) (e_id e) = Some (e_value e)"
proof -
  let ?es = "xs @ e # ys"
  have id: "e_id e \<in> history_ids ?es"
    using wf_historyD(3) [OF wf] by simp
  obtain us c vs r ws where es: "?es = us @ c # vs @ r # ws" and cr: "is_call (e_id e) c" "is_return (e_id e) r"
    using wf id by (rule wf_history_return_before)
  have "r \<in> set ?es"
    unfolding es by simp
  then have r: "r = e"
    using wf_history_key [OF wf, of r e] cr(2) e by (simp add: is_return_def)
  have "e \<notin> set xs" "e \<notin> set ys"
    using wf_history_distinct [OF wf] by auto
  then have xs: "xs = us @ c # vs"
    using es append_Cons_eq_iff [of e xs ys "us @ c # vs" ws] by (simp add: r)
  obtain a where a: "call_value xs (e_id e) = Some a"
    using cr(1) by (cases "find (is_call (e_id e)) xs") (auto simp: call_value_def xs find_None_iff)
  moreover have "call_value ?es (e_id e) = Some a"
    using a by (auto simp: call_value_def find_appended split: option.splits)
  moreover obtain r' where "r' \<in> set ?es" "is_return (e_id e) r'" "return_value ?es (e_id e) = Some (e_value r')"
    using wf id by (rule wf_history_entries)
  then have "return_value ?es (e_id e) = Some (e_value e)"
    using wf_history_key [OF wf, of r' e] e by (simp add: is_return_def)
  ultimately show thesis
    by (rule that)
qed

text \<open>Scanning the entries: the maps hold the values of the calls and returns met so far.\<close>

lemma vis_history_ok:
  assumes "wf_history (xs @ ys)" "describable m (xs @ ys)" "length hs = length (xs @ ys) div 2"
  shows "\<exists>hs'. vis_history m nilv hs (call_value xs) (return_value xs) ys =
    Some (hs', call_value (xs @ ys), return_value (xs @ ys)) \<and> length hs' = length hs"
  using assms
proof (induction ys arbitrary: xs hs)
  case (Cons e ys)
  let ?es = "xs @ e # ys"
  have id: "0 \<le> e_id e" "nat (e_id e) < length hs"
    using wf_historyD(3) [OF Cons.prems(1), of e] Cons.prems(3) by (auto simp: history_ids_def)
  have IH: "\<exists>hs''. vis_history m nilv hs' (call_value (xs @ [e])) (return_value (xs @ [e])) ys =
      Some (hs'', call_value ?es, return_value ?es) \<and> length hs'' = length hs"
    if "length hs' = length hs" for hs'
    using Cons.IH [of "xs @ [e]" hs'] Cons.prems that by simp
  have "(e_kind e, e_id e) \<notin> (\<lambda>e. (e_kind e, e_id e)) ` set xs"
    using wf_historyD(2) [OF Cons.prems(1)] by simp
  then have fresh: "e_id x \<noteq> e_id e" if "x \<in> set xs" "e_kind x = e_kind e" for x
    using that by (auto simp: image_iff)
  show ?case
  proof (cases "e_kind e")
    case callEntry
    have "call_value xs (e_id e) = None"
      using fresh callEntry by (auto simp: call_value_def find_None_iff is_call_def)
    then show ?thesis
      using IH id callEntry by (simp add: values_snoc int_get_def int_set_def)
  next
    case returnEntry
    have none: "return_value xs (e_id e) = None"
      using fresh returnEntry by (auto simp: return_value_def find_None_iff is_return_def)
    obtain a where a: "call_value xs (e_id e) = Some a" "call_value ?es (e_id e) = Some a"
      "return_value ?es (e_id e) = Some (e_value e)"
      using Cons.prems(1) returnEntry by (rule call_before_return)
    from Cons.prems(2) obtain describe where desc: "m_DescribeOperation m = Some describe"
      "\<And>i a b. call_value ?es i = Some a \<Longrightarrow> return_value ?es i = Some b \<Longrightarrow> describe a b \<noteq> None"
      unfolding describable_def by blast
    from desc(2) [OF a(2,3)] obtain d where "describe a (e_value e) = Some d"
      by blast
    then show ?thesis
      using IH id returnEntry none a(1) desc(1) by (simp add: values_snoc int_get_def int_set_def map_read_def)
  qed
qed simp

text \<open>One partial linearization: the steps are its ids, and the largest indices move to it where it is
  longer than what was seen.\<close>

definition size_of :: "(int \<rightharpoonup> nat) \<Rightarrow> int \<Rightarrow> nat" where
  "size_of ls x = (case ls x of None \<Rightarrow> 0 | Some k \<Rightarrow> k)"

lemma vis_partial_ok:
  assumes "run_ops m es s ids \<noteq> None"
    and "\<And>i a. call_value es i = Some a \<Longrightarrow> cv i = a" "\<And>i b. return_value es i = Some b \<Longrightarrow> rv i = b"
  shows "\<exists>steps. vis_partial m desc cv rv i len s li ls ids =
      Some (steps, \<lambda>x. if x \<in> set ids \<and> size_of ls x < len then Some i else li x,
                   \<lambda>x. if x \<in> set ids \<and> size_of ls x < len then Some len else ls x) \<and>
    map ls_Index steps = ids"
  using assms(1)
proof (induction ids arbitrary: s li ls)
  case (Cons h ids)
  from Cons.prems obtain s' where s': "step_op m es s h = Some s'" "run_ops m es s' ids \<noteq> None"
    by (auto split: bind_splits)
  then obtain a b where "call_value es h = Some a" "return_value es h = Some b"
    "m_Step m s a b = Some (True, s')"
    by (auto simp: step_op_def split: bind_splits if_splits)
  with assms(2,3) have step: "m_Step m s (cv h) (rv h) = Some (True, s')"
    by metis
  show ?case
  proof (cases "size_of ls h < len")
    case True
    with Cons.IH [OF s'(2), of "li(h \<mapsto> i)" "ls(h \<mapsto> len)"] obtain steps where
      st: "vis_partial m desc cv rv i len s' (li(h \<mapsto> i)) (ls(h \<mapsto> len)) ids =
        Some (steps, \<lambda>x. if x \<in> set ids \<and> size_of (ls(h \<mapsto> len)) x < len then Some i else (li(h \<mapsto> i)) x,
              \<lambda>x. if x \<in> set ids \<and> size_of (ls(h \<mapsto> len)) x < len then Some len else (ls(h \<mapsto> len)) x)"
      "map ls_Index steps = ids" by blast
    have "(\<lambda>x. if x \<in> set ids \<and> size_of (ls(h \<mapsto> len)) x < len then Some i else (li(h \<mapsto> i)) x) =
        (\<lambda>x. if x \<in> set (h # ids) \<and> size_of ls x < len then Some i else li x)"
      "(\<lambda>x. if x \<in> set ids \<and> size_of (ls(h \<mapsto> len)) x < len then Some len else (ls(h \<mapsto> len)) x) =
        (\<lambda>x. if x \<in> set (h # ids) \<and> size_of ls x < len then Some len else ls x)"
      using True by (auto simp: size_of_def)
    with st True step show ?thesis
      by (simp add: size_of_def del: fun_upd_apply)
  next
    case False
    with Cons.IH [OF s'(2), of li ls] obtain steps where
      st: "vis_partial m desc cv rv i len s' li ls ids =
        Some (steps, \<lambda>x. if x \<in> set ids \<and> size_of ls x < len then Some i else li x,
              \<lambda>x. if x \<in> set ids \<and> size_of ls x < len then Some len else ls x)"
      "map ls_Index steps = ids" by blast
    have "(\<lambda>x. if x \<in> set ids \<and> size_of ls x < len then Some i else li x) =
        (\<lambda>x. if x \<in> set (h # ids) \<and> size_of ls x < len then Some i else li x)"
      "(\<lambda>x. if x \<in> set ids \<and> size_of ls x < len then Some len else ls x) =
        (\<lambda>x. if x \<in> set (h # ids) \<and> size_of ls x < len then Some len else ls x)"
      using False by auto
    with st False step show ?thesis
      by (simp add: size_of_def)
  qed
qed simp

text \<open>\<open>largest_ok P li ls\<close>: among the partial linearizations \<open>P\<close>, \<open>li\<close> points to a longest one with the id.\<close>

definition largest_ok :: "int list list \<Rightarrow> (int \<rightharpoonup> int) \<Rightarrow> (int \<rightharpoonup> nat) \<Rightarrow> bool" where
  "largest_ok P li ls \<longleftrightarrow>
     (\<forall>x. if \<exists>p \<in> set P. x \<in> set p
          then \<exists>k < length P. li x = Some (int k) \<and> ls x = Some (length (P ! k)) \<and> x \<in> set (P ! k) \<and>
                 (\<forall>p \<in> set P. x \<in> set p \<longrightarrow> length p \<le> length (P ! k))
          else li x = None \<and> ls x = None)"

lemma largest_ok_snoc:
  assumes "largest_ok P li ls"
  shows "largest_ok (P @ [p])
    (\<lambda>x. if x \<in> set p \<and> size_of ls x < length p then Some (int (length P)) else li x)
    (\<lambda>x. if x \<in> set p \<and> size_of ls x < length p then Some (length p) else ls x)"
  unfolding largest_ok_def
proof (rule allI)
  fix x
  let ?li = "\<lambda>x. if x \<in> set p \<and> size_of ls x < length p then Some (int (length P)) else li x"
  let ?ls = "\<lambda>x. if x \<in> set p \<and> size_of ls x < length p then Some (length p) else ls x"
  let ?P = "P @ [p]"
  show "if \<exists>p \<in> set ?P. x \<in> set p
    then \<exists>k < length ?P. ?li x = Some (int k) \<and> ?ls x = Some (length (?P ! k)) \<and> x \<in> set (?P ! k) \<and>
           (\<forall>p \<in> set ?P. x \<in> set p \<longrightarrow> length p \<le> length (?P ! k))
    else ?li x = None \<and> ?ls x = None"
  proof (cases "\<exists>p \<in> set P. x \<in> set p")
    case True
    with assms obtain k where k: "k < length P" "li x = Some (int k)" "ls x = Some (length (P ! k))"
      "x \<in> set (P ! k)" "\<forall>p \<in> set P. x \<in> set p \<longrightarrow> length p \<le> length (P ! k)"
      unfolding largest_ok_def by meson
    show ?thesis
    proof (cases "x \<in> set p \<and> length (P ! k) < length p")
      case True
      with k show ?thesis
        by (auto simp: size_of_def intro!: exI [of _ "length P"])
    next
      case False
      with k show ?thesis
        by (auto simp: size_of_def nth_append intro!: exI [of _ k])
    qed
  next
    case False
    with assms have "li x = None" "ls x = None"
      unfolding largest_ok_def by meson+
    with False show ?thesis
      by (auto simp: size_of_def intro!: exI [of _ "length P"])
  qed
qed

lemma vis_partials_ok:
  assumes "\<And>p. p \<in> set ps \<Longrightarrow> run_ops m es (m_Init m) p \<noteq> None" "largest_ok P li ls"
    and "\<And>i a. call_value es i = Some a \<Longrightarrow> cv i = a" "\<And>i b. return_value es i = Some b \<Longrightarrow> rv i = b"
  shows "\<exists>lins li' ls'. vis_partials m desc cv rv (int (length P)) li ls ps = Some (lins, li') \<and>
    map (map ls_Index) lins = ps \<and> largest_ok (P @ ps) li' ls'"
  using assms(1,2)
proof (induction ps arbitrary: P li ls)
  case (Cons p ps)
  have "run_ops m es (m_Init m) p \<noteq> None"
    using Cons.prems(1) by simp
  from vis_partial_ok [where cv = cv and rv = rv and desc = desc and i = "int (length P)" and
      len = "length p" and li = li and ls = ls, OF this assms(3,4)]
  obtain steps where steps: "vis_partial m desc cv rv (int (length P)) (length p) (m_Init m) li ls p =
      Some (steps, \<lambda>x. if x \<in> set p \<and> size_of ls x < length p then Some (int (length P)) else li x,
                   \<lambda>x. if x \<in> set p \<and> size_of ls x < length p then Some (length p) else ls x)"
    "map ls_Index steps = p" by blast
  from Cons.IH [OF _ largest_ok_snoc [OF Cons.prems(2), of p]] Cons.prems(1) steps show ?case
    by (fastforce simp: add.commute)
qed auto

lemma vis_partition_ok:
  assumes wf: "wf_history es" and d: "describable m es"
    and perm: "mset (srt longer partials) = mset partials"
    and part: "\<And>p. p \<in> set partials \<Longrightarrow> partial_linearization m es p"
  obtains v where "vis_partition srt m nilv es partials = Some v"
    "map (map ls_Index) (pv_PartialLinearizations v) = srt longer partials"
    "length (pv_History v) = length es div 2"
    "\<exists>ls. largest_ok (srt longer partials) (pv_Largest v) ls"
proof -
  obtain desc where desc: "m_DescribeState m = Some desc"
    using d by (auto simp: describable_def)
  have empty: "call_value [] = Map.empty" "return_value [] = Map.empty"
    by (auto simp: call_value_def return_value_def)
  from vis_history_ok [of "[]" es m "replicate (length es div 2) zero_historyElement" nilv] wf d
  obtain hs where hs: "vis_history m nilv (replicate (length es div 2) zero_historyElement) Map.empty Map.empty es =
      Some (hs, call_value es, return_value es)" "length hs = length es div 2"
    by (auto simp: empty)
  have "set (srt longer partials) = set partials"
    using perm mset_eq_setD by blast
  then have run: "p \<in> set (srt longer partials) \<Longrightarrow> run_ops m es (m_Init m) p \<noteq> None" for p
    using part by (auto simp: partial_linearization_def)
  have "largest_ok [] Map.empty Map.empty"
    by (simp add: largest_ok_def)
  from vis_partials_ok [where cv = "map_read nilv (call_value es)" and
      rv = "map_read nilv (return_value es)" and desc = desc and ps = "srt longer partials", OF run this]
  obtain lins li ls where lins: "vis_partials m desc (map_read nilv (call_value es)) (map_read nilv (return_value es))
      0 Map.empty Map.empty (srt longer partials) = Some (lins, li)"
    "map (map ls_Index) lins = srt longer partials" "largest_ok (srt longer partials) li ls"
    by (auto simp: map_read_def)
  show thesis
    using desc hs lins by (intro that) (auto simp: vis_partition_def Let_def)
qed

text \<open>What the checker reports can be shown: no panic, and the data is that of the report.\<close>

lemma vis_loop_ok:
  assumes "length partials = length hist"
    and "\<And>i. i < length hist \<Longrightarrow> wf_history (hist ! i) \<and> describable m (hist ! i) \<and>
      (\<forall>p \<in> set (partials ! i). partial_linearization m (hist ! i) p)"
    and perm: "\<And>xs. mset (srt longer xs) = mset xs"
  shows "\<exists>d. vis_loop srt m nilv hist partials = Some d \<and> length d = length hist \<and>
    (\<forall>i < length hist. map (map ls_Index) (pv_PartialLinearizations (d ! i)) = srt longer (partials ! i) \<and>
       (\<exists>ls. largest_ok (srt longer (partials ! i)) (pv_Largest (d ! i)) ls))"
  using assms(1,2)
proof (induction hist arbitrary: partials)
  case (Cons es hist ps)
  then obtain p partials where ps: "ps = p # partials"
    by (cases ps) auto
  have "wf_history es" "describable m es" "\<And>q. q \<in> set p \<Longrightarrow> partial_linearization m es q"
    using Cons.prems(2) [of 0] ps by auto
  from this(1,2) perm this(3) obtain v where v: "vis_partition srt m nilv es p = Some v"
    "map (map ls_Index) (pv_PartialLinearizations v) = srt longer p"
    "\<exists>ls. largest_ok (srt longer p) (pv_Largest v) ls"
    by (rule vis_partition_ok) blast
  have "\<exists>d. vis_loop srt m nilv hist partials = Some d \<and> length d = length hist \<and>
      (\<forall>i < length hist. map (map ls_Index) (pv_PartialLinearizations (d ! i)) = srt longer (partials ! i) \<and>
       (\<exists>ls. largest_ok (srt longer (partials ! i)) (pv_Largest (d ! i)) ls))"
    using Cons.prems(1) Cons.prems(2) [of "Suc _"] ps by (intro Cons.IH) auto
  then obtain d where "vis_loop srt m nilv hist partials = Some d" "length d = length hist"
    "\<forall>i < length hist. map (map ls_Index) (pv_PartialLinearizations (d ! i)) = srt longer (partials ! i) \<and>
       (\<exists>ls. largest_ok (srt longer (partials ! i)) (pv_Largest (d ! i)) ls)"
    by blast
  with v ps show ?case
    by (auto simp: nth_Cons split: nat.split intro!: exI [of _ "v # d"])
qed simp

end
