(* ===== verification/Labrpc.thy ===== *)
theory Labrpc
  imports Prelude
begin

text \<open>
  The simulated network of the labs (\<open>src/6.5840/src/labrpc/labrpc.go\<close>). Client ends have names of
  type \<open>'e\<close>, servers names of type \<open>'n\<close>; a server is an object at an address of the heap \<open>rn_objs\<close>, since
  the network compares server pointers. A handler acts on the world \<open>'w\<close> of the servers' states: it
  decodes the argument bytes, runs, and encodes the reply (reflection and gob are not under \<open>src/\<close>).

  Requests are goroutines: \<open>net_step\<close> gives the effect of one step of one of them, and the step labels
  carry the random choices and the timers. A handler runs in one step.
\<close>

section \<open>Services\<close>

record 'w rpc_method =
  me_Name :: string
  me_PkgPath :: string
  me_NumIn :: nat
  me_In2IsPtr :: bool
  me_NumOut :: nat
  me_Func :: "'w \<Rightarrow> bytes \<Rightarrow> 'w \<times> bytes"

record 'w Service =
  sv_name :: string
  sv_methods :: "string \<rightharpoonup> 'w rpc_method"

record 'e reqMsg =
  rq_endname :: 'e
  rq_svcMeth :: string
  rq_args :: bytes

record replyMsg =
  rp_ok :: bool
  rp_reply :: bytes

definition failed :: replyMsg where
  "failed = \<lparr>rp_ok = False, rp_reply = []\<rparr>"

definition suitable :: "'w rpc_method \<Rightarrow> bool" where
  "suitable me \<longleftrightarrow> \<not> (me_PkgPath me \<noteq> '''' \<or> me_NumIn me \<noteq> 3 \<or> \<not> me_In2IsPtr me \<or> me_NumOut me \<noteq> 0)"

fun MakeService_loop :: "(string \<rightharpoonup> 'w rpc_method) \<Rightarrow> 'w rpc_method list \<Rightarrow> (string \<rightharpoonup> 'w rpc_method)" where
  "MakeService_loop ms [] = ms"
| "MakeService_loop ms (method # rest) =
     (if \<not> suitable method then MakeService_loop ms rest
      else MakeService_loop (ms(me_Name method \<mapsto> method)) rest)"

definition MakeService :: "string \<Rightarrow> 'w rpc_method list \<Rightarrow> 'w Service" where
  "MakeService name methods = \<lparr>sv_name = name, sv_methods = MakeService_loop Map.empty methods\<rparr>"

definition Service_dispatch ::
  "'w Service \<Rightarrow> string \<Rightarrow> 'e reqMsg \<Rightarrow> 'w \<Rightarrow> ('w \<times> replyMsg) result" where
  "Service_dispatch svc methname req w =
     (case sv_methods svc methname of
        Some method \<Rightarrow>
          let (w', reply) = me_Func method w (rq_args req)
          in Inr (w', \<lparr>rp_ok = True, rp_reply = reply\<rparr>)
      | None \<Rightarrow> Inl Fatal)"

section \<open>Servers\<close>

record 'w Server =
  srv_services :: "string \<rightharpoonup> 'w Service"
  srv_count :: int

definition MakeServer :: "'w Server" where
  "MakeServer = \<lparr>srv_services = Map.empty, srv_count = 0\<rparr>"

definition AddService :: "'w Server \<Rightarrow> 'w Service \<Rightarrow> 'w Server" where
  "AddService rs svc = rs\<lparr>srv_services := (srv_services rs)(sv_name svc \<mapsto> svc)\<rparr>"

definition LastIndex :: "string \<Rightarrow> char \<Rightarrow> int" where
  "LastIndex s c =
     (if c \<in> set s then int (length s) - 1 - int (length (takeWhile (\<lambda>x. x \<noteq> c) (rev s))) else - 1)"

text \<open>\<open>svcMeth[:dot]\<close> and \<open>svcMeth[dot+1:]\<close>; without a dot the first panics.\<close>

definition split_method :: "string \<Rightarrow> (string \<times> string) result" where
  "split_method svcMeth =
     (let dot = LastIndex svcMeth (CHR ''.'') in
      if dot < 0 then Inl Panic else Inr (take (nat dot) svcMeth, drop (nat dot + 1) svcMeth))"

definition Server_dispatch ::
  "'w Server \<Rightarrow> 'e reqMsg \<Rightarrow> 'w \<Rightarrow> ('w Server \<times> 'w \<times> replyMsg) result" where
  "Server_dispatch rs req w =
     (let rs = rs\<lparr>srv_count := srv_count rs + 1\<rparr> in
      result_bind (split_method (rq_svcMeth req)) (\<lambda>(serviceName, methodName).
        case srv_services rs serviceName of
          Some service \<Rightarrow>
            result_bind (Service_dispatch service methodName req w) (\<lambda>(w', reply). Inr (rs, w', reply))
        | None \<Rightarrow> Inl Fatal))"

section \<open>Requests in flight\<close>

record 'n endInfo =
  ei_servername :: 'n
  ei_server :: nat
  ei_reliable :: bool
  ei_longreordering :: bool

text \<open>
  The life of a request: sent by \<open>Call\<close>; taken by the network's goroutine; waiting for the handler;
  out of the waiting loop; a reply on a timer; and answered. \<open>Aborted\<close> is a \<open>Call\<close> that saw the network
  destroyed.
\<close>

datatype 'n call_phase =
    Sent
  | Accepted
  | Waiting "'n endInfo"
  | Decided "'n endInfo" "replyMsg option"
  | Delayed replyMsg
  | Answered replyMsg
  | Aborted

record ('e, 'n) flight =
  fl_req :: "'e reqMsg"
  fl_phase :: "'n call_phase"
  fl_handler :: "nat option"
  fl_ech :: "replyMsg option"
  fl_runs :: nat

record ('e, 'n, 'w) Network =
  rn_reliable :: bool
  rn_longDelays :: bool
  rn_longReordering :: bool
  rn_ends :: "'e set"
  rn_enabled :: "'e \<Rightarrow> bool"
  rn_servers :: "'n \<Rightarrow> nat option"
  rn_connections :: "'e \<Rightarrow> 'n option"
  rn_objs :: "'w Server list"
  rn_done :: bool
  rn_stopped :: bool
  rn_count :: uint32
  rn_bytes :: uint64
  rn_flights :: "('e, 'n) flight list"
  rn_world :: 'w

definition MakeNetwork :: "'w \<Rightarrow> ('e, 'n, 'w) Network" where
  "MakeNetwork w =
     \<lparr>rn_reliable = True, rn_longDelays = False, rn_longReordering = False, rn_ends = {},
      rn_enabled = (\<lambda>_. False), rn_servers = (\<lambda>_. None), rn_connections = (\<lambda>_. None), rn_objs = [],
      rn_done = False, rn_stopped = False, rn_count = 0, rn_bytes = 0, rn_flights = [], rn_world = w\<rparr>"

text \<open>\<open>rn_stopped\<close>: the network's goroutine has seen the closed channel and returned. Until then its
  \<open>select\<close> may still take a request.\<close>

section \<open>Administration\<close>

text \<open>Closing a channel twice panics.\<close>

definition Cleanup :: "('e, 'n, 'w) Network \<Rightarrow> ('e, 'n, 'w) Network result" where
  "Cleanup rn = (if rn_done rn then Inl Panic else Inr (rn\<lparr>rn_done := True\<rparr>))"

definition Reliable :: "bool \<Rightarrow> ('e, 'n, 'w) Network \<Rightarrow> ('e, 'n, 'w) Network" where
  "Reliable yes rn = rn\<lparr>rn_reliable := yes\<rparr>"

definition LongReordering :: "bool \<Rightarrow> ('e, 'n, 'w) Network \<Rightarrow> ('e, 'n, 'w) Network" where
  "LongReordering yes rn = rn\<lparr>rn_longReordering := yes\<rparr>"

definition LongDelays :: "bool \<Rightarrow> ('e, 'n, 'w) Network \<Rightarrow> ('e, 'n, 'w) Network" where
  "LongDelays yes rn = rn\<lparr>rn_longDelays := yes\<rparr>"

definition MakeEnd :: "'e \<Rightarrow> ('e, 'n, 'w) Network \<Rightarrow> ('e, 'n, 'w) Network result" where
  "MakeEnd endname rn =
     (if endname \<in> rn_ends rn then Inl Fatal
      else Inr (rn\<lparr>rn_ends := insert endname (rn_ends rn),
                   rn_enabled := (rn_enabled rn)(endname := False),
                   rn_connections := (rn_connections rn)(endname := None)\<rparr>))"

text \<open>A server object lives at an address: a new one gets the next.\<close>

definition new_server :: "('e, 'n, 'w) Network \<Rightarrow> ('e, 'n, 'w) Network" where
  "new_server rn = rn\<lparr>rn_objs := rn_objs rn @ [MakeServer]\<rparr>"

definition add_service :: "nat \<Rightarrow> 'w Service \<Rightarrow> ('e, 'n, 'w) Network \<Rightarrow> ('e, 'n, 'w) Network result" where
  "add_service a svc rn =
     result_bind (get_at (rn_objs rn) a) (\<lambda>rs. Inr (rn\<lparr>rn_objs := (rn_objs rn)[a := AddService rs svc]\<rparr>))"

definition AddServer :: "'n \<Rightarrow> nat \<Rightarrow> ('e, 'n, 'w) Network \<Rightarrow> ('e, 'n, 'w) Network" where
  "AddServer servername rs rn = rn\<lparr>rn_servers := (rn_servers rn)(servername := Some rs)\<rparr>"

definition DeleteServer :: "'n \<Rightarrow> ('e, 'n, 'w) Network \<Rightarrow> ('e, 'n, 'w) Network" where
  "DeleteServer servername rn = rn\<lparr>rn_servers := (rn_servers rn)(servername := None)\<rparr>"

definition Connect :: "'e \<Rightarrow> 'n \<Rightarrow> ('e, 'n, 'w) Network \<Rightarrow> ('e, 'n, 'w) Network" where
  "Connect endname servername rn =
     rn\<lparr>rn_connections := (rn_connections rn)(endname := Some servername)\<rparr>"

definition Enable :: "'e \<Rightarrow> bool \<Rightarrow> ('e, 'n, 'w) Network \<Rightarrow> ('e, 'n, 'w) Network" where
  "Enable endname enabled rn = rn\<lparr>rn_enabled := (rn_enabled rn)(endname := enabled)\<rparr>"

definition GetCount :: "'n \<Rightarrow> ('e, 'n, 'w) Network \<Rightarrow> int result" where
  "GetCount servername rn =
     (case rn_servers rn servername of
        None \<Rightarrow> Inl Panic
      | Some a \<Rightarrow> result_bind (get_at (rn_objs rn) a) (\<lambda>rs. Inr (srv_count rs)))"

definition GetTotalCount :: "('e, 'n, 'w) Network \<Rightarrow> int" where
  "GetTotalCount rn = sint (rn_count rn)"

definition GetTotalBytes :: "('e, 'n, 'w) Network \<Rightarrow> int" where
  "GetTotalBytes rn = sint (rn_bytes rn)"

section \<open>Processing a request\<close>

definition readEndnameInfo ::
  "'e \<Rightarrow> ('e, 'n, 'w) Network \<Rightarrow> bool \<times> 'n option \<times> nat option \<times> bool \<times> bool" where
  "readEndnameInfo endname rn =
     (rn_enabled rn endname, rn_connections rn endname,
      (case rn_connections rn endname of None \<Rightarrow> None | Some servername \<Rightarrow> rn_servers rn servername),
      rn_reliable rn, rn_longReordering rn)"

definition isServerDead :: "'e \<Rightarrow> 'n \<Rightarrow> nat \<Rightarrow> ('e, 'n, 'w) Network \<Rightarrow> bool" where
  "isServerDead endname servername server rn \<longleftrightarrow>
     \<not> rn_enabled rn endname \<or> rn_servers rn servername \<noteq> Some server"

definition set_flight :: "nat \<Rightarrow> ('e, 'n) flight \<Rightarrow> ('e, 'n, 'w) Network \<Rightarrow> ('e, 'n, 'w) Network" where
  "set_flight i fl rn = rn\<lparr>rn_flights := (rn_flights rn)[i := fl]\<rparr>"

definition answer :: "nat \<Rightarrow> replyMsg \<Rightarrow> ('e, 'n, 'w) Network \<Rightarrow> ('e, 'n, 'w) Network" where
  "answer i r rn = set_flight i ((rn_flights rn ! i)\<lparr>fl_phase := Answered r\<rparr>) rn"

definition add_bytes :: "nat \<Rightarrow> ('e, 'n, 'w) Network \<Rightarrow> ('e, 'n, 'w) Network" where
  "add_bytes n rn = rn\<lparr>rn_bytes := rn_bytes rn + of_nat n\<rparr>"

text \<open>\<open>Call\<close> up to its first \<open>select\<close>: the request is offered to the network.\<close>

definition Call_send :: "'e \<Rightarrow> string \<Rightarrow> bytes \<Rightarrow> ('e, 'n, 'w) Network \<Rightarrow> ('e, 'n, 'w) Network" where
  "Call_send endname svcMeth args rn =
     rn\<lparr>rn_flights := rn_flights rn @
       [\<lparr>fl_req = \<lparr>rq_endname = endname, rq_svcMeth = svcMeth, rq_args = args\<rparr>,
         fl_phase = Sent, fl_handler = None, fl_ech = None, fl_runs = 0\<rparr>]\<rparr>"

text \<open>The \<open>select\<close>: the network takes the request, or the network is destroyed.\<close>

definition Network_accept :: "nat \<Rightarrow> ('e, 'n, 'w) Network \<Rightarrow> ('e, 'n, 'w) Network" where
  "Network_accept i rn =
     add_bytes (length (rq_args (fl_req (rn_flights rn ! i))))
       (set_flight i ((rn_flights rn ! i)\<lparr>fl_phase := Accepted\<rparr>) (rn\<lparr>rn_count := rn_count rn + 1\<rparr>))"

definition processReq_begin :: "bool \<Rightarrow> nat \<Rightarrow> ('e, 'n, 'w) Network \<Rightarrow> ('e, 'n, 'w) Network" where
  "processReq_begin drop_req i rn =
     (let fl = rn_flights rn ! i;
          (enabled, servername, server, reliable, longreordering) = readEndnameInfo (rq_endname (fl_req fl)) rn
      in case (servername, server) of
           (Some name, Some a) \<Rightarrow>
             if enabled then
               if \<not> reliable \<and> drop_req then answer i failed rn
               else set_flight i (fl\<lparr>fl_phase := Waiting \<lparr>ei_servername = name, ei_server = a,
                        ei_reliable = reliable, ei_longreordering = longreordering\<rparr>,
                      fl_handler := Some a\<rparr>) rn
             else set_flight i (fl\<lparr>fl_phase := Delayed failed\<rparr>) rn
         | _ \<Rightarrow> set_flight i (fl\<lparr>fl_phase := Delayed failed\<rparr>) rn)"

text \<open>The goroutine that runs the handler; it ends even when nobody waits for it any more.\<close>

definition run_handler :: "nat \<Rightarrow> ('e, 'n, 'w) Network \<Rightarrow> ('e, 'n, 'w) Network result" where
  "run_handler i rn =
     (let fl = rn_flights rn ! i in
      case fl_handler fl of
        None \<Rightarrow> Inr rn
      | Some a \<Rightarrow>
          result_bind (get_at (rn_objs rn) a) (\<lambda>server.
          result_bind (Server_dispatch server (fl_req fl) (rn_world rn)) (\<lambda>(server', w, r).
            Inr (set_flight i (fl\<lparr>fl_handler := None, fl_ech := Some r, fl_runs := fl_runs fl + 1\<rparr>)
              (rn\<lparr>rn_objs := (rn_objs rn)[a := server'], rn_world := w\<rparr>)))))"

definition wait_reply :: "nat \<Rightarrow> 'n endInfo \<Rightarrow> replyMsg \<Rightarrow> ('e, 'n, 'w) Network \<Rightarrow> ('e, 'n, 'w) Network" where
  "wait_reply i info r rn =
     set_flight i ((rn_flights rn ! i)\<lparr>fl_phase := Decided info (Some r), fl_ech := None\<rparr>) rn"

definition wait_timer :: "nat \<Rightarrow> 'n endInfo \<Rightarrow> ('e, 'n, 'w) Network \<Rightarrow> ('e, 'n, 'w) Network" where
  "wait_timer i info rn =
     (let fl = rn_flights rn ! i in
      if isServerDead (rq_endname (fl_req fl)) (ei_servername info) (ei_server info) rn
      then set_flight i (fl\<lparr>fl_phase := Decided info None\<rparr>) rn
      else rn)"

definition processReq_end ::
  "bool \<Rightarrow> bool \<Rightarrow> nat \<Rightarrow> 'n endInfo \<Rightarrow> replyMsg option \<Rightarrow> ('e, 'n, 'w) Network \<Rightarrow> ('e, 'n, 'w) Network" where
  "processReq_end drop_reply delay i info reply rn =
     (let fl = rn_flights rn ! i;
          serverDead = isServerDead (rq_endname (fl_req fl)) (ei_servername info) (ei_server info) rn
      in case reply of
           None \<Rightarrow> answer i failed rn
         | Some r \<Rightarrow>
             if serverDead then answer i failed rn
             else if \<not> ei_reliable info \<and> drop_reply then answer i failed rn
             else if ei_longreordering info \<and> delay then set_flight i (fl\<lparr>fl_phase := Delayed r\<rparr>) rn
             else answer i r (add_bytes (length (rp_reply r)) rn))"

definition fire_timer :: "nat \<Rightarrow> replyMsg \<Rightarrow> ('e, 'n, 'w) Network \<Rightarrow> ('e, 'n, 'w) Network" where
  "fire_timer i r rn = answer i r (if rp_ok r then add_bytes (length (rp_reply r)) rn else rn)"

section \<open>Steps\<close>

datatype ('e, 'n, 'w) label =
    L_call 'e string bytes
  | L_accept nat
  | L_abort nat
  | L_stop
  | L_begin nat bool
  | L_handler nat
  | L_reply nat
  | L_timer nat
  | L_end nat bool bool
  | L_fire nat
  | L_enable 'e bool
  | L_connect 'e 'n
  | L_new_server
  | L_add_service nat "'w Service"
  | L_add_server 'n nat
  | L_delete_server 'n
  | L_reliable bool
  | L_long_reordering bool
  | L_long_delays bool
  | L_cleanup
  | L_make_end 'e

definition flight_at :: "nat \<Rightarrow> ('e, 'n, 'w) Network \<Rightarrow> 'n call_phase option" where
  "flight_at i rn = (if i < length (rn_flights rn) then Some (fl_phase (rn_flights rn ! i)) else None)"

text \<open>\<^term>\<open>None\<close>: the step is not enabled.\<close>

fun net_step :: "('e, 'n, 'w) label \<Rightarrow> ('e, 'n, 'w) Network \<Rightarrow> ('e, 'n, 'w) Network result option" where
  "net_step (L_call e sm args) rn = Some (Inr (Call_send e sm args rn))"
| "net_step (L_accept i) rn =
     (if flight_at i rn = Some Sent \<and> \<not> rn_stopped rn then Some (Inr (Network_accept i rn)) else None)"
| "net_step (L_abort i) rn =
     (if flight_at i rn = Some Sent \<and> rn_done rn
      then Some (Inr (set_flight i ((rn_flights rn ! i)\<lparr>fl_phase := Aborted\<rparr>) rn)) else None)"
| "net_step L_stop rn =
     (if rn_done rn \<and> \<not> rn_stopped rn then Some (Inr (rn\<lparr>rn_stopped := True\<rparr>)) else None)"
| "net_step (L_begin i d) rn =
     (if flight_at i rn = Some Accepted then Some (Inr (processReq_begin d i rn)) else None)"
| "net_step (L_handler i) rn =
     (if i < length (rn_flights rn) \<and> fl_handler (rn_flights rn ! i) \<noteq> None then Some (run_handler i rn) else None)"
| "net_step (L_reply i) rn =
     (case flight_at i rn of
        Some (Waiting info) \<Rightarrow>
          (case fl_ech (rn_flights rn ! i) of
             None \<Rightarrow> None
           | Some r \<Rightarrow> Some (Inr (wait_reply i info r rn)))
      | _ \<Rightarrow> None)"
| "net_step (L_timer i) rn =
     (case flight_at i rn of Some (Waiting info) \<Rightarrow> Some (Inr (wait_timer i info rn)) | _ \<Rightarrow> None)"
| "net_step (L_end i d l) rn =
     (case flight_at i rn of Some (Decided info r) \<Rightarrow> Some (Inr (processReq_end d l i info r rn)) | _ \<Rightarrow> None)"
| "net_step (L_fire i) rn =
     (case flight_at i rn of Some (Delayed r) \<Rightarrow> Some (Inr (fire_timer i r rn)) | _ \<Rightarrow> None)"
| "net_step (L_enable e b) rn = Some (Inr (Enable e b rn))"
| "net_step (L_connect e n) rn = Some (Inr (Connect e n rn))"
| "net_step L_new_server rn = Some (Inr (new_server rn))"
| "net_step (L_add_service a svc) rn = Some (add_service a svc rn)"
| "net_step (L_add_server n a) rn = Some (Inr (AddServer n a rn))"
| "net_step (L_delete_server n) rn = Some (Inr (DeleteServer n rn))"
| "net_step (L_reliable b) rn = Some (Inr (Reliable b rn))"
| "net_step (L_long_reordering b) rn = Some (Inr (LongReordering b rn))"
| "net_step (L_long_delays b) rn = Some (Inr (LongDelays b rn))"
| "net_step L_cleanup rn = Some (Cleanup rn)"
| "net_step (L_make_end e) rn = Some (MakeEnd e rn)"

inductive net_reach :: "(('e, 'n, 'w) label \<Rightarrow> bool) \<Rightarrow> ('e, 'n, 'w) Network \<Rightarrow> ('e, 'n, 'w) Network \<Rightarrow> bool"
  for allowed rn0 where
  net_reach_refl: "net_reach allowed rn0 rn0"
| net_reach_step: "net_reach allowed rn0 rn \<Longrightarrow> allowed l \<Longrightarrow> net_step l rn = Some (Inr rn') \<Longrightarrow>
    net_reach allowed rn0 rn'"

section \<open>Every request runs its handler at most once\<close>

definition pending :: "('e, 'n) flight \<Rightarrow> nat" where
  "pending fl = (if fl_handler fl = None then 0 else 1)"

definition reply_ok :: "replyMsg \<Rightarrow> bool" where
  "reply_ok r \<longleftrightarrow> rp_ok r \<or> r = failed"

fun phase_runs :: "('e, 'n) flight \<Rightarrow> 'n call_phase \<Rightarrow> bool" where
  "phase_runs fl Sent \<longleftrightarrow> fl_runs fl = 0 \<and> fl_handler fl = None \<and> fl_ech fl = None"
| "phase_runs fl Accepted \<longleftrightarrow> fl_runs fl = 0 \<and> fl_handler fl = None \<and> fl_ech fl = None"
| "phase_runs fl Aborted \<longleftrightarrow> fl_runs fl = 0 \<and> fl_handler fl = None"
| "phase_runs fl (Waiting info) \<longleftrightarrow>
     (if fl_runs fl = 0 then fl_handler fl \<noteq> None \<and> fl_ech fl = None
      else \<exists>r. fl_ech fl = Some r \<and> rp_ok r)"
| "phase_runs fl (Decided info r) \<longleftrightarrow> (case r of None \<Rightarrow> True | Some x \<Rightarrow> rp_ok x \<and> fl_runs fl = 1)"
| "phase_runs fl (Delayed r) \<longleftrightarrow> reply_ok r \<and> (rp_ok r \<longrightarrow> fl_runs fl = 1)"
| "phase_runs fl (Answered r) \<longleftrightarrow> reply_ok r \<and> (rp_ok r \<longrightarrow> fl_runs fl = 1)"

definition flight_ok :: "('e, 'n) flight \<Rightarrow> bool" where
  "flight_ok fl \<longleftrightarrow> fl_runs fl + pending fl \<le> 1 \<and> phase_runs fl (fl_phase fl)"

definition net_inv :: "('e, 'n, 'w) Network \<Rightarrow> bool" where
  "net_inv rn \<longleftrightarrow> (\<forall>fl \<in> set (rn_flights rn). flight_ok fl)"

lemma rn_flights_ops [simp]:
  "rn_flights (Reliable b rn) = rn_flights rn" "rn_flights (LongReordering b rn) = rn_flights rn"
  "rn_flights (LongDelays b rn) = rn_flights rn" "rn_flights (AddServer n a rn) = rn_flights rn"
  "rn_flights (DeleteServer n rn) = rn_flights rn" "rn_flights (Connect e n rn) = rn_flights rn"
  "rn_flights (Enable e b rn) = rn_flights rn" "rn_flights (new_server rn) = rn_flights rn"
  "rn_flights (add_bytes k rn) = rn_flights rn" "rn_flights (set_flight i fl rn) = (rn_flights rn)[i := fl]"
  "rn_flights (answer i r rn) = (rn_flights rn)[i := (rn_flights rn ! i)\<lparr>fl_phase := Answered r\<rparr>]"
  by (simp_all add: Reliable_def LongReordering_def LongDelays_def AddServer_def DeleteServer_def
      Connect_def Enable_def new_server_def add_bytes_def set_flight_def answer_def)

lemma net_inv_update:
  assumes "net_inv rn" "flight_ok fl"
  shows "\<forall>x \<in> set ((rn_flights rn)[i := fl]). flight_ok x"
  using assms set_update_subset_insert [of "rn_flights rn" i fl] by (auto simp: net_inv_def)

lemma flight_atD:
  assumes "net_inv rn" "flight_at i rn = Some ph"
  shows "i < length (rn_flights rn)" "fl_phase (rn_flights rn ! i) = ph" "flight_ok (rn_flights rn ! i)"
  using assms by (auto simp: flight_at_def net_inv_def split: if_splits)

lemma Service_dispatch_ok: "Service_dispatch svc me req w = Inr (w', r) \<Longrightarrow> rp_ok r"
  by (auto simp: Service_dispatch_def split_beta split: option.splits)

lemma Server_dispatch_ok:
  "Server_dispatch rs req w = Inr (rs', w', r) \<Longrightarrow> rp_ok r \<and> srv_count rs' = srv_count rs + 1"
  by (auto simp: Server_dispatch_def Let_def split_beta dest!: Service_dispatch_ok
      split: option.split_asm)

lemmas flight_defs = flight_ok_def pending_def reply_ok_def failed_def

lemma flight_updI: "flight_ok fl \<Longrightarrow> \<exists>fl'. fls[i := fl] = fls[i := fl'] \<and> flight_ok fl'"
  by blast

text \<open>What each step of a request does to its flight.\<close>

lemma processReq_begin_flight:
  assumes "flight_ok (rn_flights rn ! i)" "fl_phase (rn_flights rn ! i) = Accepted"
  shows "\<exists>fl. rn_flights (processReq_begin d i rn) = (rn_flights rn)[i := fl] \<and> flight_ok fl"
proof -
  let ?fl = "rn_flights rn ! i"
  have ok: "flight_ok (?fl\<lparr>fl_phase := Answered failed\<rparr>)" "flight_ok (?fl\<lparr>fl_phase := Delayed failed\<rparr>)"
    "flight_ok (?fl\<lparr>fl_phase := Waiting info, fl_handler := Some a\<rparr>)" for info a
    using assms by (auto simp: flight_defs)
  let ?e = "rq_endname (fl_req ?fl)"
  show ?thesis
  proof (cases "\<exists>name a. rn_connections rn ?e = Some name \<and> rn_servers rn name = Some a \<and> rn_enabled rn ?e")
    case True
    then show ?thesis
      using ok by (auto simp: processReq_begin_def readEndnameInfo_def Let_def intro!: flight_updI)
  next
    case False
    then have "processReq_begin d i rn = set_flight i (?fl\<lparr>fl_phase := Delayed failed\<rparr>) rn"
      by (auto simp: processReq_begin_def readEndnameInfo_def Let_def split: option.split)
    then show ?thesis
      using ok by (auto intro!: flight_updI)
  qed
qed

lemma run_handler_flight:
  assumes "flight_ok (rn_flights rn ! i)" "fl_handler (rn_flights rn ! i) \<noteq> None"
    "run_handler i rn = Inr rn'"
  shows "\<exists>fl. rn_flights rn' = (rn_flights rn)[i := fl] \<and> flight_ok fl"
proof -
  let ?fl = "rn_flights rn ! i"
  from assms(2,3) obtain a r where "fl_handler ?fl = Some a" "rp_ok r"
    and rn': "rn_flights rn' =
      (rn_flights rn)[i := ?fl\<lparr>fl_handler := None, fl_ech := Some r, fl_runs := fl_runs ?fl + 1\<rparr>]"
    by (auto simp: run_handler_def Let_def dest!: Server_dispatch_ok)
  then have "flight_ok (?fl\<lparr>fl_handler := None, fl_ech := Some r, fl_runs := fl_runs ?fl + 1\<rparr>)"
    using assms(1) by (cases "fl_phase ?fl") (auto simp: flight_defs split: option.splits)
  with rn' show ?thesis by blast
qed

lemma processReq_end_flight:
  assumes "flight_ok (rn_flights rn ! i)" "fl_phase (rn_flights rn ! i) = Decided info r"
  shows "\<exists>fl. rn_flights (processReq_end d l i info r rn) = (rn_flights rn)[i := fl] \<and> flight_ok fl"
proof -
  let ?fl = "rn_flights rn ! i"
  have ok: "flight_ok (?fl\<lparr>fl_phase := Answered failed\<rparr>)"
    using assms by (auto simp: flight_defs split: option.splits)
  show ?thesis
  proof (cases r)
    case None
    with ok show ?thesis
      by (auto simp: processReq_end_def Let_def intro!: flight_updI)
  next
    case (Some x)
    with assms have "flight_ok (?fl\<lparr>fl_phase := Answered x\<rparr>)" "flight_ok (?fl\<lparr>fl_phase := Delayed x\<rparr>)"
      by (auto simp: flight_defs)
    with ok Some show ?thesis
      by (auto simp: processReq_end_def Let_def intro!: flight_updI)
  qed
qed

lemma net_inv_set:
  "net_inv rn \<Longrightarrow> flight_ok fl \<Longrightarrow> rn_flights rn' = (rn_flights rn)[i := fl] \<Longrightarrow> net_inv rn'"
  using net_inv_update [of rn fl i] by (simp add: net_inv_def)

lemma net_inv_set_ex:
  "net_inv rn \<Longrightarrow> \<exists>fl. rn_flights rn' = (rn_flights rn)[i := fl] \<and> flight_ok fl \<Longrightarrow> net_inv rn'"
  using net_inv_set by blast

lemma net_inv_step:
  assumes inv: "net_inv rn" and step: "net_step l rn = Some (Inr rn')"
  shows "net_inv rn'"
proof -
  note at = flight_atD [OF inv] and upd = net_inv_set [OF inv] net_inv_set_ex [OF inv]
  show ?thesis
  proof (cases l)
    case (L_call e sm args)
    have "flight_ok \<lparr>fl_req = \<lparr>rq_endname = e, rq_svcMeth = sm, rq_args = args\<rparr>, fl_phase = Sent,
        fl_handler = None, fl_ech = None, fl_runs = 0\<rparr>"
      by (simp add: flight_defs)
    with L_call step inv show ?thesis
      by (auto simp: net_inv_def Call_send_def)
  next
    case (L_accept i)
    with step have s: "flight_at i rn = Some Sent" "rn' = Network_accept i rn"
      by (auto split: if_splits)
    then show ?thesis
      using at [OF s(1)] by (intro upd(1) [of "(rn_flights rn ! i)\<lparr>fl_phase := Accepted\<rparr>" rn' i])
        (simp_all add: Network_accept_def flight_defs)
  next
    case (L_abort i)
    with step have s: "flight_at i rn = Some Sent"
      "rn' = set_flight i ((rn_flights rn ! i)\<lparr>fl_phase := Aborted\<rparr>) rn"
      by (auto split: if_splits)
    then show ?thesis
      using at [OF s(1)] by (intro upd(1) [of "(rn_flights rn ! i)\<lparr>fl_phase := Aborted\<rparr>" rn' i])
        (simp_all add: flight_defs)
  next
    case (L_begin i d)
    with step have s: "flight_at i rn = Some Accepted" "rn' = processReq_begin d i rn"
      by (auto split: if_splits)
    then show ?thesis
      using at [OF s(1)] processReq_begin_flight [of rn i d] by (auto intro: upd(2) [of _ i])
  next
    case (L_handler i)
    with step inv run_handler_flight [of rn i rn'] show ?thesis
      by (intro upd(2) [of _ i]) (auto simp: net_inv_def split: if_splits)
  next
    case (L_reply i)
    with step obtain info r where s: "flight_at i rn = Some (Waiting info)" "fl_ech (rn_flights rn ! i) = Some r"
      "rn' = wait_reply i info r rn"
      by (auto split: option.splits call_phase.splits)
    then show ?thesis
      using at [OF s(1)]
      by (intro upd(1) [of "(rn_flights rn ! i)\<lparr>fl_phase := Decided info (Some r), fl_ech := None\<rparr>" rn' i])
        (auto simp: wait_reply_def flight_defs split: if_splits)
  next
    case (L_timer i)
    with step obtain info where s: "flight_at i rn = Some (Waiting info)" "rn' = wait_timer i info rn"
      by (auto split: option.splits call_phase.splits)
    moreover have "flight_ok ((rn_flights rn ! i)\<lparr>fl_phase := Decided info None\<rparr>)"
      using at [OF s(1)] by (simp add: flight_defs)
    ultimately show ?thesis
      using inv by (auto simp: wait_timer_def Let_def intro: upd(1) [of _ _ i])
  next
    case (L_end i d dl)
    with step obtain info r where s: "flight_at i rn = Some (Decided info r)" "rn' = processReq_end d dl i info r rn"
      by (auto split: option.splits call_phase.splits)
    then show ?thesis
      using at [OF s(1)] processReq_end_flight [of rn i info r d dl] by (auto intro: upd(2) [of _ i])
  next
    case (L_fire i)
    with step obtain r where s: "flight_at i rn = Some (Delayed r)" "rn' = fire_timer i r rn"
      by (auto split: option.splits call_phase.splits)
    then show ?thesis
      using at [OF s(1)] by (intro upd(1) [of "(rn_flights rn ! i)\<lparr>fl_phase := Answered r\<rparr>" rn' i])
        (auto simp: fire_timer_def flight_defs)
  qed (use step inv in \<open>auto simp: net_inv_def Cleanup_def MakeEnd_def add_service_def split: if_splits\<close>)
qed

lemma net_inv_reach: "net_reach ok rn rn' \<Longrightarrow> net_inv rn \<Longrightarrow> net_inv rn'"
  by (induction rule: net_reach.induct) (auto intro: net_inv_step)

lemma net_inv_Make: "net_inv (MakeNetwork w)"
  by (simp add: net_inv_def MakeNetwork_def)

section \<open>A request to a deleted server is not answered\<close>

text \<open>Request \<open>i\<close> went to the server object \<open>a\<close> under the name \<open>n\<close>, and \<open>n\<close> names it no longer.\<close>

fun sent_to :: "'n \<Rightarrow> nat \<Rightarrow> 'n call_phase \<Rightarrow> bool" where
  "sent_to n a (Waiting info) \<longleftrightarrow> ei_servername info = n \<and> ei_server info = a"
| "sent_to n a (Decided info r) \<longleftrightarrow> ei_servername info = n \<and> ei_server info = a"
| "sent_to n a (Answered r) \<longleftrightarrow> r = failed"
| "sent_to n a _ \<longleftrightarrow> False"

definition superseded :: "nat \<Rightarrow> 'n \<Rightarrow> nat \<Rightarrow> ('e, 'n, 'w) Network \<Rightarrow> bool" where
  "superseded i n a rn \<longleftrightarrow>
     rn_servers rn n \<noteq> Some a \<and> (\<exists>ph. flight_at i rn = Some ph \<and> sent_to n a ph)"

lemma rn_servers_ops [simp]:
  "rn_servers (Reliable b rn) = rn_servers rn" "rn_servers (LongReordering b rn) = rn_servers rn"
  "rn_servers (LongDelays b rn) = rn_servers rn" "rn_servers (Connect e n rn) = rn_servers rn"
  "rn_servers (Enable e b rn) = rn_servers rn" "rn_servers (new_server rn) = rn_servers rn"
  "rn_servers (add_bytes k rn) = rn_servers rn" "rn_servers (set_flight i fl rn) = rn_servers rn"
  "rn_servers (answer i r rn) = rn_servers rn"
  by (simp_all add: Reliable_def LongReordering_def LongDelays_def Connect_def Enable_def new_server_def
      add_bytes_def set_flight_def answer_def)

lemma flight_at_ops [simp]:
  "flight_at i (Reliable b rn) = flight_at i rn" "flight_at i (LongReordering b rn) = flight_at i rn"
  "flight_at i (LongDelays b rn) = flight_at i rn" "flight_at i (Connect e n rn) = flight_at i rn"
  "flight_at i (Enable e b rn) = flight_at i rn" "flight_at i (new_server rn) = flight_at i rn"
  "flight_at i (AddServer n a rn) = flight_at i rn" "flight_at i (DeleteServer n rn) = flight_at i rn"
  "flight_at i (add_bytes k rn) = flight_at i rn"
  "flight_at i (set_flight j fl rn) =
     (if i = j \<and> i < length (rn_flights rn) then Some (fl_phase fl) else flight_at i rn)"
  "flight_at i (answer j r rn) =
     (if i = j \<and> i < length (rn_flights rn) then Some (Answered r) else flight_at i rn)"
  by (simp_all add: flight_at_def answer_def nth_list_update)

lemma flight_at_length: "flight_at i rn = Some ph \<Longrightarrow> i < length (rn_flights rn)"
  by (simp add: flight_at_def split: if_splits)

lemma processReq_begin_other:
  "j \<noteq> i \<Longrightarrow> flight_at j (processReq_begin d i rn) = flight_at j rn"
  by (auto simp: processReq_begin_def readEndnameInfo_def Let_def split: option.split)

lemma processReq_begin_servers [simp]: "rn_servers (processReq_begin d i rn) = rn_servers rn"
  by (auto simp: processReq_begin_def readEndnameInfo_def Let_def split: option.split)

lemma superseded_step:
  assumes sup: "superseded i n a rn" and step: "net_step l rn = Some (Inr rn')" and l: "l \<noteq> L_add_server n a"
  shows "superseded i n a rn'"
proof -
  from sup obtain ph where srv: "rn_servers rn n \<noteq> Some a" and ph: "flight_at i rn = Some ph" "sent_to n a ph"
    by (auto simp: superseded_def)
  note i = flight_at_length [OF ph(1)]
  have keep: ?thesis if "rn_servers rn' n \<noteq> Some a" "flight_at i rn' = flight_at i rn"
    using that ph by (auto simp: superseded_def)
  show ?thesis
  proof (cases l)
    case (L_call e sm args)
    with step srv i show ?thesis
      by (intro keep) (auto simp: Call_send_def flight_at_def nth_append)
  next
    case (L_accept j)
    with step srv ph show ?thesis
      by (intro keep) (auto simp: Network_accept_def set_flight_def add_bytes_def flight_at_def nth_list_update
          split: if_splits)
  next
    case (L_begin j d)
    with step ph have "j \<noteq> i" "rn' = processReq_begin d j rn"
      by (auto split: if_splits)
    with srv show ?thesis
      by (intro keep) (simp_all add: processReq_begin_other)
  next
    case (L_handler j)
    with step srv show ?thesis
      by (intro keep) (auto simp: run_handler_def Let_def set_flight_def flight_at_def nth_list_update
          split: if_splits option.splits)
  next
    case (L_reply j)
    with step ph srv i show ?thesis
      by (auto simp: wait_reply_def superseded_def split: option.splits call_phase.splits)
  next
    case (L_timer j)
    with step ph srv i show ?thesis
      by (auto simp: wait_timer_def Let_def superseded_def split: option.splits call_phase.splits if_splits)
  next
    case (L_end j d dl)
    with step obtain info r where s: "flight_at j rn = Some (Decided info r)" "rn' = processReq_end d dl j info r rn"
      by (auto split: option.splits call_phase.splits)
    have "isServerDead e n a rn" for e
      using srv by (simp add: isServerDead_def)
    with s ph srv i show ?thesis
      by (cases "j = i") (auto simp: processReq_end_def Let_def superseded_def split: option.splits)
  next
    case (L_fire j)
    with step ph srv i show ?thesis
      by (auto simp: fire_timer_def superseded_def split: option.splits call_phase.splits if_splits)
  qed (use step srv ph l in \<open>auto simp: superseded_def Cleanup_def MakeEnd_def add_service_def AddServer_def
      DeleteServer_def flight_at_def nth_list_update split: if_splits\<close>)
qed

lemma superseded_reach:
  "net_reach allowed rn rn' \<Longrightarrow> \<not> allowed (L_add_server n a) \<Longrightarrow> superseded i n a rn \<Longrightarrow> superseded i n a rn'"
  by (induction rule: net_reach.induct) (auto intro: superseded_step)

section \<open>The counters\<close>

definition taken :: "'n call_phase \<Rightarrow> nat" where
  "taken ph = (case ph of Sent \<Rightarrow> 0 | Aborted \<Rightarrow> 0 | _ \<Rightarrow> 1)"

definition taken_flags :: "('e, 'n, 'w) Network \<Rightarrow> nat list" where
  "taken_flags rn = map (\<lambda>fl. taken (fl_phase fl)) (rn_flights rn)"

definition accepted :: "('e, 'n, 'w) Network \<Rightarrow> nat" where
  "accepted rn = sum_list (taken_flags rn)"

lemma taken_flags_ops [simp]:
  "taken_flags (set_flight i fl rn) = (taken_flags rn)[i := taken (fl_phase fl)]"
  "taken_flags (answer i r rn) = (taken_flags rn)[i := 1]"
  "taken_flags (add_bytes k rn) = taken_flags rn"
  "taken_flags (rn\<lparr>rn_objs := objs, rn_world := w\<rparr>) = taken_flags rn"
  by (simp_all add: taken_flags_def map_update taken_def)

lemma taken_flags_same:
  "flight_at i rn = Some ph \<Longrightarrow> taken ph = k \<Longrightarrow> (taken_flags rn)[i := k] = taken_flags rn"
  by (auto simp: taken_flags_def flight_at_def intro: list_update_same_conv [THEN iffD2] split: if_splits)

lemmas taken_simps [simp] = taken_def

lemma rn_count_ops [simp]:
  "rn_count (Reliable b rn) = rn_count rn" "rn_count (LongReordering b rn) = rn_count rn"
  "rn_count (LongDelays b rn) = rn_count rn" "rn_count (Connect e n rn) = rn_count rn"
  "rn_count (Enable e b rn) = rn_count rn" "rn_count (new_server rn) = rn_count rn"
  "rn_count (AddServer n a rn) = rn_count rn" "rn_count (DeleteServer n rn) = rn_count rn"
  "rn_count (add_bytes k rn) = rn_count rn" "rn_count (set_flight i fl rn) = rn_count rn"
  "rn_count (answer i r rn) = rn_count rn"
  by (simp_all add: Reliable_def LongReordering_def LongDelays_def Connect_def Enable_def new_server_def
      AddServer_def DeleteServer_def add_bytes_def set_flight_def answer_def)

lemma processReq_begin_taken:
  assumes "flight_at i rn = Some Accepted"
  shows "taken_flags (processReq_begin d i rn) = taken_flags rn" "rn_count (processReq_begin d i rn) = rn_count rn"
  by (auto simp: processReq_begin_def readEndnameInfo_def Let_def taken_flags_same [OF assms] split: option.split)

lemma processReq_end_taken:
  assumes "flight_at i rn = Some (Decided info r)"
  shows "taken_flags (processReq_end d dl i info r rn) = taken_flags rn"
    "rn_count (processReq_end d dl i info r rn) = rn_count rn"
  by (auto simp: processReq_end_def Let_def taken_flags_same [OF assms] split: option.split)

lemma run_handler_taken:
  assumes "run_handler i rn = Inr rn'" "i < length (rn_flights rn)"
  shows "taken_flags rn' = taken_flags rn" "rn_count rn' = rn_count rn"
proof -
  have at: "flight_at i rn = Some (fl_phase (rn_flights rn ! i))"
    using assms(2) by (simp add: flight_at_def)
  show "taken_flags rn' = taken_flags rn" "rn_count rn' = rn_count rn"
    using assms(1) taken_flags_same [OF at]
    by (auto simp: run_handler_def Let_def split: option.splits)
qed

lemma count_step:
  assumes "net_step l rn = Some (Inr rn')" "rn_count rn = of_nat (accepted rn)"
  shows "rn_count rn' = of_nat (accepted rn')"
proof (cases l)
  case (L_call e sm args)
  with assms show ?thesis
    by (auto simp: Call_send_def accepted_def taken_flags_def taken_def)
next
  case (L_accept i)
  with assms(1) have i: "i < length (rn_flights rn)" "fl_phase (rn_flights rn ! i) = Sent"
    and rn': "rn' = Network_accept i rn"
    by (auto simp: flight_at_def split: if_splits)
  have "taken_flags rn' = (taken_flags rn)[i := 1]" "taken_flags rn ! i = 0"
    using i rn' by (auto simp: Network_accept_def set_flight_def add_bytes_def taken_flags_def map_update taken_def)
  moreover have "i < length (taken_flags rn)"
    using i by (simp add: taken_flags_def)
  ultimately have "accepted rn' = accepted rn + 1"
    by (simp add: accepted_def sum_list_update)
  with rn' assms(2) show ?thesis
    by (simp add: Network_accept_def)
next
  case (L_handler i)
  with assms show ?thesis
    by (auto simp: accepted_def run_handler_taken split: if_splits)
next
  case (L_begin i d)
  with assms show ?thesis
    by (auto simp: accepted_def processReq_begin_taken split: if_splits)
next
  case (L_end i d dl)
  with assms show ?thesis
    by (auto simp: accepted_def processReq_end_taken split: option.splits call_phase.splits)
next
  case (L_abort i)
  with assms have "taken_flags rn' = taken_flags rn"
    by (auto simp: taken_flags_same split: if_splits)
  with L_abort assms show ?thesis
    by (auto simp: accepted_def split: if_splits)
next
  case (L_reply i)
  with assms have "taken_flags rn' = taken_flags rn" "rn_count rn' = rn_count rn"
    by (auto simp: taken_flags_same wait_reply_def split: if_splits option.splits call_phase.splits)
  with assms show ?thesis by (simp add: accepted_def)
next
  case (L_timer i)
  with assms have "taken_flags rn' = taken_flags rn" "rn_count rn' = rn_count rn"
    by (auto simp: taken_flags_same wait_timer_def Let_def split: if_splits option.splits call_phase.splits)
  with assms show ?thesis by (simp add: accepted_def)
next
  case (L_fire i)
  with assms have "taken_flags rn' = taken_flags rn" "rn_count rn' = rn_count rn"
    by (auto simp: taken_flags_same fire_timer_def split: if_splits option.splits call_phase.splits)
  with assms show ?thesis by (simp add: accepted_def)
qed (use assms in \<open>auto simp: accepted_def taken_flags_def Cleanup_def MakeEnd_def add_service_def split: if_splits\<close>)

lemma count_reach:
  "net_reach allowed rn rn' \<Longrightarrow> rn_count rn = of_nat (accepted rn) \<Longrightarrow> rn_count rn' = of_nat (accepted rn')"
  by (induction rule: net_reach.induct) (auto intro: count_step)

lemma count_Make: "rn_count (MakeNetwork w) = of_nat (accepted (MakeNetwork w))"
  by (simp add: MakeNetwork_def accepted_def taken_flags_def)

section \<open>A reliable network delivers\<close>

fun net_run :: "('e, 'n, 'w) label list \<Rightarrow> ('e, 'n, 'w) Network \<Rightarrow> ('e, 'n, 'w) Network result option" where
  "net_run [] rn = Some (Inr rn)"
| "net_run (l # ls) rn =
     (case net_step l rn of None \<Rightarrow> None | Some (Inl c) \<Rightarrow> Some (Inl c) | Some (Inr rn') \<Rightarrow> net_run ls rn')"

lemma net_run_reach: "net_run ls rn = Some (Inr rn') \<Longrightarrow> \<forall>l \<in> set ls. allowed l \<Longrightarrow> net_reach allowed rn0 rn \<Longrightarrow>
    net_reach allowed rn0 rn'"
  by (induction ls arbitrary: rn) (auto split: option.splits sum.splits intro: net_reach_step)




section \<open>Names of services and methods\<close>

lemma takeWhile_rev_dot:
  "c \<notin> set m \<Longrightarrow> takeWhile (\<lambda>x. x \<noteq> c) (rev (s @ c # m)) = rev m"
  by (simp add: takeWhile_append)

lemma split_method_ok:
  assumes "CHR ''.'' \<notin> set m"
  shows "split_method (s @ ''.'' @ m) = Inr (s, m)"
  using takeWhile_rev_dot [OF assms, of s] by (simp add: split_method_def LastIndex_def Let_def)

lemma split_method_panic: "CHR ''.'' \<notin> set s \<Longrightarrow> split_method s = Inl Panic"
  by (simp add: split_method_def LastIndex_def)

definition handlers :: "'w rpc_method list \<Rightarrow> (string \<times> 'w rpc_method) list" where
  "handlers methods = map (\<lambda>me. (me_Name me, me)) (filter suitable methods)"

lemma MakeService_loop_map: "MakeService_loop ms methods = ms ++ map_of (rev (handlers methods))"
  by (induction methods arbitrary: ms) (simp_all add: handlers_def)

lemma MakeService_lookup:
  assumes "distinct (map me_Name methods)"
  shows "sv_methods (MakeService name methods) m = Some me \<longleftrightarrow>
    me \<in> set methods \<and> suitable me \<and> me_Name me = m"
proof -
  have "distinct (map fst (rev (handlers methods)))"
    using assms by (simp add: handlers_def rev_map [symmetric] o_def distinct_map_filter)
  then have "map_of (rev (handlers methods)) m = Some me \<longleftrightarrow> (m, me) \<in> set (handlers methods)"
    by (simp add: map_of_eq_Some_iff)
  then show ?thesis by (auto simp: MakeService_def MakeService_loop_map handlers_def)
qed

section \<open>No request is stuck\<close>

definition final :: "'n call_phase \<Rightarrow> bool" where
  "final ph \<longleftrightarrow> (case ph of Answered r \<Rightarrow> True | Aborted \<Rightarrow> True | _ \<Rightarrow> False)"

definition to_go :: "('e, 'n) flight \<Rightarrow> nat" where
  "to_go fl =
     (case fl_phase fl of
        Sent \<Rightarrow> 6 | Accepted \<Rightarrow> 5 | Waiting info \<Rightarrow> (if fl_ech fl = None then 4 else 3)
      | Decided info r \<Rightarrow> 2 | Delayed r \<Rightarrow> 1 | Answered r \<Rightarrow> 0 | Aborted \<Rightarrow> 0)"

definition stop_inv :: "('e, 'n, 'w) Network \<Rightarrow> bool" where
  "stop_inv rn \<longleftrightarrow> (rn_stopped rn \<longrightarrow> rn_done rn)"

lemma stop_inv_step: "stop_inv rn \<Longrightarrow> net_step l rn = Some (Inr rn') \<Longrightarrow> stop_inv rn'"
  by (cases l) (auto simp: stop_inv_def Call_send_def Network_accept_def set_flight_def add_bytes_def
      processReq_begin_def readEndnameInfo_def answer_def run_handler_def Let_def wait_reply_def wait_timer_def
      processReq_end_def fire_timer_def Enable_def Connect_def new_server_def add_service_def AddServer_def
      DeleteServer_def Reliable_def LongReordering_def LongDelays_def Cleanup_def MakeEnd_def
      split: if_splits option.splits call_phase.splits)

lemma stop_inv_reach: "net_reach allowed rn rn' \<Longrightarrow> stop_inv rn \<Longrightarrow> stop_inv rn'"
  by (induction rule: net_reach.induct) (auto intro: stop_inv_step)

lemma stop_inv_Make: "stop_inv (MakeNetwork w)"
  by (simp add: stop_inv_def MakeNetwork_def)

text \<open>A step of request \<open>i\<close> that brings it nearer to its answer.\<close>

definition advances :: "nat \<Rightarrow> ('e, 'n, 'w) Network \<Rightarrow> ('e, 'n, 'w) Network \<Rightarrow> bool" where
  "advances i rn rn' \<longleftrightarrow> i < length (rn_flights rn') \<and> to_go (rn_flights rn' ! i) < to_go (rn_flights rn ! i)"

lemma processReq_begin_advances:
  assumes "flight_at i rn = Some Accepted"
  shows "advances i rn (processReq_begin d i rn)"
proof -
  from assms have i: "i < length (rn_flights rn)" and ph: "fl_phase (rn_flights rn ! i) = Accepted"
    by (auto simp: flight_at_def split: if_splits)
  let ?e = "rq_endname (fl_req (rn_flights rn ! i))"
  show ?thesis
  proof (cases "\<exists>n a. rn_connections rn ?e = Some n \<and> rn_servers rn n = Some a \<and> rn_enabled rn ?e")
    case True
    then show ?thesis
      using i ph by (auto simp: processReq_begin_def readEndnameInfo_def Let_def advances_def to_go_def)
  next
    case False
    then have "processReq_begin d i rn = set_flight i ((rn_flights rn ! i)\<lparr>fl_phase := Delayed failed\<rparr>) rn"
      by (auto simp: processReq_begin_def readEndnameInfo_def Let_def split: option.split)
    then show ?thesis
      using i ph by (simp add: advances_def to_go_def)
  qed
qed

lemma run_handler_advances:
  assumes "flight_at i rn = Some (Waiting info)" "fl_ech (rn_flights rn ! i) = None" "run_handler i rn = Inr rn'"
    "fl_handler (rn_flights rn ! i) \<noteq> None"
  shows "advances i rn rn'"
  using assms by (auto simp: run_handler_def Let_def advances_def to_go_def flight_at_def split: if_splits)

lemma processReq_end_advances:
  assumes "flight_at i rn = Some (Decided info r)"
  shows "advances i rn (processReq_end d dl i info r rn)"
  using assms by (auto simp: processReq_end_def Let_def advances_def to_go_def flight_at_def split: if_splits option.splits)

lemma flight_progress:
  assumes "net_inv rn" "stop_inv rn" "flight_at i rn = Some ph" "\<not> final ph"
  shows "(\<exists>l rn'. net_step l rn = Some (Inr rn') \<and> advances i rn rn') \<or>
    (\<exists>c. net_step (L_handler i) rn = Some (Inl c))"
proof -
  note at = flight_atD [OF assms(1,3)]
  have ex: ?thesis if "net_step l rn = Some (Inr rn')" "advances i rn rn'" for l rn'
    using that by blast
  show ?thesis
  proof (cases ph)
    case Sent
    show ?thesis
    proof (cases "rn_stopped rn")
      case True
      with assms Sent at show ?thesis
        by (intro ex [of "L_abort i"]) (auto simp: stop_inv_def advances_def to_go_def)
    next
      case False
      with assms Sent at show ?thesis
        by (intro ex [of "L_accept i"]) (auto simp: advances_def to_go_def Network_accept_def)
    qed
  next
    case Accepted
    with assms processReq_begin_advances [of i rn False] show ?thesis
      by (intro ex [of "L_begin i False"]) auto
  next
    case (Waiting info)
    show ?thesis
    proof (cases "fl_ech (rn_flights rn ! i)")
      case None
      with Waiting at have h: "fl_handler (rn_flights rn ! i) \<noteq> None"
        by (auto simp: flight_ok_def split: if_splits)
      with at have "net_step (L_handler i) rn = Some (run_handler i rn)" by simp
      then show ?thesis
        using assms(3) Waiting None h run_handler_advances [of i rn info] ex [of "L_handler i"]
        by (cases "run_handler i rn") (simp_all del: net_step.simps)
    next
      case (Some r)
      with assms Waiting at show ?thesis
        by (intro ex [of "L_reply i"]) (auto simp: advances_def to_go_def wait_reply_def)
    qed
  next
    case (Decided info r)
    with assms processReq_end_advances [of i rn info r False False] show ?thesis
      by (intro ex [of "L_end i False False"]) auto
  next
    case (Delayed r)
    with assms at show ?thesis
      by (intro ex [of "L_fire i"]) (auto simp: advances_def to_go_def fire_timer_def)
  qed (use assms in \<open>auto simp: final_def\<close>)
qed

section \<open>Properties\<close>

text \<open>A network with one server and one client end, for the examples.\<close>

definition ex_method :: "nat rpc_method" where
  "ex_method = \<lparr>me_Name = ''Put'', me_PkgPath = '''', me_NumIn = 3, me_In2IsPtr = True, me_NumOut = 0,
     me_Func = (\<lambda>w args. (w + length args, [7]))\<rparr>"

definition ex_net :: "(nat, nat, nat) Network" where
  "ex_net = Enable 0 True (Connect 0 5 (AddServer 5 0
     ((MakeNetwork 0)\<lparr>rn_objs := [AddService MakeServer (MakeService ''KV'' [ex_method])]\<rparr>)))"



text \<open>A call in that network whose server is deleted while the handler runs.\<close>

definition ex_info :: "nat endInfo" where
  "ex_info = \<lparr>ei_servername = 5, ei_server = 0, ei_reliable = True, ei_longreordering = False\<rparr>"

definition ex_waiting :: "(nat, nat, nat) Network" where
  "ex_waiting = DeleteServer 5 (processReq_begin False 0 (Network_accept 0 (Call_send 0 ''KV.Put'' [] ex_net)))"

lemma ex_waiting_ok: "flight_at 0 ex_waiting = Some (Waiting ex_info)" "rn_servers ex_waiting 5 \<noteq> Some 0"
  by (simp_all add: ex_waiting_def ex_net_def ex_info_def DeleteServer_def processReq_begin_def readEndnameInfo_def
      Network_accept_def Call_send_def Enable_def Connect_def AddServer_def MakeNetwork_def set_flight_def
      add_bytes_def flight_at_def)


text \<open>C13. In every reachable state of the network, a request has run its handler at most once, however
  requests and replies were dropped, delayed or reordered; a request that got a positive reply has run it
  exactly once; and a negative reply carries no bytes.\<close>

theorem rpc_at_most_once:
  assumes "net_reach allowed (MakeNetwork w) rn" "fl \<in> set (rn_flights rn)"
  shows "fl_runs fl \<le> 1 \<and> (\<forall>r. fl_phase fl = Answered r \<longrightarrow> (if rp_ok r then fl_runs fl = 1 else rp_reply r = []))"
proof -
  from net_inv_reach [OF assms(1) net_inv_Make] assms(2) have "flight_ok fl" by (simp add: net_inv_def)
  then show ?thesis by (auto simp: flight_defs)
qed

theorem rpc_at_most_once_witness:
  "\<exists>rn fl. net_reach (\<lambda>_. True) (MakeNetwork (0 :: nat)) (rn :: (nat, nat, nat) Network) \<and> fl \<in> set (rn_flights rn) \<and> fl_runs fl \<le> 1"
proof -
  let ?rn = "Call_send 0 ''KV.Put'' [] (MakeNetwork 0) :: (nat, nat, nat) Network"
  have "net_reach (\<lambda>_. True) (MakeNetwork 0) ?rn"
    by (rule net_reach_step [OF net_reach_refl, of _ "L_call 0 ''KV.Put'' []"]) auto
  moreover have "rn_flights ?rn ! 0 \<in> set (rn_flights ?rn)"
    by (simp add: Call_send_def MakeNetwork_def)
  ultimately have "net_reach (\<lambda>_. True) (MakeNetwork 0) ?rn \<and> rn_flights ?rn ! 0 \<in> set (rn_flights ?rn) \<and>
      fl_runs (rn_flights ?rn ! 0) \<le> 1"
    using rpc_at_most_once [of "\<lambda>_. True" 0 ?rn "rn_flights ?rn ! 0"] by simp
  then show ?thesis by (intro exI [of _ ?rn] exI [of _ "rn_flights ?rn ! 0"])
qed

text \<open>C14. A request that is waiting for a server which has been deleted or replaced under its name gets a
  failure, whatever its handler still does, as long as that very server object is not added again: this is
  what the labs rely on when they supersede a persister.\<close>

theorem deleted_server_no_reply:
  assumes "net_reach allowed rn rn'" "\<not> allowed (L_add_server (ei_servername info) (ei_server info))"
    "flight_at i rn = Some (Waiting info)" "rn_servers rn (ei_servername info) \<noteq> Some (ei_server info)"
  shows "\<exists>ph. flight_at i rn' = Some ph \<and> (\<forall>r. ph = Delayed r \<or> ph = Answered r \<longrightarrow> r = failed)"
proof -
  have "superseded i (ei_servername info) (ei_server info) rn"
    using assms(3,4) by (auto simp: superseded_def)
  from superseded_reach [OF assms(1,2) this]
  obtain ph where "flight_at i rn' = Some ph" "sent_to (ei_servername info) (ei_server info) ph"
    by (auto simp: superseded_def)
  then show ?thesis by (cases ph) auto
qed

theorem deleted_server_no_reply_witness:
  "\<exists>rn' ph. net_step (L_handler 0) ex_waiting = Some (Inr rn') \<and> flight_at 0 rn' = Some ph \<and> ph \<noteq> Answered \<lparr>rp_ok = True, rp_reply = [7]\<rparr>"
proof -
  obtain rn' where step: "net_step (L_handler 0) ex_waiting = Some (Inr rn')"
    by (simp add: ex_waiting_def ex_net_def DeleteServer_def processReq_begin_def readEndnameInfo_def
      Network_accept_def Call_send_def Enable_def Connect_def AddServer_def MakeNetwork_def set_flight_def
      add_bytes_def run_handler_def get_at_def ex_method_def AddService_def MakeServer_def MakeService_def
      suitable_def Server_dispatch_def split_method_def LastIndex_def Service_dispatch_def Let_def)
  then have "net_reach (\<lambda>l. l \<noteq> L_add_server 5 0) ex_waiting rn'"
    by (intro net_reach_step [OF net_reach_refl, of _ "L_handler 0"]) auto
  from deleted_server_no_reply [OF this _ ex_waiting_ok(1)] step show ?thesis
    using ex_waiting_ok(2) by (auto simp: ex_info_def failed_def)
qed



text \<open>C16. No request is stuck: in every reachable state a request that has no answer yet has a step of its
  own that brings it nearer to one, or its handler crashes the program.\<close>

theorem rpc_progress:
  assumes "net_reach allowed (MakeNetwork w) rn" "flight_at i rn = Some ph" "\<not> final ph"
  shows "(\<exists>l rn'. net_step l rn = Some (Inr rn') \<and> advances i rn rn') \<or>
    (\<exists>c. net_step (L_handler i) rn = Some (Inl c))"
  using flight_progress [OF net_inv_reach [OF assms(1) net_inv_Make] stop_inv_reach [OF assms(1) stop_inv_Make] assms(2,3)] .

theorem rpc_progress_witness:
  "\<exists>rn. net_reach (\<lambda>_. True) (MakeNetwork (0 :: nat)) (rn :: (nat, nat, nat) Network) \<and> flight_at 0 rn = Some Sent \<and>
    ((\<exists>l rn'. net_step l rn = Some (Inr rn') \<and> advances 0 rn rn') \<or> (\<exists>c. net_step (L_handler 0) rn = Some (Inl c)))"
proof -
  let ?rn = "Call_send 0 ''KV.Put'' [] (MakeNetwork 0) :: (nat, nat, nat) Network"
  have r: "net_reach (\<lambda>_. True) (MakeNetwork 0) ?rn"
    by (rule net_reach_step [OF net_reach_refl, of _ "L_call 0 ''KV.Put'' []"]) auto
  have f: "flight_at 0 ?rn = Some Sent" "\<not> final Sent"
    by (simp_all add: Call_send_def MakeNetwork_def flight_at_def final_def)
  show ?thesis using rpc_progress [OF r f] r f(1) by (intro exI [of _ ?rn]) blast
qed

text \<open>C17. The RPC counter is the number of requests the network took, modulo \<open>2\<^sup>32\<close>.\<close>

theorem rpc_count:
  assumes "net_reach allowed (MakeNetwork w) rn"
  shows "unat (rn_count rn) = accepted rn mod 2 ^ 32"
  using count_reach [OF assms count_Make] by (simp add: unat_of_nat)

theorem rpc_count_witness:
  "unat (rn_count (Call_send 0 ''KV.Put'' [] (MakeNetwork 0) :: (nat, nat, nat) Network)) = 0"
proof -
  let ?rn = "Call_send 0 ''KV.Put'' [] (MakeNetwork 0) :: (nat, nat, nat) Network"
  have "net_reach (\<lambda>_. True) (MakeNetwork 0) ?rn"
    by (rule net_reach_step [OF net_reach_refl, of _ "L_call 0 ''KV.Put'' []"]) auto
  from rpc_count [OF this] show ?thesis
    by (simp add: accepted_def taken_flags_def Call_send_def MakeNetwork_def)
qed

text \<open>C18. Dispatch: a service made from an object offers exactly the object's suitable methods, and a
  request \<open>service.method\<close> reaches the named one, which runs once on the decoded arguments.\<close>

theorem dispatch_reaches_handler:
  assumes "distinct (map me_Name methods)" "me \<in> set methods" "suitable me" "CHR ''.'' \<notin> set (me_Name me)"
  shows "Server_dispatch (AddService rs (MakeService name methods))
      \<lparr>rq_endname = e, rq_svcMeth = name @ ''.'' @ me_Name me, rq_args = args\<rparr> w =
    Inr ((AddService rs (MakeService name methods))\<lparr>srv_count := srv_count rs + 1\<rparr>,
      fst (me_Func me w args), \<lparr>rp_ok = True, rp_reply = snd (me_Func me w args)\<rparr>)"
proof -
  have "sv_methods (MakeService name methods) (me_Name me) = Some me"
    using assms by (simp add: MakeService_lookup)
  moreover have "sv_name (MakeService name methods) = name" by (simp add: MakeService_def)
  ultimately show ?thesis
    using split_method_ok [OF assms(4), of name]
    by (simp add: Server_dispatch_def Service_dispatch_def AddService_def split_beta)
qed

theorem dispatch_reaches_handler_witness:
  "Server_dispatch (AddService MakeServer (MakeService ''KV'' [ex_method]))
      \<lparr>rq_endname = (), rq_svcMeth = ''KV.Put'', rq_args = [1]\<rparr> 0 =
    Inr ((AddService MakeServer (MakeService ''KV'' [ex_method]))\<lparr>srv_count := 1\<rparr>, 1, \<lparr>rp_ok = True, rp_reply = [7]\<rparr>)"
  using dispatch_reaches_handler [of "[ex_method]" ex_method MakeServer "''KV''" "()" "[1]" 0]
  by (simp add: ex_method_def suitable_def MakeServer_def)

end
