(* ===== verification/Raft.thy ===== *)
theory Raft
  imports Labrpc
begin

text \<open>
  The outline of Raft that the labs start from and the store of its persistent state
  (\<open>src/6.5840/src/raft/raft.go\<close>, \<open>persister.go\<close>), and the random names of the test harness
  (\<open>randstring\<close> in the \<open>config.go\<close> files). A byte slice may be nil, so it is an optional list of bytes.
  A persister is an object: the harness keeps old instances from overwriting the state of new ones by
  giving each its own, so persisters and Raft peers live at addresses of heaps.
\<close>

type_synonym slice = "bytes option"

definition slice_bytes :: "slice \<Rightarrow> bytes" where
  "slice_bytes s = (case s of None \<Rightarrow> [] | Some b \<Rightarrow> b)"

definition slice_len :: "slice \<Rightarrow> nat" where
  "slice_len s = length (slice_bytes s)"

section \<open>The persister\<close>

record Persister =
  ps_raftstate :: slice
  ps_snapshot :: slice

definition MakePersister :: Persister where
  "MakePersister = \<lparr>ps_raftstate = None, ps_snapshot = None\<rparr>"

text \<open>\<open>make\<close> and \<open>copy\<close>: a slice of the same bytes, never nil.\<close>

definition clone :: "slice \<Rightarrow> slice" where
  "clone orig = Some (map ((!) (slice_bytes orig)) [0..<slice_len orig])"

definition Persister_Copy :: "Persister \<Rightarrow> Persister" where
  "Persister_Copy ps = MakePersister\<lparr>ps_raftstate := ps_raftstate ps, ps_snapshot := ps_snapshot ps\<rparr>"

definition ReadRaftState :: "Persister \<Rightarrow> slice" where
  "ReadRaftState ps = clone (ps_raftstate ps)"

definition RaftStateSize :: "Persister \<Rightarrow> nat" where
  "RaftStateSize ps = slice_len (ps_raftstate ps)"

definition Save :: "slice \<Rightarrow> slice \<Rightarrow> Persister \<Rightarrow> Persister" where
  "Save raftstate snapshot ps = ps\<lparr>ps_raftstate := clone raftstate, ps_snapshot := clone snapshot\<rparr>"

definition ReadSnapshot :: "Persister \<Rightarrow> slice" where
  "ReadSnapshot ps = clone (ps_snapshot ps)"

definition SnapshotSize :: "Persister \<Rightarrow> nat" where
  "SnapshotSize ps = slice_len (ps_snapshot ps)"

lemma clone_bytes: "clone s = Some (slice_bytes s)"
  by (simp add: clone_def slice_len_def map_nth)

lemma slice_bytes_simps [simp]: "slice_bytes None = []" "slice_bytes (Some b) = b"
  by (simp_all add: slice_bytes_def)

text \<open>What a persister holds, as the program can see it.\<close>

definition contents :: "Persister \<Rightarrow> bytes \<times> bytes" where
  "contents ps = (slice_bytes (ps_raftstate ps), slice_bytes (ps_snapshot ps))"

lemma persister_ops [simp]:
  "ReadRaftState ps = Some (fst (contents ps))" "ReadSnapshot ps = Some (snd (contents ps))"
  "RaftStateSize ps = length (fst (contents ps))" "SnapshotSize ps = length (snd (contents ps))"
  "contents (Save r s ps) = (slice_bytes r, slice_bytes s)" "contents (Persister_Copy ps) = contents ps"
  "contents MakePersister = ([], [])"
  by (simp_all add: contents_def ReadRaftState_def ReadSnapshot_def RaftStateSize_def SnapshotSize_def
      slice_len_def Save_def Persister_Copy_def MakePersister_def clone_bytes)

section \<open>Raft\<close>

record 'c ApplyMsg =
  CommandValid :: bool
  Command :: "'c option"
  CommandIndex :: int
  SnapshotValid :: bool
  Snapshot :: slice
  SnapshotTerm :: int
  SnapshotIndex :: int

record Raft =
  rf_peers :: "string list"
  rf_persister :: nat
  rf_me :: nat
  rf_dead :: int

definition GetState :: "Raft \<Rightarrow> int \<times> bool" where
  "GetState rf = (0, False)"

definition readPersist :: "slice \<Rightarrow> Raft \<Rightarrow> Raft" where
  "readPersist data rf = (if data = None \<or> slice_len data < 1 then rf else rf)"

definition Start :: "Raft \<Rightarrow> 'c option \<Rightarrow> int \<times> int \<times> bool" where
  "Start rf command = (-1, -1, True)"

definition Raft_Snapshot :: "int \<Rightarrow> slice \<Rightarrow> Raft \<Rightarrow> Raft" where
  "Raft_Snapshot index snapshot rf = rf"

definition sendRequestVote :: "Raft \<Rightarrow> nat \<Rightarrow> bytes \<Rightarrow> (string, 'n, 'w) Network \<Rightarrow> (string, 'n, 'w) Network result" where
  "sendRequestVote rf server args rn =
     result_bind (get_at (rf_peers rf) server) (\<lambda>e. Inr (Call_send e ''Raft.RequestVote'' args rn))"

definition Raft_Kill :: "Raft \<Rightarrow> Raft" where
  "Raft_Kill rf = rf\<lparr>rf_dead := 1\<rparr>"

definition killed :: "Raft \<Rightarrow> bool" where
  "killed rf \<longleftrightarrow> rf_dead rf = 1"

definition ticker_pause :: "int \<Rightarrow> int" where
  "ticker_pause r = 50 + r mod 300"

text \<open>The loop of \<open>ticker\<close>: \<open>rf\<close> gives the peer and \<open>r\<close> the random number at each turn; the result is the
  list of the pauses, and a peer that is never killed ticks forever.\<close>

partial_function (option) ticker :: "(nat \<Rightarrow> Raft) \<Rightarrow> (nat \<Rightarrow> int) \<Rightarrow> nat \<Rightarrow> int list option" where
  "ticker rf r i =
     (if killed (rf i) then Some []
      else do { ps \<leftarrow> ticker rf r (Suc i); Some (ticker_pause (r i) # ps) })"

declare ticker.simps [code]

definition Make :: "string list \<Rightarrow> nat \<Rightarrow> nat \<Rightarrow> Persister \<Rightarrow> Raft" where
  "Make peers me persister ps =
     readPersist (ReadRaftState ps)
       \<lparr>rf_peers = peers, rf_persister = persister, rf_me = me, rf_dead = 0\<rparr>"

lemma ticker_stops:
  assumes "killed (rf (i + n))" "\<And>j. i \<le> j \<Longrightarrow> j < i + n \<Longrightarrow> \<not> killed (rf j)"
  shows "ticker rf r i = Some (map (\<lambda>j. ticker_pause (r j)) [i..<i + n])"
  using assms
proof (induction n arbitrary: i)
  case 0
  then show ?case by (simp add: ticker.simps)
next
  case (Suc n)
  have "ticker rf r (Suc i) = Some (map (\<lambda>j. ticker_pause (r j)) [Suc i..<Suc i + n])"
    using Suc.prems by (intro Suc.IH) auto
  moreover have "[i..<i + Suc n] = i # [Suc i..<Suc i + n]"
    by (simp add: upt_conv_Cons)
  ultimately show ?case
    using Suc.prems(2) [of i] by (subst ticker.simps) simp
qed

lemma ticker_None_never:
  assumes "ticker rf r i = Some ps"
  shows "\<exists>n. killed (rf (i + n))"
proof (rule ccontr)
  assume never: "\<nexists>n. killed (rf (i + n))"
  have "ticker rf r j = Some qs \<Longrightarrow> j \<ge> i \<Longrightarrow> False" for j qs
  proof (induction qs arbitrary: j)
    case Nil
    then have "killed (rf j)"
      by (subst (asm) ticker.simps) (auto split: if_splits bind_splits)
    with never Nil.prems(2) show False by (metis le_add_diff_inverse)
  next
    case (Cons q qs)
    then have "ticker rf r (Suc j) = Some qs"
      by (subst (asm) ticker.simps) (auto split: if_splits bind_splits)
    with Cons show False by (meson le_Suc_eq)
  qed
  with assms show False by blast
qed

lemma ticker_pause_bounds: "50 \<le> ticker_pause r" "ticker_pause r < 350"
  by (simp_all add: ticker_pause_def)

lemma Make_simps [simp]:
  "rf_persister (Make peers me p ps) = p" "rf_me (Make peers me p ps) = me"
  "rf_peers (Make peers me p ps) = peers" "rf_dead (Make peers me p ps) = 0"
  by (simp_all add: Make_def readPersist_def)

section \<open>Random names\<close>

definition alphabet :: string where
  "alphabet = ''ABCDEFGHIJKLMNOPQRSTUVWXYZabcdefghijklmnopqrstuvwxyz0123456789-_''"

definition digit64 :: "nat \<Rightarrow> char" where
  "digit64 v = alphabet ! (v mod 64)"

text \<open>\<open>base64.URLEncoding.EncodeToString\<close>.\<close>

fun EncodeToString :: "bytes \<Rightarrow> string" where
  "EncodeToString [] = []"
| "EncodeToString [a] = (let v = unat a * 65536 in
     [digit64 (v div 262144), digit64 (v div 4096)] @ ''=='')"
| "EncodeToString [a, b] = (let v = unat a * 65536 + unat b * 256 in
     [digit64 (v div 262144), digit64 (v div 4096), digit64 (v div 64)] @ ''='')"
| "EncodeToString (a # b # c # r) = (let v = unat a * 65536 + unat b * 256 + unat c in
     [digit64 (v div 262144), digit64 (v div 4096), digit64 (v div 64), digit64 v] @ EncodeToString r)"

text \<open>\<open>src\<close> is the sequence of bytes that \<open>crand.Read\<close> stores.\<close>

definition randstring :: "(nat \<Rightarrow> uint8) \<Rightarrow> nat \<Rightarrow> string" where
  "randstring src n = (let b = map src [0..<2 * n]; s = EncodeToString b in take n s)"

lemma length_EncodeToString: "length (EncodeToString b) = 4 * ((length b + 2) div 3)"
proof (induction b rule: EncodeToString.induct)
  case (4 a b c r)
  have "(length (a # b # c # r) + 2) div 3 = (length r + 2) div 3 + 1" by simp
  with 4 show ?case by (simp only: EncodeToString.simps Let_def) simp
qed (simp_all add: Let_def)

lemma length_randstring: "length (randstring src n) = n"
proof -
  have "n \<le> 4 * ((2 * n + 2) div 3)" by linarith
  then show ?thesis
    by (simp add: randstring_def Let_def length_EncodeToString)
qed

lemma EncodeToString_hd:
  "hd (take (Suc n) (EncodeToString (a # b # c # r))) = digit64 ((unat a * 65536 + unat b * 256 + unat c) div 262144)"
  by (simp add: Let_def)

lemma randstring_hd: "hd (randstring src 20) = digit64 ((unat (src 0) * 65536 + unat (src 1) * 256 + unat (src 2)) div 262144)"
proof -
  have "[0..<2 * 20] = [0..<3] @ [3..<40]" using upt_add_eq_append [of 0 3 37] by simp
  also have "[0..<3] = [0, 1, 2]" by (simp add: numeral_3_eq_3 numeral_2_eq_2)
  finally have l: "[0..<2 * 20] = 0 # 1 # 2 # [3..<40::nat]" by simp
  have t: "(20 :: nat) = Suc 19" by simp
  show ?thesis
    using EncodeToString_hd [of 19 "src 0" "src 1" "src 2" "map src [3..<40]", folded t]
    unfolding randstring_def Let_def l list.map .
qed

abbreviation nth_name :: "(nat \<Rightarrow> nat \<Rightarrow> uint8) \<Rightarrow> nat \<Rightarrow> string" where
  "nth_name rnd k \<equiv> randstring (rnd k) 20"

text \<open>Random bytes for the examples: the first 64 names are distinct.\<close>

definition ex_rnd :: "nat \<Rightarrow> nat \<Rightarrow> uint8" where
  "ex_rnd k b = 4 * of_nat k"

lemma ex_rnd_inj: "inj_on (nth_name ex_rnd) {..<64}"
proof (rule inj_onI)
  fix k k' :: nat
  assume "k \<in> {..<64}" "k' \<in> {..<64}" and e: "randstring (ex_rnd k) 20 = randstring (ex_rnd k') 20"
  then have r: "k < 64" "k' < 64" by auto
  have h: "hd (randstring (ex_rnd j) 20) = alphabet ! j" if "j < 64" for j
  proof -
    have "unat (4 * of_nat j :: uint8) = 4 * j"
      using that unat_of_nat [where 'a = 8, of "4 * j"] by (simp add: take_bit_nat_eq_self)
    moreover have "(4 * j * 65536 + 4 * j * 256 + 4 * j) div 262144 = j"
      using that by (intro div_nat_eqI) simp_all
    ultimately show ?thesis using that by (simp only: randstring_hd ex_rnd_def digit64_def mod_less)
  qed
  have "distinct alphabet" "length alphabet = 64" by (simp_all add: alphabet_def)
  moreover have "alphabet ! k = alphabet ! k'" using h r e by metis
  ultimately show "k = k'" using r nth_eq_iff_index_eq by metis
qed

text \<open>\<open>makeSeed\<close> and the clerks' \<open>nrand\<close>: \<open>crand.Int\<close> below \<open>1 << 62\<close>, read as an \<open>int64\<close>.\<close>

definition makeSeed :: "(int \<Rightarrow> int) \<Rightarrow> int" where
  "makeSeed randInt = (let mx = push_bit 62 1; bigx = randInt mx in sint (of_int bigx :: uint64))"

lemma makeSeed_range:
  assumes "\<And>m. m > 0 \<Longrightarrow> 0 \<le> randInt m \<and> randInt m < m"
  shows "makeSeed randInt = randInt (2 ^ 62)" "0 \<le> makeSeed randInt" "makeSeed randInt < 2 ^ 62"
proof -
  have r: "0 \<le> randInt (2 ^ 62)" "randInt (2 ^ 62) < 2 ^ 62" using assms by auto
  have "signed_take_bit 63 (randInt (2 ^ 62)) = randInt (2 ^ 62)"
    using r by (intro signed_take_bit_int_eq_self) auto
  then show *: "makeSeed randInt = randInt (2 ^ 62)"
    by (simp add: makeSeed_def Let_def push_bit_eq_mult signed_of_int)
  show "0 \<le> makeSeed randInt" "makeSeed randInt < 2 ^ 62" unfolding * using r by auto
qed

end
