(* ===== verification/RaftConfig.thy ===== *)
theory RaftConfig
  imports Raft "HOL-Library.AList"
begin

text \<open>
  The test harness of Raft (\<open>src/6.5840/src/raft/config.go\<close>): it starts, crashes and restarts peers on the
  simulated network of theory Labrpc, connects and disconnects them, checks what they apply, and waits for
  agreement.

  Objects live at addresses: \<open>cf_pers\<close> and \<open>cf_raftobjs\<close> are the heaps of persisters and peers. Parameters
  stand for what is not code of the repository or is not determined by it: \<open>rnd\<close> the bytes read from
  \<open>crypto/rand\<close>, \<open>meths\<close> the methods that reflection finds on a peer, \<open>enc\<close> and \<open>dec\<close> the gob coding of a
  snapshot. A check that looks at running peers gets what it sees as a function of the time or the turn:
  \<open>st\<close> the answers of \<open>GetState\<close>, \<open>start\<close> those of \<open>Start\<close>, \<open>cfg_at\<close> the harness, \<open>lag\<close> the delay on top of
  a \<open>Sleep\<close>. Times are in milliseconds. An error string is a value of \<open>apply_err\<close> (\<^term>\<open>None\<close> for the empty
  string); \<open>log.Fatalf\<close> and \<open>t.Fatal\<close> are \<^term>\<open>Fatal\<close>.
\<close>

datatype 'c apply_err =
    CommitMismatch int nat "'c option" nat "'c option"
  | OutOfOrder nat int
  | ExpectedIndex nat int int
  | SnapshotMismatch nat

record ('c, 'w) config =
  cf_finished :: int
  cf_failed :: bool
  cf_net :: "(string, nat, 'w) Network"
  cf_n :: nat
  cf_rafts :: "nat option list"
  cf_applyErr :: "'c apply_err option list"
  cf_connected :: "bool list"
  cf_saved :: "nat option list"
  cf_endnames :: "string list option list"
  cf_logs :: "(int \<rightharpoonup> 'c option) list"
  cf_lastApplied :: "int list"
  cf_start :: nat
  cf_t0 :: nat
  cf_rpcs0 :: int
  cf_cmds0 :: int
  cf_bytes0 :: int
  cf_maxIndex :: int
  cf_maxIndex0 :: int
  cf_pers :: "Persister list"
  cf_raftobjs :: "Raft list"
  cf_rand :: nat

section \<open>Connections\<close>

definition enable_end :: "nat \<Rightarrow> nat \<Rightarrow> bool \<Rightarrow> ('c, 'w) config \<Rightarrow> ('c, 'w) config result" where
  "enable_end a b v cfg =
     result_bind (get_at (cf_endnames cfg) a) (\<lambda>names.
     result_bind (deref names) (\<lambda>names.
     result_bind (get_at names b) (\<lambda>endname.
       Inr (cfg\<lparr>cf_net := Enable endname v (cf_net cfg)\<rparr>))))"

definition connect :: "nat \<Rightarrow> ('c, 'w) config \<Rightarrow> ('c, 'w) config result" where
  "connect i cfg =
     result_bind (set_at (cf_connected cfg) i True) (\<lambda>conn.
     result_bind (for_each (\<lambda>j cfg.
         result_bind (get_at (cf_connected cfg) j) (\<lambda>c. if c then enable_end i j True cfg else Inr cfg))
       [0..<cf_n cfg] (cfg\<lparr>cf_connected := conn\<rparr>)) (\<lambda>cfg.
     for_each (\<lambda>j cfg.
         result_bind (get_at (cf_connected cfg) j) (\<lambda>c. if c then enable_end j i True cfg else Inr cfg))
       [0..<cf_n cfg] cfg))"

definition disconnect :: "nat \<Rightarrow> ('c, 'w) config \<Rightarrow> ('c, 'w) config result" where
  "disconnect i cfg =
     result_bind (set_at (cf_connected cfg) i False) (\<lambda>conn.
     result_bind (for_each (\<lambda>j cfg.
         result_bind (get_at (cf_endnames cfg) i) (\<lambda>e. if e \<noteq> None then enable_end i j False cfg else Inr cfg))
       [0..<cf_n cfg] (cfg\<lparr>cf_connected := conn\<rparr>)) (\<lambda>cfg.
     for_each (\<lambda>j cfg.
         result_bind (get_at (cf_endnames cfg) j) (\<lambda>e. if e \<noteq> None then enable_end j i False cfg else Inr cfg))
       [0..<cf_n cfg] cfg))"

section \<open>Crashing a peer\<close>

definition copy_saved :: "nat \<Rightarrow> ('c, 'w) config \<Rightarrow> ('c, 'w) config result" where
  "copy_saved i cfg =
     result_bind (get_at (cf_saved cfg) i) (\<lambda>sv.
       case sv of
         None \<Rightarrow> Inr cfg
       | Some a \<Rightarrow> result_bind (get_at (cf_pers cfg) a) (\<lambda>ps.
           Inr (cfg\<lparr>cf_pers := cf_pers cfg @ [Persister_Copy ps],
                    cf_saved := (cf_saved cfg)[i := Some (length (cf_pers cfg))]\<rparr>)))"

definition kill_raft :: "nat \<Rightarrow> ('c, 'w) config \<Rightarrow> ('c, 'w) config result" where
  "kill_raft i cfg =
     result_bind (get_at (cf_rafts cfg) i) (\<lambda>rf.
       case rf of
         None \<Rightarrow> Inr cfg
       | Some r \<Rightarrow> result_bind (get_at (cf_raftobjs cfg) r) (\<lambda>obj.
           Inr (cfg\<lparr>cf_raftobjs := (cf_raftobjs cfg)[r := Raft_Kill obj], cf_rafts := (cf_rafts cfg)[i := None]\<rparr>)))"

definition resave :: "nat \<Rightarrow> ('c, 'w) config \<Rightarrow> ('c, 'w) config result" where
  "resave i cfg =
     result_bind (get_at (cf_saved cfg) i) (\<lambda>sv.
       case sv of
         None \<Rightarrow> Inr cfg
       | Some a \<Rightarrow> result_bind (get_at (cf_pers cfg) a) (\<lambda>ps.
           let raftlog = ReadRaftState ps; snapshot = ReadSnapshot ps in
           Inr (cfg\<lparr>cf_pers := cf_pers cfg @ [Save raftlog snapshot MakePersister],
                    cf_saved := (cf_saved cfg)[i := Some (length (cf_pers cfg))]\<rparr>)))"

definition crash1 :: "nat \<Rightarrow> ('c, 'w) config \<Rightarrow> ('c, 'w) config result" where
  "crash1 i cfg =
     result_bind (disconnect i cfg) (\<lambda>cfg.
     result_bind (copy_saved i (cfg\<lparr>cf_net := DeleteServer i (cf_net cfg)\<rparr>)) (\<lambda>cfg.
     result_bind (kill_raft i cfg) (resave i)))"

section \<open>What peers apply\<close>

definition checkLogs_err :: "(int \<rightharpoonup> 'c option) list \<Rightarrow> nat \<Rightarrow> 'c ApplyMsg \<Rightarrow> 'c apply_err option" where
  "checkLogs_err logs i m =
     fold (\<lambda>j err_msg.
         case (logs ! j) (CommandIndex m) of
           Some old \<Rightarrow> if old \<noteq> Command m
             then Some (CommitMismatch (CommandIndex m) i (Command m) j old) else err_msg
         | None \<Rightarrow> err_msg)
       [0..<length logs] None"

definition checkLogs ::
  "nat \<Rightarrow> 'c ApplyMsg \<Rightarrow> ('c, 'w) config \<Rightarrow> ('c apply_err option \<times> bool \<times> ('c, 'w) config) result" where
  "checkLogs i m cfg =
     (let err_msg = checkLogs_err (cf_logs cfg) i m; v = Command m in
      result_bind (get_at (cf_logs cfg) i) (\<lambda>lg.
        let prevok = lg (CommandIndex m - 1) \<noteq> None;
            cfg = cfg\<lparr>cf_logs := (cf_logs cfg)[i := lg(CommandIndex m \<mapsto> v)]\<rparr>;
            cfg = (if CommandIndex m > cf_maxIndex cfg then cfg\<lparr>cf_maxIndex := CommandIndex m\<rparr> else cfg)
        in Inr (err_msg, prevok, cfg)))"

definition applier_step :: "nat \<Rightarrow> 'c ApplyMsg \<Rightarrow> ('c, 'w) config \<Rightarrow> ('c, 'w) config result" where
  "applier_step i m cfg =
     (if \<not> CommandValid m then Inr cfg
      else result_bind (checkLogs i m cfg) (\<lambda>(err_msg, prevok, cfg).
        let err_msg = (if CommandIndex m > 1 \<and> \<not> prevok then Some (OutOfOrder i (CommandIndex m)) else err_msg) in
        if err_msg \<noteq> None then Inl Fatal else Inr cfg))"

text \<open>The messages that the channel gives until it is closed.\<close>

definition applier :: "nat \<Rightarrow> 'c ApplyMsg list \<Rightarrow> ('c, 'w) config \<Rightarrow> ('c, 'w) config result" where
  "applier i applyCh cfg = for_each (applier_step i) applyCh cfg"

definition log_of :: "'c option list \<Rightarrow> int \<rightharpoonup> 'c option" where
  "log_of xlog = fold (\<lambda>j lg. lg(int j \<mapsto> xlog ! j)) [0..<length xlog] Map.empty"

definition ingestSnap ::
  "(bytes \<Rightarrow> (int \<times> 'c option list) option) \<Rightarrow> nat \<Rightarrow> slice \<Rightarrow> int \<Rightarrow> ('c, 'w) config \<Rightarrow>
   ('c apply_err option \<times> ('c, 'w) config) result" where
  "ingestSnap dec i snapshot index cfg =
     (case snapshot of
        None \<Rightarrow> Inl Fatal
      | Some b \<Rightarrow>
          (case dec b of
             None \<Rightarrow> Inl Fatal
           | Some (lastIncludedIndex, xlog) \<Rightarrow>
               if index \<noteq> -1 \<and> index \<noteq> lastIncludedIndex then Inr (Some (SnapshotMismatch i), cfg)
               else result_bind (set_at (cf_logs cfg) i (log_of xlog)) (\<lambda>logs.
                 result_bind (set_at (cf_lastApplied cfg) i lastIncludedIndex) (\<lambda>la.
                   Inr (None, cfg\<lparr>cf_logs := logs, cf_lastApplied := la\<rparr>)))))"

definition SnapShotInterval :: int where
  "SnapShotInterval = 10"

text \<open>The log up to an index, with nil for what is missing.\<close>

definition log_prefix :: "(int \<rightharpoonup> 'c option) \<Rightarrow> int \<Rightarrow> 'c option list" where
  "log_prefix lg index = map (\<lambda>j. case lg j of None \<Rightarrow> None | Some v \<Rightarrow> v) [0..index]"

definition take_snapshot ::
  "(int \<Rightarrow> 'c option list \<Rightarrow> bytes) \<Rightarrow> nat \<Rightarrow> nat \<Rightarrow> 'c ApplyMsg \<Rightarrow> ('c, 'w) config \<Rightarrow> ('c, 'w) config result" where
  "take_snapshot enc i rf m cfg =
     (if (CommandIndex m + 1) mod SnapShotInterval = 0 then
        result_bind (get_at (cf_logs cfg) i) (\<lambda>lg.
        result_bind (get_at (cf_raftobjs cfg) rf) (\<lambda>obj.
          let w = enc (CommandIndex m) (log_prefix lg (CommandIndex m)) in
          Inr (cfg\<lparr>cf_raftobjs := (cf_raftobjs cfg)[rf := Raft_Snapshot (CommandIndex m) (Some w) obj]\<rparr>)))
      else Inr cfg)"

definition applierSnap_command ::
  "nat \<Rightarrow> 'c ApplyMsg \<Rightarrow> ('c, 'w) config \<Rightarrow> ('c apply_err option \<times> ('c, 'w) config) result" where
  "applierSnap_command i m cfg =
     result_bind (get_at (cf_lastApplied cfg) i) (\<lambda>la.
     result_bind
       (if CommandIndex m \<noteq> la + 1 then Inr (Some (ExpectedIndex i (la + 1) (CommandIndex m)), cfg)
        else result_bind (checkLogs i m cfg) (\<lambda>(err_msg, prevok, cfg).
          Inr (if CommandIndex m > 1 \<and> \<not> prevok then Some (OutOfOrder i (CommandIndex m)) else err_msg, cfg)))
       (\<lambda>(err_msg, cfg).
         result_bind (set_at (cf_lastApplied cfg) i (CommandIndex m)) (\<lambda>la.
           Inr (err_msg, cfg\<lparr>cf_lastApplied := la\<rparr>))))"

definition applierSnap_step where
  "applierSnap_step enc dec i rf m cfg =
     result_bind
       (if SnapshotValid m then ingestSnap dec i (Snapshot m) (SnapshotIndex m) cfg
        else if CommandValid m then
          result_bind (applierSnap_command i m cfg) (\<lambda>(err_msg, cfg).
          result_bind (take_snapshot enc i rf m cfg) (\<lambda>cfg. Inr (err_msg, cfg)))
        else Inr (None, cfg))
       (\<lambda>(err_msg, cfg). if err_msg \<noteq> None then Inl Fatal else Inr cfg)"

definition applierSnap where
  "applierSnap enc dec i applyCh cfg =
     result_bind (get_at (cf_rafts cfg) i) (\<lambda>rf.
       case rf of
         None \<Rightarrow> Inr cfg
       | Some r \<Rightarrow> for_each (applierSnap_step enc dec i r) applyCh cfg)"

section \<open>Starting peers\<close>

text \<open>A set of fresh client ends of peer \<open>i\<close>, one for every peer.\<close>

definition make_ends :: "string list \<Rightarrow> ('c, 'w) config \<Rightarrow> ('c, 'w) config result" where
  "make_ends names cfg =
     for_each (\<lambda>j cfg.
         result_bind (get_at names j) (\<lambda>name.
         result_bind (MakeEnd name (cf_net cfg)) (\<lambda>rn.
           Inr (cfg\<lparr>cf_net := Connect name j rn\<rparr>))))
       [0..<cf_n cfg] cfg"

definition fresh_names :: "(nat \<Rightarrow> nat \<Rightarrow> uint8) \<Rightarrow> ('c, 'w) config \<Rightarrow> string list" where
  "fresh_names rnd cfg = map (\<lambda>j. randstring (rnd (cf_rand cfg + j)) 20) [0..<cf_n cfg]"

definition load_saved where
  "load_saved dec i cfg =
     result_bind (get_at (cf_saved cfg) i) (\<lambda>sv.
       case sv of
         Some a \<Rightarrow>
           result_bind (copy_saved i cfg) (\<lambda>cfg.
           result_bind (get_at (cf_pers cfg) (length (cf_pers cfg) - 1)) (\<lambda>ps.
             let snapshot = ReadSnapshot ps in
             if snapshot \<noteq> None \<and> slice_len snapshot > 0 then
               result_bind (ingestSnap dec i snapshot (-1) cfg) (\<lambda>(err, cfg).
                 if err \<noteq> None then Inl Fatal else Inr cfg)
             else Inr cfg))
       | None \<Rightarrow>
           Inr (cfg\<lparr>cf_pers := cf_pers cfg @ [MakePersister],
                    cf_saved := (cf_saved cfg)[i := Some (length (cf_pers cfg))]\<rparr>))"

definition make_raft :: "nat \<Rightarrow> string list \<Rightarrow> ('c, 'w) config \<Rightarrow> ('c, 'w) config result" where
  "make_raft i ends cfg =
     result_bind (get_at (cf_saved cfg) i) (\<lambda>sv.
     result_bind (deref sv) (\<lambda>a.
     result_bind (get_at (cf_pers cfg) a) (\<lambda>ps.
     result_bind (set_at (cf_rafts cfg) i (Some (length (cf_raftobjs cfg)))) (\<lambda>rafts.
       Inr (cfg\<lparr>cf_raftobjs := cf_raftobjs cfg @ [Make ends i a ps], cf_rafts := rafts\<rparr>)))))"

definition serve :: "(nat \<Rightarrow> 'w rpc_method list) \<Rightarrow> nat \<Rightarrow> ('c, 'w) config \<Rightarrow> ('c, 'w) config result" where
  "serve meths i cfg =
     (let a = length (rn_objs (cf_net cfg));
          svc = MakeService ''Raft'' (meths (length (cf_raftobjs cfg) - 1)) in
      result_bind (add_service a svc (new_server (cf_net cfg))) (\<lambda>rn.
        Inr (cfg\<lparr>cf_net := AddServer i a rn\<rparr>)))"

definition start1 where
  "start1 rnd dec meths i cfg =
     result_bind (crash1 i cfg) (\<lambda>cfg.
     let names = fresh_names rnd cfg in
     result_bind (set_at (cf_endnames cfg) i (Some names)) (\<lambda>endnames.
     result_bind (make_ends names (cfg\<lparr>cf_endnames := endnames, cf_rand := cf_rand cfg + cf_n cfg\<rparr>)) (\<lambda>cfg.
     result_bind (set_at (cf_lastApplied cfg) i 0) (\<lambda>la.
     result_bind (load_saved dec i (cfg\<lparr>cf_lastApplied := la\<rparr>)) (\<lambda>cfg.
     result_bind (make_raft i names cfg) (serve meths i))))))"

definition setunreliable :: "bool \<Rightarrow> ('c, 'w) config \<Rightarrow> ('c, 'w) config" where
  "setunreliable unrel cfg = cfg\<lparr>cf_net := Reliable (\<not> unrel) (cf_net cfg)\<rparr>"

definition setlongreordering :: "bool \<Rightarrow> ('c, 'w) config \<Rightarrow> ('c, 'w) config" where
  "setlongreordering longrel cfg = cfg\<lparr>cf_net := LongReordering longrel (cf_net cfg)\<rparr>"

definition new_config :: "'w \<Rightarrow> nat \<Rightarrow> nat \<Rightarrow> nat \<Rightarrow> ('c, 'w) config" where
  "new_config w n now rand0 =
     \<lparr>cf_finished = 0, cf_failed = False, cf_net = MakeNetwork w, cf_n = n, cf_rafts = replicate n None,
      cf_applyErr = replicate n None, cf_connected = replicate n False, cf_saved = replicate n None,
      cf_endnames = replicate n None, cf_logs = replicate n Map.empty, cf_lastApplied = replicate n 0,
      cf_start = now, cf_t0 = 0, cf_rpcs0 = 0, cf_cmds0 = 0, cf_bytes0 = 0, cf_maxIndex = 0, cf_maxIndex0 = 0,
      cf_pers = [], cf_raftobjs = [], cf_rand = rand0\<rparr>"

definition make_config where
  "make_config rnd dec meths w n unreliable now =
     (let cfg = setunreliable unreliable (new_config w n now 0);
          cfg = cfg\<lparr>cf_net := LongDelays True (cf_net cfg)\<rparr> in
      result_bind (for_each (\<lambda>i cfg.
          result_bind (set_at (cf_logs cfg) i Map.empty) (\<lambda>logs.
            start1 rnd dec meths i (cfg\<lparr>cf_logs := logs\<rparr>))) [0..<n] cfg) (\<lambda>cfg.
      for_each connect [0..<n] cfg))"

section \<open>Housekeeping\<close>

definition checkTimeout :: "nat \<Rightarrow> ('c, 'w) config \<Rightarrow> ('c, 'w) config result" where
  "checkTimeout now cfg = (if \<not> cf_failed cfg \<and> now - cf_start cfg > 120 * 1000 then Inl Fatal else Inr cfg)"

definition checkFinished :: "('c, 'w) config \<Rightarrow> bool" where
  "checkFinished cfg \<longleftrightarrow> cf_finished cfg \<noteq> 0"

definition cleanup :: "nat \<Rightarrow> ('c, 'w) config \<Rightarrow> ('c, 'w) config result" where
  "cleanup now cfg =
     result_bind (for_each (\<lambda>i cfg.
         result_bind (get_at (cf_rafts cfg) i) (\<lambda>rf.
           case rf of
             None \<Rightarrow> Inr cfg
           | Some r \<Rightarrow> result_bind (get_at (cf_raftobjs cfg) r) (\<lambda>obj.
               Inr (cfg\<lparr>cf_raftobjs := (cf_raftobjs cfg)[r := Raft_Kill obj]\<rparr>))))
       [0..<length (cf_rafts cfg)] (cfg\<lparr>cf_finished := 1\<rparr>)) (\<lambda>cfg.
     result_bind (Cleanup (cf_net cfg)) (\<lambda>rn. checkTimeout now (cfg\<lparr>cf_net := rn\<rparr>)))"

definition rpcCount :: "nat \<Rightarrow> ('c, 'w) config \<Rightarrow> int result" where
  "rpcCount server cfg = GetCount server (cf_net cfg)"

definition rpcTotal :: "('c, 'w) config \<Rightarrow> int" where
  "rpcTotal cfg = GetTotalCount (cf_net cfg)"

definition bytesTotal :: "('c, 'w) config \<Rightarrow> int" where
  "bytesTotal cfg = GetTotalBytes (cf_net cfg)"

definition test_begin :: "nat \<Rightarrow> ('c, 'w) config \<Rightarrow> ('c, 'w) config" where
  "test_begin now cfg =
     cfg\<lparr>cf_t0 := now, cf_rpcs0 := rpcTotal cfg, cf_bytes0 := bytesTotal cfg, cf_cmds0 := 0,
         cf_maxIndex0 := cf_maxIndex cfg\<rparr>"

text \<open>The numbers that \<open>end\<close> prints: time, peers, RPCs, bytes and agreements.\<close>

definition test_end :: "nat \<Rightarrow> ('c, 'w) config \<Rightarrow> (nat \<times> nat \<times> int \<times> int \<times> int) option result" where
  "test_end now cfg =
     result_bind (checkTimeout now cfg) (\<lambda>cfg.
       if \<not> cf_failed cfg then
         Inr (Some (now - cf_t0 cfg, cf_n cfg, rpcTotal cfg - cf_rpcs0 cfg, bytesTotal cfg - cf_bytes0 cfg,
           cf_maxIndex cfg - cf_maxIndex0 cfg))
       else Inr None)"

fun LogSize_loop :: "nat \<Rightarrow> ('c, 'w) config \<Rightarrow> nat list \<Rightarrow> nat result" where
  "LogSize_loop logsize cfg [] = Inr logsize"
| "LogSize_loop logsize cfg (i # is) =
     result_bind (get_at (cf_saved cfg) i) (\<lambda>sv.
     result_bind (deref sv) (\<lambda>a.
     result_bind (get_at (cf_pers cfg) a) (\<lambda>ps.
       let n = RaftStateSize ps in LogSize_loop (if n > logsize then n else logsize) cfg is)))"

definition LogSize :: "('c, 'w) config \<Rightarrow> nat result" where
  "LogSize cfg = LogSize_loop 0 cfg [0..<cf_n cfg]"

section \<open>Leaders and terms\<close>

text \<open>The map from terms to their leaders, as an association list.\<close>

definition add_leader :: "int \<Rightarrow> nat \<Rightarrow> (int \<times> nat list) list \<Rightarrow> (int \<times> nat list) list" where
  "add_leader term i leaders =
     AList.update term ((case map_of leaders term of None \<Rightarrow> [] | Some l \<Rightarrow> l) @ [i]) leaders"

fun find_leaders :: "bool list \<Rightarrow> (nat \<Rightarrow> int \<times> bool) \<Rightarrow> nat list \<Rightarrow> (int \<times> nat list) list \<Rightarrow>
    (int \<times> nat list) list result" where
  "find_leaders conn st [] leaders = Inr leaders"
| "find_leaders conn st (i # is) leaders =
     result_bind (get_at conn i) (\<lambda>c.
       if c then
         (let (term, leader) = st i in
          find_leaders conn st is (if leader then add_leader term i leaders else leaders))
       else find_leaders conn st is leaders)"

fun last_term :: "int \<Rightarrow> (int \<times> nat list) list \<Rightarrow> int result" where
  "last_term lastTermWithLeader [] = Inr lastTermWithLeader"
| "last_term lastTermWithLeader ((term, leaders) # rest) =
     (if length leaders > 1 then Inl Fatal
      else last_term (if term > lastTermWithLeader then term else lastTermWithLeader) rest)"

text \<open>\<open>perm\<close> is the order of iteration over the map.\<close>

fun checkOneLeader_loop where
  "checkOneLeader_loop perm cfg st iters 0 = Inl Fatal"
| "checkOneLeader_loop perm cfg st iters (Suc k) =
     result_bind (find_leaders (cf_connected cfg) (st iters) [0..<cf_n cfg] []) (\<lambda>leaders.
     result_bind (last_term (-1) (perm leaders)) (\<lambda>lastTermWithLeader.
       if leaders \<noteq> [] then
         get_at (case map_of leaders lastTermWithLeader of None \<Rightarrow> [] | Some l \<Rightarrow> l) 0
       else checkOneLeader_loop perm cfg st (Suc iters) k))"

definition checkOneLeader where
  "checkOneLeader perm cfg st = checkOneLeader_loop perm cfg st 0 10"

fun checkTerms_loop :: "bool list \<Rightarrow> (nat \<Rightarrow> int \<times> bool) \<Rightarrow> int \<Rightarrow> nat list \<Rightarrow> int result" where
  "checkTerms_loop conn st term [] = Inr term"
| "checkTerms_loop conn st term (i # is) =
     result_bind (get_at conn i) (\<lambda>c.
       if c then
         (let (xterm, _) = st i in
          if term = -1 then checkTerms_loop conn st xterm is
          else if term \<noteq> xterm then Inl Fatal
          else checkTerms_loop conn st term is)
       else checkTerms_loop conn st term is)"

definition checkTerms :: "('c, 'w) config \<Rightarrow> (nat \<Rightarrow> int \<times> bool) \<Rightarrow> int result" where
  "checkTerms cfg st = checkTerms_loop (cf_connected cfg) st (-1) [0..<cf_n cfg]"

definition checkNoLeader :: "('c, 'w) config \<Rightarrow> (nat \<Rightarrow> int \<times> bool) \<Rightarrow> unit result" where
  "checkNoLeader cfg st =
     for_each (\<lambda>i u. result_bind (get_at (cf_connected cfg) i) (\<lambda>c.
         if c \<and> snd (st i) then Inl Fatal else Inr u)) [0..<cf_n cfg] ()"

section \<open>Agreement\<close>

fun nCommitted_loop ::
  "('c, 'w) config \<Rightarrow> int \<Rightarrow> nat \<Rightarrow> 'c option \<Rightarrow> nat list \<Rightarrow> (nat \<times> 'c option) result" where
  "nCommitted_loop cfg index cnt cmd [] = Inr (cnt, cmd)"
| "nCommitted_loop cfg index cnt cmd (i # is) =
     result_bind (get_at (cf_applyErr cfg) i) (\<lambda>err.
       if err \<noteq> None then Inl Fatal
       else result_bind (get_at (cf_logs cfg) i) (\<lambda>lg.
         case lg index of
           Some cmd1 \<Rightarrow>
             if cnt > 0 \<and> cmd \<noteq> cmd1 then Inl Fatal
             else nCommitted_loop cfg index (cnt + 1) cmd1 is
         | None \<Rightarrow> nCommitted_loop cfg index cnt cmd is))"

definition nCommitted :: "int \<Rightarrow> ('c, 'w) config \<Rightarrow> (nat \<times> 'c option) result" where
  "nCommitted index cfg = nCommitted_loop cfg index 0 None [0..<length (cf_rafts cfg)]"

text \<open>\<open>wait\<close> returns the command, or \<open>-1\<close> when a peer has moved on to a later term.\<close>

datatype 'c wait_result = Decided_cmd "'c option" | Moved_on

definition wait_finish where
  "wait_finish cfg_at index n now =
     result_bind (nCommitted index (cfg_at now)) (\<lambda>(nd, cmd).
       if nd < n then Inl Fatal else Inr (Decided_cmd cmd))"

fun wait_loop where
  "wait_loop cfg_at st lag index n startTerm to now 0 = wait_finish cfg_at index n now"
| "wait_loop cfg_at st lag index n startTerm to now (Suc k) =
     result_bind (nCommitted index (cfg_at now)) (\<lambda>(nd, _).
       if nd \<ge> n then wait_finish cfg_at index n now
       else
         (let now = now + to + lag now;
              to = (if to < 1000 then to * 2 else to) in
          if startTerm > -1 \<and> (\<exists>i \<in> set [0..<length (cf_rafts (cfg_at now))]. fst (st now i) > startTerm)
          then Inr Moved_on
          else wait_loop cfg_at st lag index n startTerm to now k))"

definition wait where
  "wait cfg_at st lag index n startTerm now = wait_loop cfg_at st lag index n startTerm (10::nat) now 30"

text \<open>One round over the servers: the next \<open>starts\<close> and the index that a leader gave.\<close>

fun try_servers ::
  "('c, 'w) config \<Rightarrow> (nat \<Rightarrow> int \<times> int \<times> bool) \<Rightarrow> nat \<Rightarrow> nat \<Rightarrow> (nat \<times> int) result" where
  "try_servers cfg start starts 0 = Inr (starts, -1)"
| "try_servers cfg start starts (Suc k) =
     (let starts = (starts + 1) mod cf_n cfg in
      result_bind (get_at (cf_connected cfg) starts) (\<lambda>c.
      result_bind (if c then get_at (cf_rafts cfg) starts else Inr None) (\<lambda>rf.
        if rf \<noteq> None then
          (let (index1, _, ok) = start starts in
           if ok then Inr (starts, index1) else try_servers cfg start starts k)
        else try_servers cfg start starts k)))"

text \<open>Waiting for agreement: the time at the end, and whether the command was committed.\<close>

function one_wait ::
  "(nat \<Rightarrow> ('c, 'w) config) \<Rightarrow> (nat \<Rightarrow> nat) \<Rightarrow> 'c option \<Rightarrow> nat \<Rightarrow> int \<Rightarrow> nat \<Rightarrow> nat \<Rightarrow> (nat \<times> bool) result" where
  "one_wait cfg_at lag cmd expectedServers index t1 now =
     (if now - t1 < 2000 then
        result_bind (nCommitted index (cfg_at now)) (\<lambda>(nd, cmd1).
          if nd > 0 \<and> nd \<ge> expectedServers \<and> cmd1 = cmd then Inr (now, True)
          else one_wait cfg_at lag cmd expectedServers index t1 (now + 20 + lag now))
      else Inr (now, False))"
  by pat_completeness auto
termination
  by (relation "measure (\<lambda>(_, _, _, _, _, t1, now). t1 + 2000 - now)") auto

declare one_wait.simps [simp del]

lemma one_wait_later:
  "one_wait cfg_at lag cmd ex index t1 now = Inr (now', ok) \<Longrightarrow> now \<le> now' \<and> (\<not> ok \<longrightarrow> 2000 \<le> now' - t1)"
proof (induction cfg_at lag cmd ex index t1 now rule: one_wait.induct)
  case (1 cfg_at lag cmd ex index t1 now)
  from 1(2) show ?case
    by (subst (asm) one_wait.simps) (auto split: if_splits dest: 1(1))
qed

function one where
  "one cfg_at start lag cmd expectedServers retry t0 starts now =
     (if now - t0 < 10000 \<and> \<not> checkFinished (cfg_at now) then
        result_bind (try_servers (cfg_at now) (start now) starts (cf_n (cfg_at now))) (\<lambda>(starts, index).
          if index \<noteq> -1 then
            result_bind (one_wait cfg_at lag cmd expectedServers index now now) (\<lambda>(now', committed).
              if committed then Inr index
              else if \<not> retry then Inl Fatal
              else one cfg_at start lag cmd expectedServers retry t0 starts now')
          else one cfg_at start lag cmd expectedServers retry t0 starts (now + 50 + lag now))
      else if \<not> checkFinished (cfg_at now) then Inl Fatal
      else Inr (- 1))"
  by pat_completeness auto
termination
  by (relation "measure (\<lambda>(_, _, _, _, _, _, t0, _, now). t0 + 10000 - now)") (auto dest!: one_wait_later)

declare one.simps [simp del]

end
