(* ===== verification/RaftHarness.thy ===== *)
theory RaftHarness
  imports RaftConfig
begin

text \<open>
  Correctness of the Raft test harness (theory RaftConfig): the checks of applied entries keep the logs of all
  peers in agreement and without gaps, the ends of the network follow the connected peers, a restarted peer
  gets the state its predecessor saved and a persister of its own, and the checks of leaders and agreement
  say what they mean to.
\<close>

section \<open>What the checks of applied entries guarantee\<close>

text \<open>Two peers never have different entries at an index.\<close>

definition logs_agree :: "(int \<rightharpoonup> 'c option) list \<Rightarrow> bool" where
  "logs_agree logs \<longleftrightarrow>
     (\<forall>j < length logs. \<forall>k < length logs. \<forall>index v w.
        (logs ! j) index = Some v \<longrightarrow> (logs ! k) index = Some w \<longrightarrow> v = w)"

text \<open>A peer that has an entry has all entries from the first on.\<close>

definition no_gaps :: "(int \<rightharpoonup> 'c option) \<Rightarrow> bool" where
  "no_gaps lg \<longleftrightarrow> (\<forall>index. index > 1 \<longrightarrow> lg index \<noteq> None \<longrightarrow> lg (index - 1) \<noteq> None)"

definition conflict :: "(int \<rightharpoonup> 'c option) list \<Rightarrow> 'c ApplyMsg \<Rightarrow> bool" where
  "conflict logs m \<longleftrightarrow> (\<exists>j < length logs. \<exists>old. (logs ! j) (CommandIndex m) = Some old \<and> old \<noteq> Command m)"

lemma checkLogs_err_fold:
  "fold (\<lambda>j err_msg.
         case (logs ! j) (CommandIndex m) of
           Some old \<Rightarrow> if old \<noteq> Command m
             then Some (CommitMismatch (CommandIndex m) i (Command m) j old) else err_msg
         | None \<Rightarrow> err_msg) js err = None \<longleftrightarrow>
   err = None \<and> (\<forall>j \<in> set js. \<forall>old. (logs ! j) (CommandIndex m) = Some old \<longrightarrow> old = Command m)"
  by (induction js arbitrary: err) (auto split: option.splits)

lemma checkLogs_err_None: "checkLogs_err logs i m = None \<longleftrightarrow> \<not> conflict logs m"
  by (auto simp: checkLogs_err_def checkLogs_err_fold conflict_def)

lemma applier_step_Fatal:
  assumes "i < length (cf_logs cfg)" "CommandValid m"
  shows "applier_step i m cfg = Inl Fatal \<longleftrightarrow>
    conflict (cf_logs cfg) m \<or> (CommandIndex m > 1 \<and> (cf_logs cfg ! i) (CommandIndex m - 1) = None)"
  using assms
  by (auto simp: applier_step_def checkLogs_def get_at_in Let_def simp flip: checkLogs_err_None [of _ i])

lemma applier_step_logs:
  assumes "applier_step i m cfg = Inr cfg'" "CommandValid m"
  shows "i < length (cf_logs cfg)" "cf_logs cfg' = (cf_logs cfg)[i := (cf_logs cfg ! i)(CommandIndex m \<mapsto> Command m)]"
    "\<not> conflict (cf_logs cfg) m" "CommandIndex m > 1 \<Longrightarrow> (cf_logs cfg ! i) (CommandIndex m - 1) \<noteq> None"
  using assms checkLogs_err_None [of "cf_logs cfg" i m]
  by (auto simp: applier_step_def checkLogs_def Let_def split: if_splits)

lemma logs_agree_update:
  assumes "logs_agree logs" "\<not> conflict logs m" "i < length logs"
  shows "logs_agree (logs[i := (logs ! i)(CommandIndex m \<mapsto> Command m)])"
  using assms unfolding logs_agree_def conflict_def
  by (clarsimp simp: nth_list_update)

lemma no_gaps_update:
  assumes "no_gaps lg" "index > 1 \<Longrightarrow> lg (index - 1) \<noteq> None"
  shows "no_gaps (lg(index \<mapsto> v))"
  using assms by (auto simp: no_gaps_def)

definition logs_ok :: "('c, 'w) config \<Rightarrow> bool" where
  "logs_ok cfg \<longleftrightarrow> logs_agree (cf_logs cfg) \<and> (\<forall>lg \<in> set (cf_logs cfg). no_gaps lg)"

lemma applier_step_logs_ok:
  assumes "logs_ok cfg" "applier_step i m cfg = Inr cfg'"
  shows "logs_ok cfg'"
proof (cases "CommandValid m")
  case True
  note s = applier_step_logs [OF assms(2) True]
  have "no_gaps ((cf_logs cfg ! i)(CommandIndex m \<mapsto> Command m))"
    using assms(1) s(1,4) by (intro no_gaps_update) (auto simp: logs_ok_def)
  moreover have "set (cf_logs cfg') \<subseteq> insert ((cf_logs cfg ! i)(CommandIndex m \<mapsto> Command m)) (set (cf_logs cfg))"
    unfolding s(2) by (rule set_update_subset_insert)
  ultimately show ?thesis
    using assms(1) s logs_agree_update [OF _ s(3,1)] by (auto simp: logs_ok_def)
qed (use assms in \<open>simp add: applier_step_def\<close>)

lemma applier_logs_ok: "applier i msgs cfg = Inr cfg' \<Longrightarrow> logs_ok cfg \<Longrightarrow> logs_ok cfg'"
  unfolding applier_def by (erule for_each_inv) (auto intro: applier_step_logs_ok)

lemma nCommitted_loop_ok:
  assumes "logs_agree (cf_logs cfg)" "\<forall>i \<in> set is. i < length (cf_logs cfg) \<and> i < length (cf_applyErr cfg) \<and> cf_applyErr cfg ! i = None"
    and "cnt > 0 \<Longrightarrow> \<exists>k < length (cf_logs cfg). (cf_logs cfg ! k) index = Some cmd"
  shows "\<exists>cmd'. nCommitted_loop cfg index cnt cmd is =
      Inr (cnt + length (filter (\<lambda>i. (cf_logs cfg ! i) index \<noteq> None) is), cmd') \<and>
    (\<forall>i \<in> set is. (cf_logs cfg ! i) index \<in> {None, Some cmd'})"
  using assms(2,3)
proof (induction "is" arbitrary: cnt cmd)
  case (Cons i js)
  then have i: "i < length (cf_logs cfg)" "i < length (cf_applyErr cfg)" "cf_applyErr cfg ! i = None" by auto
  show ?case
  proof (cases "(cf_logs cfg ! i) index")
    case None
    with Cons i show ?thesis by (auto simp: get_at_in)
  next
    case (Some v)
    have "cnt > 0 \<Longrightarrow> cmd = v"
      using Cons.prems(2) Some i(1) assms(1) unfolding logs_agree_def by blast
    moreover obtain cmd' where IH: "nCommitted_loop cfg index (cnt + 1) v js =
        Inr (cnt + 1 + length (filter (\<lambda>i. (cf_logs cfg ! i) index \<noteq> None) js), cmd')"
      "\<forall>i \<in> set js. (cf_logs cfg ! i) index \<in> {None, Some cmd'}"
      using Cons.IH [of "cnt + 1" v] Cons.prems(1) Some i(1) by auto
    moreover have "cmd' = v"
    proof (cases "\<exists>k \<in> set js. (cf_logs cfg ! k) index \<noteq> None")
      case True
      then obtain k where "k \<in> set js" "(cf_logs cfg ! k) index = Some cmd'" using IH(2) by auto
      with Cons.prems(1) Some i(1) assms(1) show ?thesis unfolding logs_agree_def by (metis list.set_intros(2))
    next
      case False
      have "nCommitted_loop cfg index c x js = Inr (c, x)" if "\<forall>i \<in> set js. (cf_logs cfg ! i) index = None" for c x
        using that Cons.prems(1) by (induction js) (auto simp: get_at_in)
      with False IH(1) show ?thesis by auto
    qed
    ultimately show ?thesis
      using i Some by (auto simp: get_at_in)
  qed
qed auto

section \<open>The effect of connecting\<close>

definition set_enabled :: "string set \<Rightarrow> bool \<Rightarrow> (string, nat, 'w) Network \<Rightarrow> (string, nat, 'w) Network" where
  "set_enabled S v rn = rn\<lparr>rn_enabled := (\<lambda>e. if e \<in> S then v else rn_enabled rn e)\<rparr>"

lemma set_enabled_simps [simp]:
  "set_enabled {} v rn = rn" "Enable e v rn = set_enabled {e} v rn"
  "set_enabled S v (set_enabled T v rn) = set_enabled (S \<union> T) v rn"
  "rn_ends (set_enabled S v rn) = rn_ends rn" "rn_connections (set_enabled S v rn) = rn_connections rn"
  "rn_servers (set_enabled S v rn) = rn_servers rn" "rn_objs (set_enabled S v rn) = rn_objs rn"
  "rn_enabled (set_enabled S v rn) e = (if e \<in> S then v else rn_enabled rn e)"
  by (auto simp: set_enabled_def Enable_def fun_eq_iff intro!: Network.equality)

definition end_name :: "('c, 'w) config \<Rightarrow> nat \<Rightarrow> nat \<Rightarrow> string" where
  "end_name cfg a b = the (cf_endnames cfg ! a) ! b"

definition has_end :: "('c, 'w) config \<Rightarrow> nat \<Rightarrow> nat \<Rightarrow> bool" where
  "has_end cfg a b \<longleftrightarrow> a < length (cf_endnames cfg) \<and> (\<exists>ns. cf_endnames cfg ! a = Some ns \<and> b < length ns)"

lemma enable_end_ok:
  "has_end cfg a b \<Longrightarrow> enable_end a b v cfg = Inr (cfg\<lparr>cf_net := set_enabled {end_name cfg a b} v (cf_net cfg)\<rparr>)"
  by (auto simp: has_end_def enable_end_def end_name_def get_at_in)

lemma end_name_upd [simp]:
  "end_name (cfg\<lparr>cf_net := rn\<rparr>) a b = end_name cfg a b" "has_end (cfg\<lparr>cf_net := rn\<rparr>) a b = has_end cfg a b"
  "end_name (cfg\<lparr>cf_connected := c\<rparr>) a b = end_name cfg a b" "has_end (cfg\<lparr>cf_connected := c\<rparr>) a b = has_end cfg a b"
  by (simp_all add: end_name_def has_end_def)

lemma enable_loop:
  assumes body: "\<And>j rn. j \<in> set js \<Longrightarrow> f j (cfg\<lparr>cf_net := rn\<rparr>) =
      (if P j then enable_end (A j) (B j) v (cfg\<lparr>cf_net := rn\<rparr>) else Inr (cfg\<lparr>cf_net := rn\<rparr>))"
    and valid: "\<And>j. j \<in> set js \<Longrightarrow> P j \<Longrightarrow> has_end cfg (A j) (B j)"
  shows "for_each f js (cfg\<lparr>cf_net := rn\<rparr>) =
    Inr (cfg\<lparr>cf_net := set_enabled {end_name cfg (A j) (B j) |j. j \<in> set js \<and> P j} v rn\<rparr>)"
  using assms
proof (induction js arbitrary: rn)
  case (Cons j js)
  have ext: "{end_name cfg (A k) (B k) |k. k \<in> set (j # js) \<and> P k} =
      (if P j then {end_name cfg (A j) (B j)} else {}) \<union> {end_name cfg (A k) (B k) |k. k \<in> set js \<and> P k}"
    by auto
  show ?case
  proof (cases "P j")
    case True
    have "f j (cfg\<lparr>cf_net := rn\<rparr>) = Inr (cfg\<lparr>cf_net := set_enabled {end_name cfg (A j) (B j)} v rn\<rparr>)"
      using True Cons.prems(1) [of j rn] Cons.prems(2) [of j] by (simp add: enable_end_ok)
    with Cons True show ?thesis
      unfolding ext by (simp add: Un_commute)
  next
    case False
    with Cons show ?thesis
      unfolding ext by simp
  qed
qed simp

definition ends_to :: "('c, 'w) config \<Rightarrow> nat \<Rightarrow> (nat \<Rightarrow> bool) \<Rightarrow> string set" where
  "ends_to cfg i P = {end_name cfg i j |j. j \<in> set [0..<cf_n cfg] \<and> P j}"

definition ends_from :: "('c, 'w) config \<Rightarrow> nat \<Rightarrow> (nat \<Rightarrow> bool) \<Rightarrow> string set" where
  "ends_from cfg i P = {end_name cfg j i |j. j \<in> set [0..<cf_n cfg] \<and> P j}"

lemma connect_ok:
  assumes "i < length (cf_connected cfg)" "length (cf_connected cfg) = cf_n cfg"
    and "\<And>j. j < cf_n cfg \<Longrightarrow> (cf_connected cfg)[i := True] ! j \<Longrightarrow> has_end cfg i j \<and> has_end cfg j i"
  defines "conn \<equiv> (cf_connected cfg)[i := True]"
  shows "connect i cfg = Inr (cfg\<lparr>cf_connected := conn,
    cf_net := set_enabled (ends_to cfg i ((!) conn) \<union> ends_from cfg i ((!) conn)) True (cf_net cfg)\<rparr>)"
proof -
  let ?c = "cfg\<lparr>cf_connected := conn\<rparr>"
  have out: "for_each (\<lambda>j cfg. result_bind (get_at (cf_connected cfg) j) (\<lambda>c. if c then enable_end i j True cfg else Inr cfg))
      [0..<cf_n cfg] (?c\<lparr>cf_net := rn\<rparr>) = Inr (?c\<lparr>cf_net := set_enabled (ends_to cfg i ((!) conn)) True rn\<rparr>)" for rn
    using enable_loop [of "[0..<cf_n cfg]" "\<lambda>j cfg. result_bind (get_at (cf_connected cfg) j) (\<lambda>c. if c then enable_end i j True cfg else Inr cfg)"
        ?c "(!) conn" "\<lambda>_. i" "\<lambda>j. j" True rn] assms
    by (simp add: ends_to_def get_at_in)
  have inc: "for_each (\<lambda>j cfg. result_bind (get_at (cf_connected cfg) j) (\<lambda>c. if c then enable_end j i True cfg else Inr cfg))
      [0..<cf_n cfg] (?c\<lparr>cf_net := rn\<rparr>) = Inr (?c\<lparr>cf_net := set_enabled (ends_from cfg i ((!) conn)) True rn\<rparr>)" for rn
    using enable_loop [of "[0..<cf_n cfg]" "\<lambda>j cfg. result_bind (get_at (cf_connected cfg) j) (\<lambda>c. if c then enable_end j i True cfg else Inr cfg)"
        ?c "(!) conn" "\<lambda>j. j" "\<lambda>_. i" True rn] assms
    by (simp add: ends_from_def get_at_in)
  have "?c = ?c\<lparr>cf_net := cf_net cfg\<rparr>" by simp
  then show ?thesis
    using out [of "cf_net cfg"] inc [of "set_enabled (ends_to cfg i ((!) conn)) True (cf_net cfg)"] assms(1)
    by (simp add: connect_def set_at_def conn_def Un_commute)
qed

lemma disconnect_ok:
  assumes "i < length (cf_connected cfg)" "length (cf_endnames cfg) = cf_n cfg" "i < cf_n cfg"
    and "\<And>j k. j < cf_n cfg \<Longrightarrow> k < cf_n cfg \<Longrightarrow> cf_endnames cfg ! j \<noteq> None \<Longrightarrow> has_end cfg j k"
  defines "conn \<equiv> (cf_connected cfg)[i := False]"
  shows "disconnect i cfg = Inr (cfg\<lparr>cf_connected := conn,
    cf_net := set_enabled (ends_to cfg i (\<lambda>_. cf_endnames cfg ! i \<noteq> None) \<union>
      ends_from cfg i (\<lambda>j. cf_endnames cfg ! j \<noteq> None)) False (cf_net cfg)\<rparr>)"
proof -
  let ?c = "cfg\<lparr>cf_connected := conn\<rparr>"
  have out: "for_each (\<lambda>j cfg. result_bind (get_at (cf_endnames cfg) i) (\<lambda>e. if e \<noteq> None then enable_end i j False cfg else Inr cfg))
      [0..<cf_n cfg] (?c\<lparr>cf_net := rn\<rparr>) =
      Inr (?c\<lparr>cf_net := set_enabled (ends_to cfg i (\<lambda>_. cf_endnames cfg ! i \<noteq> None)) False rn\<rparr>)" for rn
    using enable_loop [of "[0..<cf_n cfg]" "\<lambda>j cfg. result_bind (get_at (cf_endnames cfg) i) (\<lambda>e. if e \<noteq> None then enable_end i j False cfg else Inr cfg)"
        ?c "\<lambda>_. cf_endnames cfg ! i \<noteq> None" "\<lambda>_. i" "\<lambda>j. j" False rn] assms
    by (simp add: ends_to_def get_at_in)
  have inc: "for_each (\<lambda>j cfg. result_bind (get_at (cf_endnames cfg) j) (\<lambda>e. if e \<noteq> None then enable_end j i False cfg else Inr cfg))
      [0..<cf_n cfg] (?c\<lparr>cf_net := rn\<rparr>) =
      Inr (?c\<lparr>cf_net := set_enabled (ends_from cfg i (\<lambda>j. cf_endnames cfg ! j \<noteq> None)) False rn\<rparr>)" for rn
    using enable_loop [of "[0..<cf_n cfg]" "\<lambda>j cfg. result_bind (get_at (cf_endnames cfg) j) (\<lambda>e. if e \<noteq> None then enable_end j i False cfg else Inr cfg)"
        ?c "\<lambda>j. cf_endnames cfg ! j \<noteq> None" "\<lambda>j. j" "\<lambda>_. i" False rn] assms
    by (simp add: ends_from_def get_at_in)
  have "?c = ?c\<lparr>cf_net := cf_net cfg\<rparr>" by simp
  then show ?thesis
    using out [of "cf_net cfg"] inc [of "set_enabled (ends_to cfg i (\<lambda>_. cf_endnames cfg ! i \<noteq> None)) False (cf_net cfg)"] assms(1)
    by (simp add: disconnect_def set_at_def conn_def Un_commute)
qed

section \<open>An end is enabled exactly when both its peers are connected\<close>

definition conn_inv :: "('c, 'w) config \<Rightarrow> bool" where
  "conn_inv cfg \<longleftrightarrow>
     length (cf_connected cfg) = cf_n cfg \<and> length (cf_endnames cfg) = cf_n cfg \<and>
     (\<forall>i ns. i < cf_n cfg \<longrightarrow> cf_endnames cfg ! i = Some ns \<longrightarrow> length ns = cf_n cfg \<and> set ns \<subseteq> rn_ends (cf_net cfg)) \<and>
     (\<forall>i j i' j'. has_end cfg i j \<longrightarrow> has_end cfg i' j' \<longrightarrow> end_name cfg i j = end_name cfg i' j' \<longrightarrow> i = i' \<and> j = j') \<and>
     (\<forall>i < cf_n cfg. cf_connected cfg ! i \<longrightarrow> cf_endnames cfg ! i \<noteq> None) \<and>
     (\<forall>i j. has_end cfg i j \<longrightarrow>
        (rn_enabled (cf_net cfg) (end_name cfg i j) \<longleftrightarrow> cf_connected cfg ! i \<and> cf_connected cfg ! j) \<and>
        rn_connections (cf_net cfg) (end_name cfg i j) = Some j)"

lemma conn_invI:
  assumes "length (cf_connected cfg) = cf_n cfg" "length (cf_endnames cfg) = cf_n cfg"
    "\<And>i ns. i < cf_n cfg \<Longrightarrow> cf_endnames cfg ! i = Some ns \<Longrightarrow> length ns = cf_n cfg \<and> set ns \<subseteq> rn_ends (cf_net cfg)"
    "\<And>i j i' j'. has_end cfg i j \<Longrightarrow> has_end cfg i' j' \<Longrightarrow> end_name cfg i j = end_name cfg i' j' \<Longrightarrow> i = i' \<and> j = j'"
    "\<And>i. i < cf_n cfg \<Longrightarrow> cf_connected cfg ! i \<Longrightarrow> cf_endnames cfg ! i \<noteq> None"
    "\<And>i j. has_end cfg i j \<Longrightarrow> rn_enabled (cf_net cfg) (end_name cfg i j) \<longleftrightarrow> cf_connected cfg ! i \<and> cf_connected cfg ! j"
    "\<And>i j. has_end cfg i j \<Longrightarrow> rn_connections (cf_net cfg) (end_name cfg i j) = Some j"
  shows "conn_inv cfg"
  using assms unfolding conn_inv_def by blast

lemma conn_invD:
  assumes "conn_inv cfg"
  shows "length (cf_connected cfg) = cf_n cfg" "length (cf_endnames cfg) = cf_n cfg"
    "\<And>i ns. i < cf_n cfg \<Longrightarrow> cf_endnames cfg ! i = Some ns \<Longrightarrow> length ns = cf_n cfg \<and> set ns \<subseteq> rn_ends (cf_net cfg)"
    "\<And>i j i' j'. has_end cfg i j \<Longrightarrow> has_end cfg i' j' \<Longrightarrow> end_name cfg i j = end_name cfg i' j' \<Longrightarrow> i = i' \<and> j = j'"
    "\<And>i. i < cf_n cfg \<Longrightarrow> cf_connected cfg ! i \<Longrightarrow> cf_endnames cfg ! i \<noteq> None"
    "\<And>i j. has_end cfg i j \<Longrightarrow> rn_enabled (cf_net cfg) (end_name cfg i j) \<longleftrightarrow> cf_connected cfg ! i \<and> cf_connected cfg ! j"
    "\<And>i j. has_end cfg i j \<Longrightarrow> rn_connections (cf_net cfg) (end_name cfg i j) = Some j"
    "\<And>i j. has_end cfg i j \<longleftrightarrow> i < cf_n cfg \<and> j < cf_n cfg \<and> cf_endnames cfg ! i \<noteq> None"
proof -
  note c = assms [unfolded conn_inv_def]
  show len: "length (cf_connected cfg) = cf_n cfg" "length (cf_endnames cfg) = cf_n cfg" using c by simp_all
  show names: "length ns = cf_n cfg \<and> set ns \<subseteq> rn_ends (cf_net cfg)" if "i < cf_n cfg" "cf_endnames cfg ! i = Some ns" for i ns
    using c that by simp
  show "i = i' \<and> j = j'" if "has_end cfg i j" "has_end cfg i' j'" "end_name cfg i j = end_name cfg i' j'" for i j i' j'
    using c that by meson
  show "cf_endnames cfg ! i \<noteq> None" if "i < cf_n cfg" "cf_connected cfg ! i" for i
    using c that by meson
  show "rn_enabled (cf_net cfg) (end_name cfg i j) \<longleftrightarrow> cf_connected cfg ! i \<and> cf_connected cfg ! j" if "has_end cfg i j" for i j
    using c that by meson
  show "rn_connections (cf_net cfg) (end_name cfg i j) = Some j" if "has_end cfg i j" for i j
    using c that by meson
  show "has_end cfg i j \<longleftrightarrow> i < cf_n cfg \<and> j < cf_n cfg \<and> cf_endnames cfg ! i \<noteq> None" for i j
    using len names by (auto simp: has_end_def)
qed

lemma in_ends:
  assumes "conn_inv cfg" "has_end cfg a b" "\<And>j. j < cf_n cfg \<Longrightarrow> P j \<Longrightarrow> has_end cfg i j"
  shows "end_name cfg a b \<in> ends_to cfg i P \<longleftrightarrow> a = i \<and> P b"
proof
  assume "end_name cfg a b \<in> ends_to cfg i P"
  then obtain j where "j < cf_n cfg" "P j" "end_name cfg a b = end_name cfg i j"
    by (auto simp: ends_to_def)
  with conn_invD(4) [OF assms(1,2)] assms(3) show "a = i \<and> P b" by blast
next
  assume "a = i \<and> P b"
  then show "end_name cfg a b \<in> ends_to cfg i P"
    using assms(2) conn_invD(8) [OF assms(1)] by (auto simp: ends_to_def)
qed

lemma in_ends_from:
  assumes "conn_inv cfg" "has_end cfg a b" "\<And>j. j < cf_n cfg \<Longrightarrow> P j \<Longrightarrow> has_end cfg j i"
  shows "end_name cfg a b \<in> ends_from cfg i P \<longleftrightarrow> b = i \<and> P a"
proof
  assume "end_name cfg a b \<in> ends_from cfg i P"
  then obtain j where "j < cf_n cfg" "P j" "end_name cfg a b = end_name cfg j i"
    by (auto simp: ends_from_def)
  with conn_invD(4) [OF assms(1,2)] assms(3) show "b = i \<and> P a" by blast
next
  assume "b = i \<and> P a"
  then show "end_name cfg a b \<in> ends_from cfg i P"
    using assms(2) conn_invD(8) [OF assms(1)] by (auto simp: ends_from_def)
qed

lemma connect_inv:
  assumes inv: "conn_inv cfg" and i: "i < cf_n cfg" "cf_endnames cfg ! i \<noteq> None"
  shows "\<exists>rn. connect i cfg = Inr (cfg\<lparr>cf_connected := (cf_connected cfg)[i := True], cf_net := rn\<rparr>) \<and>
    conn_inv (cfg\<lparr>cf_connected := (cf_connected cfg)[i := True], cf_net := rn\<rparr>)"
proof -
  let ?conn = "(cf_connected cfg)[i := True]"
  note D = conn_invD [OF inv]
  have ends: "has_end cfg i j \<and> has_end cfg j i" if "j < cf_n cfg" "?conn ! j" for j
    using that D(1,5,8) i by (cases "j = i") auto
  have "connect i cfg = Inr (cfg\<lparr>cf_connected := ?conn,
    cf_net := set_enabled (ends_to cfg i ((!) ?conn) \<union> ends_from cfg i ((!) ?conn)) True (cf_net cfg)\<rparr>)"
    using D(1) i ends by (intro connect_ok) auto
  moreover have "conn_inv (cfg\<lparr>cf_connected := ?conn,
    cf_net := set_enabled (ends_to cfg i ((!) ?conn) \<union> ends_from cfg i ((!) ?conn)) True (cf_net cfg)\<rparr>)"
  proof (rule conn_invI, goal_cases)
    case (3 k ns)
    with D(3) [of k ns] show ?case by simp
  next
    case (4 a b c d)
    with D(4) [of a b c d] show ?case by simp
  next
    case (5 k)
    then show ?case using D(1,5) i by (cases "k = i") auto
  next
    case (6 a b)
    then have ab: "has_end cfg a b" by simp
    then have "a < cf_n cfg" "b < cf_n cfg" using D(8) by auto
    with ab D(1,6) i in_ends [OF inv ab, of "(!) ?conn" i] in_ends_from [OF inv ab, of "(!) ?conn" i] ends
    show ?case by (auto simp: nth_list_update)
  qed (use D(1,2,7) in simp_all)
  ultimately show ?thesis by blast
qed

lemma disconnect_inv:
  assumes inv: "conn_inv cfg" and i: "i < cf_n cfg"
  shows "\<exists>rn. disconnect i cfg = Inr (cfg\<lparr>cf_connected := (cf_connected cfg)[i := False], cf_net := rn\<rparr>) \<and>
    conn_inv (cfg\<lparr>cf_connected := (cf_connected cfg)[i := False], cf_net := rn\<rparr>)"
proof -
  let ?conn = "(cf_connected cfg)[i := False]"
  let ?rn = "set_enabled (ends_to cfg i (\<lambda>_. cf_endnames cfg ! i \<noteq> None) \<union>
      ends_from cfg i (\<lambda>j. cf_endnames cfg ! j \<noteq> None)) False (cf_net cfg)"
  note D = conn_invD [OF inv]
  have ends: "has_end cfg i j" if "j < cf_n cfg" "cf_endnames cfg ! i \<noteq> None" for j
    using that D(8) i by auto
  have ends2: "has_end cfg j i" if "j < cf_n cfg" "cf_endnames cfg ! j \<noteq> None" for j
    using that D(8) i by auto
  have "disconnect i cfg = Inr (cfg\<lparr>cf_connected := ?conn, cf_net := ?rn\<rparr>)"
    using D i by (intro disconnect_ok) auto
  moreover have "conn_inv (cfg\<lparr>cf_connected := ?conn, cf_net := ?rn\<rparr>)"
  proof (rule conn_invI, goal_cases)
    case (3 k ns)
    with D(3) [of k ns] show ?case by simp
  next
    case (4 a b c d)
    with D(4) [of a b c d] show ?case by simp
  next
    case (5 k)
    then show ?case using D(1,5) i by (cases "k = i") auto
  next
    case (6 a b)
    then have ab: "has_end cfg a b" by simp
    then have "a < cf_n cfg" "b < cf_n cfg" "cf_endnames cfg ! a \<noteq> None" using D(8) by auto
    with ab D(1,6) i in_ends [OF inv ab ends] in_ends_from [OF inv ab ends2]
    show ?case by (auto simp: nth_list_update)
  qed (use D(1,2,7) in simp_all)
  ultimately show ?thesis by blast
qed

section \<open>Restarting a peer\<close>

text \<open>A fresh set of ends: none of the names is in use, and the new ends are disabled.\<close>

definition ends_made :: "string list \<Rightarrow> (string, nat, 'w) Network \<Rightarrow> (string, nat, 'w) Network \<Rightarrow> bool" where
  "ends_made names rn rn' \<longleftrightarrow>
     distinct names \<and> set names \<inter> rn_ends rn = {} \<and> rn_ends rn' = rn_ends rn \<union> set names \<and>
     (\<forall>e. rn_enabled rn' e = (if e \<in> set names then False else rn_enabled rn e)) \<and>
     (\<forall>j < length names. rn_connections rn' (names ! j) = Some j) \<and>
     (\<forall>e. e \<notin> set names \<longrightarrow> rn_connections rn' e = rn_connections rn e)"

lemma ends_made_snoc:
  assumes "ends_made names rn rn1" "MakeEnd name rn1 = Inr rn2"
  shows "ends_made (names @ [name]) rn (Connect name (length names) rn2)"
proof -
  from assms(2) have new: "name \<notin> rn_ends rn1"
    and rn2: "rn_ends rn2 = insert name (rn_ends rn1)" "rn_enabled rn2 = (rn_enabled rn1)(name := False)"
      "rn_connections rn2 = (rn_connections rn1)(name := None)"
    by (auto simp: MakeEnd_def split: if_splits)
  from assms(1) new have "name \<notin> set names" "name \<notin> rn_ends rn"
    by (auto simp: ends_made_def)
  with assms(1) rn2 show ?thesis
    by (auto simp: ends_made_def Connect_def nth_append)
qed

lemma make_ends_prefix:
  assumes "for_each (\<lambda>j cfg. result_bind (get_at names j) (\<lambda>name.
       result_bind (MakeEnd name (cf_net cfg)) (\<lambda>rn. Inr (cfg\<lparr>cf_net := Connect name j rn\<rparr>)))) [0..<k] cfg = Inr cfg'"
    "k \<le> length names"
  shows "\<exists>rn'. cfg' = cfg\<lparr>cf_net := rn'\<rparr> \<and> ends_made (take k names) (cf_net cfg) rn'"
  using assms
proof (induction k arbitrary: cfg')
  case 0
  then show ?case by (intro exI [of _ "cf_net cfg"]) (simp add: ends_made_def)
next
  case (Suc k)
  let ?f = "\<lambda>j cfg. result_bind (get_at names j) (\<lambda>name.
       result_bind (MakeEnd name (cf_net cfg)) (\<lambda>rn. Inr (cfg\<lparr>cf_net := Connect name j rn\<rparr>)))"
  from Suc.prems(1) obtain c where c: "for_each ?f [0..<k] cfg = Inr c" "?f k c = Inr cfg'"
    by (auto simp: for_each_append)
  with Suc obtain rn1 where rn1: "c = cfg\<lparr>cf_net := rn1\<rparr>" "ends_made (take k names) (cf_net cfg) rn1" by force
  from c(2) obtain rn2 where rn2: "MakeEnd (names ! k) rn1 = Inr rn2" "cfg' = c\<lparr>cf_net := Connect (names ! k) k rn2\<rparr>"
    by (auto simp: rn1(1))
  have "length (take k names) = k" "take (Suc k) names = take k names @ [names ! k]"
    using Suc.prems(2) by (simp_all add: take_Suc_conv_app_nth)
  with ends_made_snoc [OF rn1(2) rn2(1)] rn1(1) rn2(2) show ?case by auto
qed

lemma make_ends_ok:
  assumes "make_ends names cfg = Inr cfg'" "length names = cf_n cfg"
  shows "\<exists>rn'. cfg' = cfg\<lparr>cf_net := rn'\<rparr> \<and> ends_made names (cf_net cfg) rn'"
  using make_ends_prefix [of names "cf_n cfg" cfg cfg'] assms by (simp add: make_ends_def)

text \<open>The parts of the state that decide who can talk to whom.\<close>

definition same_ends :: "('c, 'w) config \<Rightarrow> ('c, 'w) config \<Rightarrow> bool" where
  "same_ends cfg cfg' \<longleftrightarrow>
     cf_n cfg' = cf_n cfg \<and> cf_connected cfg' = cf_connected cfg \<and> cf_endnames cfg' = cf_endnames cfg \<and>
     rn_ends (cf_net cfg') = rn_ends (cf_net cfg) \<and> rn_enabled (cf_net cfg') = rn_enabled (cf_net cfg) \<and>
     rn_connections (cf_net cfg') = rn_connections (cf_net cfg)"

lemma same_ends_inv:
  assumes "same_ends cfg cfg'" "conn_inv cfg"
  shows "conn_inv cfg'"
proof -
  have "conn_inv cfg' = conn_inv cfg"
    using assms(1) by (simp only: same_ends_def conn_inv_def has_end_def end_name_def)
  with assms(2) show ?thesis by simp
qed

lemma same_ends_trans: "same_ends a b \<Longrightarrow> same_ends b c \<Longrightarrow> same_ends a c"
  by (simp add: same_ends_def)

lemma same_ends_copy: "copy_saved i cfg = Inr cfg' \<Longrightarrow> same_ends cfg cfg'"
  by (auto simp: copy_saved_def same_ends_def split: option.splits)

lemma same_ends_kill: "kill_raft i cfg = Inr cfg' \<Longrightarrow> same_ends cfg cfg'"
  by (auto simp: kill_raft_def same_ends_def split: option.splits)

lemma same_ends_resave: "resave i cfg = Inr cfg' \<Longrightarrow> same_ends cfg cfg'"
  by (auto simp: resave_def same_ends_def Let_def split: option.splits)

lemma same_ends_ingest: "ingestSnap dec i s index cfg = Inr (err, cfg') \<Longrightarrow> same_ends cfg cfg'"
  by (auto simp: ingestSnap_def same_ends_def split: option.splits if_splits)

lemma same_ends_load:
  assumes "load_saved dec i cfg = Inr cfg'"
  shows "same_ends cfg cfg'"
proof (cases "cf_saved cfg ! i")
  case None
  with assms show ?thesis by (auto simp: load_saved_def same_ends_def)
next
  case (Some a)
  with assms obtain c where c: "copy_saved i cfg = Inr c" and "same_ends c cfg'"
    by (auto simp: load_saved_def Let_def same_ends_def [of c c for c] split: if_splits dest: same_ends_ingest)
  with same_ends_copy show ?thesis by (blast intro: same_ends_trans)
qed

lemma same_ends_make_raft: "make_raft i ns cfg = Inr cfg' \<Longrightarrow> same_ends cfg cfg'"
  by (auto simp: make_raft_def same_ends_def)

lemma same_ends_serve: "serve meths i cfg = Inr cfg' \<Longrightarrow> same_ends cfg cfg'"
  by (auto simp: serve_def same_ends_def add_service_def new_server_def AddServer_def Let_def)

lemma same_ends_upd:
  "same_ends cfg (cfg\<lparr>cf_net := DeleteServer i (cf_net cfg)\<rparr>)" "same_ends cfg (cfg\<lparr>cf_lastApplied := la\<rparr>)"
  "same_ends cfg (cfg\<lparr>cf_logs := lgs\<rparr>)"
  by (simp_all add: same_ends_def DeleteServer_def)

lemma crash1_inv:
  assumes inv: "conn_inv cfg" and i: "i < cf_n cfg" and cr: "crash1 i cfg = Inr cfg'"
  shows "conn_inv cfg'" "cf_n cfg' = cf_n cfg" "cf_connected cfg' = (cf_connected cfg)[i := False]"
    "cf_endnames cfg' = cf_endnames cfg"
proof -
  from disconnect_inv [OF inv i] obtain rn where
    d: "disconnect i cfg = Inr (cfg\<lparr>cf_connected := (cf_connected cfg)[i := False], cf_net := rn\<rparr>)"
      "conn_inv (cfg\<lparr>cf_connected := (cf_connected cfg)[i := False], cf_net := rn\<rparr>)" by blast
  let ?d = "cfg\<lparr>cf_connected := (cf_connected cfg)[i := False], cf_net := rn\<rparr>"
  from cr d(1) obtain c1 c2 where
    "copy_saved i (?d\<lparr>cf_net := DeleteServer i (cf_net ?d)\<rparr>) = Inr c1" "kill_raft i c1 = Inr c2" "resave i c2 = Inr cfg'"
    by (auto simp: crash1_def)
  then have se: "same_ends ?d cfg'"
    using same_ends_upd(1) [of ?d i] same_ends_copy same_ends_kill same_ends_resave same_ends_trans by meson
  with same_ends_inv d(2) show "conn_inv cfg'" by blast
  from se show "cf_n cfg' = cf_n cfg" "cf_connected cfg' = (cf_connected cfg)[i := False]" "cf_endnames cfg' = cf_endnames cfg"
    by (simp_all add: same_ends_def)
qed

lemma new_ends_inv:
  assumes inv: "conn_inv cfg" and i: "i < cf_n cfg" "\<not> cf_connected cfg ! i"
    and names: "length names = cf_n cfg" "ends_made names (cf_net cfg) rn'"
  shows "conn_inv (cfg\<lparr>cf_endnames := (cf_endnames cfg)[i := Some names], cf_rand := r, cf_net := rn'\<rparr>)" (is "conn_inv ?c")
proof -
  note D = conn_invD [OF inv]
  note N = names(2) [unfolded ends_made_def]
  have he: "has_end ?c a b \<longleftrightarrow> (if a = i then b < cf_n cfg else has_end cfg a b)" for a b
    using i D(2) names(1) by (auto simp: has_end_def nth_list_update)
  have en: "end_name ?c a b = (if a = i then names ! b else end_name cfg a b)" if "a < cf_n cfg" for a b
    using that D(2) by (auto simp: end_name_def nth_list_update)
  have old: "end_name cfg a b \<in> rn_ends (cf_net cfg)" if "has_end cfg a b" for a b
    using that D(2,3) unfolding has_end_def end_name_def by fastforce
  have mem: "names ! b \<in> set names" if "b < cf_n cfg" for b
    using that names(1) by simp
  have new: "names ! b \<notin> rn_ends (cf_net cfg)" if "b < cf_n cfg" for b
    using mem [OF that] N by blast
  have lt: "a < cf_n cfg" "b < cf_n cfg" if "has_end ?c a b" for a b
    using that he D(8) i by (auto split: if_splits)
  show ?thesis
  proof (rule conn_invI, goal_cases)
    case (3 k ns)
    with D(2) D(3) [of k ns] N names(1) i show ?case by (cases "k = i") auto
  next
    case (4 a b c d)
    note l = lt [OF 4(1)] lt [OF 4(2)]
    have "names ! b = names ! d \<Longrightarrow> b = d" using N names(1) l by (simp add: nth_eq_iff_index_eq)
    moreover have "end_name cfg a b \<noteq> names ! d" if "has_end cfg a b" using old [OF that] new [OF l(4)] by auto
    moreover have "names ! b \<noteq> end_name cfg c d" if "has_end cfg c d" using old [OF that] new [OF l(2)] by auto
    ultimately show ?case
      using 4 D(4) [of a b c d] unfolding he en [OF l(1)] en [OF l(3)] by (cases "a = i"; cases "c = i") auto
  next
    case (6 a b)
    note l = lt [OF 6]
    show ?case
    proof (cases "a = i")
      case True
      then show ?thesis unfolding en [OF l(1)] using l i N mem by simp
    next
      case False
      then have h: "has_end cfg a b" using 6 he by simp
      with old N have "end_name cfg a b \<notin> set names" by blast
      with False h l D(6) N show ?thesis unfolding en [OF l(1)] by simp
    qed
  next
    case (7 a b)
    note l = lt [OF 7]
    show ?case
    proof (cases "a = i")
      case True
      then show ?thesis unfolding en [OF l(1)] using l i N names(1) by simp
    next
      case False
      then have h: "has_end cfg a b" using 7 he by simp
      with old N have "end_name cfg a b \<notin> set names" by blast
      with False h l D(7) N show ?thesis unfolding en [OF l(1)] by simp
    qed
  next
    case (5 k)
    with D(5) [of k] i show ?case by (cases "k = i") auto
  qed (use D(1,2) in simp_all)
qed

lemma start1_inv:
  assumes inv: "conn_inv cfg" and i: "i < cf_n cfg" and st: "start1 rnd dec meths i cfg = Inr cfg'"
  shows "conn_inv cfg'" "cf_n cfg' = cf_n cfg" "cf_connected cfg' = (cf_connected cfg)[i := False]"
    "\<And>j. j < cf_n cfg \<Longrightarrow> (cf_endnames cfg' ! j \<noteq> None) = (j = i \<or> cf_endnames cfg ! j \<noteq> None)"
proof -
  from st obtain c1 c2 c3 c4 where c1: "crash1 i cfg = Inr c1" and c2: "make_ends (fresh_names rnd c1)
      (c1\<lparr>cf_endnames := (cf_endnames c1)[i := Some (fresh_names rnd c1)], cf_rand := cf_rand c1 + cf_n c1\<rparr>) = Inr c2"
    and c3: "load_saved dec i (c2\<lparr>cf_lastApplied := (cf_lastApplied c2)[i := 0]\<rparr>) = Inr c3"
    and c4: "make_raft i (fresh_names rnd c1) c3 = Inr c4" "serve meths i c4 = Inr cfg'"
    by (auto simp: start1_def Let_def)
  note C = crash1_inv [OF inv i c1]
  have len: "length (fresh_names rnd c1) = cf_n c1" by (simp add: fresh_names_def)
  from make_ends_ok [OF c2] len obtain rn' where rn': "ends_made (fresh_names rnd c1) (cf_net c1) rn'"
    "c2 = c1\<lparr>cf_endnames := (cf_endnames c1)[i := Some (fresh_names rnd c1)], cf_rand := cf_rand c1 + cf_n c1, cf_net := rn'\<rparr>"
    by auto
  have conn: "\<not> cf_connected c1 ! i" using C(3) i conn_invD(1) [OF inv] by simp
  have "conn_inv c2"
    unfolding rn'(2) using C i conn len rn'(1) by (intro new_ends_inv) simp_all
  moreover have se: "same_ends c2 cfg'"
    using same_ends_trans [OF same_ends_upd(2) same_ends_trans [OF same_ends_load [OF c3]
        same_ends_trans [OF same_ends_make_raft [OF c4(1)] same_ends_serve [OF c4(2)]]]] .
  ultimately show "conn_inv cfg'" by (blast intro: same_ends_inv)
  from se C rn'(2) show "cf_n cfg' = cf_n cfg" "cf_connected cfg' = (cf_connected cfg)[i := False]"
    by (simp_all add: same_ends_def)
  show "(cf_endnames cfg' ! j \<noteq> None) = (j = i \<or> cf_endnames cfg ! j \<noteq> None)" if "j < cf_n cfg" for j
    using se C rn'(2) that i conn_invD(2) [OF inv] by (auto simp: same_ends_def nth_list_update)
qed

section \<open>Sequences of operations\<close>

datatype harness_op = H_connect nat | H_disconnect nat | H_crash nat | H_restart nat

fun harness_step where
  "harness_step rnd dec meths (H_connect i) cfg = connect i cfg"
| "harness_step rnd dec meths (H_disconnect i) cfg = disconnect i cfg"
| "harness_step rnd dec meths (H_crash i) cfg = crash1 i cfg"
| "harness_step rnd dec meths (H_restart i) cfg = start1 rnd dec meths i cfg"

definition all_started :: "('c, 'w) config \<Rightarrow> bool" where
  "all_started cfg \<longleftrightarrow> conn_inv cfg \<and> (\<forall>i < cf_n cfg. cf_endnames cfg ! i \<noteq> None)"

lemma op_in_range:
  assumes "conn_inv cfg"
  shows "connect i cfg = Inr cfg' \<Longrightarrow> i < cf_n cfg" "disconnect i cfg = Inr cfg' \<Longrightarrow> i < cf_n cfg"
    "crash1 i cfg = Inr cfg' \<Longrightarrow> i < cf_n cfg" "start1 rnd dec meths i cfg = Inr cfg' \<Longrightarrow> i < cf_n cfg"
  using conn_invD(1) [OF assms] by (auto simp: connect_def disconnect_def crash1_def start1_def)

lemma harness_step_inv:
  assumes "all_started cfg" "harness_step rnd dec meths op cfg = Inr cfg'"
  shows "all_started cfg' \<and> cf_n cfg' = cf_n cfg"
proof -
  have inv: "conn_inv cfg" and st: "\<And>i. i < cf_n cfg \<Longrightarrow> cf_endnames cfg ! i \<noteq> None"
    using assms(1) by (auto simp: all_started_def)
  note R = op_in_range [OF inv]
  show ?thesis
  proof (cases op)
    case (H_connect i)
    with assms(2) have i: "i < cf_n cfg" using R(1) by simp
    with H_connect assms(2) connect_inv [OF inv i st [OF i]] st show ?thesis by (auto simp: all_started_def)
  next
    case (H_disconnect i)
    with assms(2) have i: "i < cf_n cfg" using R(2) by simp
    with H_disconnect assms(2) disconnect_inv [OF inv i] st show ?thesis by (auto simp: all_started_def)
  next
    case (H_crash i)
    with assms(2) have i: "i < cf_n cfg" using R(3) by simp
    with H_crash assms(2) crash1_inv [OF inv i] st show ?thesis by (simp add: all_started_def)
  next
    case (H_restart i)
    with assms(2) have i: "i < cf_n cfg" using R(4) by simp
    with H_restart assms(2) start1_inv [OF inv i] st show ?thesis by (simp add: all_started_def)
  qed
qed

lemma new_config_inv: "conn_inv (setunreliable u (new_config w n now r)\<lparr>cf_net := LongDelays b (cf_net (setunreliable u (new_config w n now r)))\<rparr>)"
  by (rule conn_invI) (auto simp: new_config_def setunreliable_def has_end_def)

lemma make_config_inv:
  assumes "make_config rnd dec meths w n unreliable now = Inr (cfg :: ('c, 'w) config)"
  shows "all_started cfg \<and> cf_n cfg = n \<and> (\<forall>i < n. cf_connected cfg ! i)"
proof -
  define cn :: "('c, 'w) config" where "cn = setunreliable unreliable (new_config w n now 0)"
  let ?c0 = "cn\<lparr>cf_net := LongDelays True (cf_net cn)\<rparr>"
  let ?f = "\<lambda>i cfg. result_bind (set_at (cf_logs cfg) i Map.empty) (\<lambda>logs. start1 rnd dec meths i (cfg\<lparr>cf_logs := logs\<rparr>))"
  from assms obtain c1 where c1: "for_each ?f [0..<n] ?c0 = Inr c1" "for_each connect [0..<n] c1 = Inr cfg"
    by (auto simp: make_config_def Let_def cn_def)
  have "conn_inv c1 \<and> cf_n c1 = n \<and> (\<forall>j < n. cf_endnames c1 ! j \<noteq> None)"
  proof (rule for_each_upt_inv [OF c1(1), where P = "\<lambda>k c. conn_inv c \<and> cf_n c = n \<and> (\<forall>j < k. cf_endnames c ! j \<noteq> None)"])
    show "conn_inv ?c0 \<and> cf_n ?c0 = n \<and> (\<forall>j < 0. cf_endnames ?c0 ! j \<noteq> None)"
      using new_config_inv [where u = unreliable and w = w and n = n and now = now and r = 0 and b = True]
      by (simp add: cn_def new_config_def setunreliable_def)
  next
    fix k c c'
    assume k: "k < n" "conn_inv c \<and> cf_n c = n \<and> (\<forall>j < k. cf_endnames c ! j \<noteq> None)" "?f k c = Inr c'"
    let ?c = "c\<lparr>cf_logs := (cf_logs c)[k := Map.empty]\<rparr>"
    have inv: "conn_inv ?c" using k(2) same_ends_upd(3) same_ends_inv by blast
    moreover have "start1 rnd dec meths k ?c = Inr c'" using k(3) by auto
    ultimately show "conn_inv c' \<and> cf_n c' = n \<and> (\<forall>j < Suc k. cf_endnames c' ! j \<noteq> None)"
      using start1_inv [OF inv, of k rnd dec meths c'] k(1,2) by (simp add: less_Suc_eq)
  qed
  then have all: "all_started c1" "cf_n c1 = n" by (simp_all add: all_started_def)
  show ?thesis
  proof (rule for_each_upt_inv [OF c1(2), where P = "\<lambda>k c. all_started c \<and> cf_n c = n \<and> (\<forall>j < k. cf_connected c ! j)"])
    show "all_started c1 \<and> cf_n c1 = n \<and> (\<forall>j < 0. cf_connected c1 ! j)" using all by simp
  next
    fix k c c'
    assume k: "k < n" "all_started c \<and> cf_n c = n \<and> (\<forall>j < k. cf_connected c ! j)" "connect k c = Inr c'"
    then have inv: "conn_inv c" "k < cf_n c" "cf_endnames c ! k \<noteq> None" by (auto simp: all_started_def)
    have "length (cf_connected c) = n" using conn_invD(1) [OF inv(1)] k(2) by simp
    with connect_inv [OF inv] k show "all_started c' \<and> cf_n c' = n \<and> (\<forall>j < Suc k. cf_connected c' ! j)"
      by (auto simp: all_started_def less_Suc_eq nth_list_update)
  qed
qed

section \<open>A restarted peer gets the saved state\<close>

lemma nth_snoc_old: "k < length xs \<Longrightarrow> (xs @ [x]) ! k = xs ! k"
  by (simp add: nth_append)

text \<open>\<open>keeps i cfg cfg'\<close>: peer \<open>i\<close> has the same saved state, at the same address or at a new one, and no
  existing persister has changed.\<close>

definition keeps :: "nat \<Rightarrow> ('c, 'w) config \<Rightarrow> ('c, 'w) config \<Rightarrow> bool" where
  "keeps i cfg cfg' \<longleftrightarrow>
     length (cf_pers cfg) \<le> length (cf_pers cfg') \<and>
     (\<forall>k < length (cf_pers cfg). cf_pers cfg' ! k = cf_pers cfg ! k) \<and>
     length (cf_saved cfg') = length (cf_saved cfg) \<and>
     (\<forall>j. j \<noteq> i \<longrightarrow> cf_saved cfg' ! j = cf_saved cfg ! j) \<and>
     (\<forall>a. cf_saved cfg ! i = Some a \<longrightarrow> a < length (cf_pers cfg) \<longrightarrow>
        (\<exists>a'. cf_saved cfg' ! i = Some a' \<and> a' < length (cf_pers cfg') \<and>
           (a' = a \<or> length (cf_pers cfg) \<le> a') \<and> contents (cf_pers cfg' ! a') = contents (cf_pers cfg ! a)))"

lemma keeps_refl: "keeps i cfg cfg"
  by (auto simp: keeps_def)

lemma keeps_trans:
  assumes "keeps i a b" "keeps i b c"
  shows "keeps i a c"
  unfolding keeps_def
proof (intro conjI allI impI)
  fix p
  assume p: "cf_saved a ! i = Some p" "p < length (cf_pers a)"
  from assms(1) p obtain q where q: "cf_saved b ! i = Some q" "q < length (cf_pers b)"
    "q = p \<or> length (cf_pers a) \<le> q" "contents (cf_pers b ! q) = contents (cf_pers a ! p)"
    unfolding keeps_def by blast
  from assms(2) q obtain r where r: "cf_saved c ! i = Some r" "r < length (cf_pers c)"
    "r = q \<or> length (cf_pers b) \<le> r" "contents (cf_pers c ! r) = contents (cf_pers b ! q)"
    unfolding keeps_def by blast
  have "length (cf_pers a) \<le> length (cf_pers b)" using assms(1) by (simp add: keeps_def)
  then have "r = p \<or> length (cf_pers a) \<le> r" using q(3) r(3) by auto
  with q r show "\<exists>r. cf_saved c ! i = Some r \<and> r < length (cf_pers c) \<and> (r = p \<or> length (cf_pers a) \<le> r) \<and>
      contents (cf_pers c ! r) = contents (cf_pers a ! p)" by auto
qed (use assms in \<open>auto simp: keeps_def\<close>)

lemma keeps_same: "cf_pers cfg' = cf_pers cfg \<Longrightarrow> cf_saved cfg' = cf_saved cfg \<Longrightarrow> keeps i cfg cfg'"
  by (auto simp: keeps_def)

lemma keeps_copy: "copy_saved i cfg = Inr cfg' \<Longrightarrow> keeps i cfg cfg'"
  by (auto simp: copy_saved_def keeps_def nth_append split: option.splits)

lemma keeps_resave: "resave i cfg = Inr cfg' \<Longrightarrow> keeps i cfg cfg'"
  by (auto simp: resave_def keeps_def nth_append Let_def split: option.splits)

lemma keeps_kill: "kill_raft i cfg = Inr cfg' \<Longrightarrow> keeps i cfg cfg'"
  by (auto simp: kill_raft_def split: option.splits intro!: keeps_same)

lemma keeps_disconnect: "disconnect i cfg = Inr cfg' \<Longrightarrow> keeps i cfg cfg'"
proof -
  have e: "enable_end a b v cfg = Inr cfg' \<Longrightarrow> cf_pers cfg' = cf_pers cfg \<and> cf_saved cfg' = cf_saved cfg"
    for a b v and cfg cfg' :: "('c, 'w) config"
    by (auto simp: enable_end_def)
  assume "disconnect i cfg = Inr cfg'"
  then have "cf_pers cfg' = cf_pers cfg \<and> cf_saved cfg' = cf_saved cfg"
    unfolding disconnect_def
    by (auto split: if_splits dest!: e
        dest!: for_each_inv [where P = "\<lambda>c. cf_pers c = cf_pers cfg \<and> cf_saved c = cf_saved cfg"])
  then show ?thesis by (auto intro: keeps_same)
qed

lemma keeps_crash1:
  assumes "crash1 i cfg = Inr cfg'"
  shows "keeps i cfg cfg'"
proof -
  from assms obtain d c k where d: "disconnect i cfg = Inr d"
    and c: "copy_saved i (d\<lparr>cf_net := DeleteServer i (cf_net d)\<rparr>) = Inr c"
    and k: "kill_raft i c = Inr k" "resave i k = Inr cfg'"
    by (auto simp: crash1_def)
  have "keeps i d (d\<lparr>cf_net := DeleteServer i (cf_net d)\<rparr>)" by (rule keeps_same) simp_all
  with keeps_disconnect [OF d] keeps_copy [OF c] keeps_kill [OF k(1)] keeps_resave [OF k(2)]
  show ?thesis by (blast intro: keeps_trans)
qed

lemma keeps_ingest: "ingestSnap dec i s index cfg = Inr (err, cfg') \<Longrightarrow> keeps i cfg cfg'"
  by (auto simp: ingestSnap_def split: option.splits if_splits intro!: keeps_same keeps_refl)

lemma ingest_saved:
  "ingestSnap dec i s index cfg = Inr (err, cfg') \<Longrightarrow>
   cf_saved cfg' = cf_saved cfg \<and> cf_pers cfg' = cf_pers cfg \<and> cf_raftobjs cfg' = cf_raftobjs cfg"
  by (auto simp: ingestSnap_def split: option.splits if_splits)

lemma load_saved_ok:
  assumes "load_saved dec i cfg = Inr cfg'"
  shows "keeps i cfg cfg' \<and> cf_saved cfg' ! i = Some (length (cf_pers cfg)) \<and>
    length (cf_pers cfg') = Suc (length (cf_pers cfg)) \<and> cf_raftobjs cfg' = cf_raftobjs cfg"
proof (cases "cf_saved cfg ! i")
  case None
  with assms show ?thesis by (auto simp: load_saved_def keeps_def nth_append)
next
  case (Some a)
  with assms obtain c where c: "copy_saved i cfg = Inr c"
    and s: "cf_saved cfg' = cf_saved c \<and> cf_pers cfg' = cf_pers c \<and> cf_raftobjs cfg' = cf_raftobjs c"
    by (auto simp: load_saved_def Let_def split: if_splits dest!: ingest_saved)
  have "cf_saved c ! i = Some (length (cf_pers cfg))" "length (cf_pers c) = Suc (length (cf_pers cfg))"
    "cf_raftobjs c = cf_raftobjs cfg"
    using c Some by (auto simp: copy_saved_def)
  moreover have "keeps i cfg cfg'"
    using keeps_trans [OF keeps_copy [OF c] keeps_same] s by blast
  ultimately show ?thesis using s by simp
qed

text \<open>Peers: crashing one kills it; the others and its persister stay as they are.\<close>

definition peers_keep :: "('c, 'w) config \<Rightarrow> ('c, 'w) config \<Rightarrow> bool" where
  "peers_keep cfg cfg' \<longleftrightarrow>
     length (cf_raftobjs cfg) \<le> length (cf_raftobjs cfg') \<and>
     (\<forall>r < length (cf_raftobjs cfg). rf_persister (cf_raftobjs cfg' ! r) = rf_persister (cf_raftobjs cfg ! r) \<and>
        (killed (cf_raftobjs cfg ! r) \<longrightarrow> killed (cf_raftobjs cfg' ! r)))"

lemma disconnect_objs:
  assumes "disconnect i cfg = Inr cfg'"
  shows "cf_raftobjs cfg' = cf_raftobjs cfg \<and> cf_rafts cfg' = cf_rafts cfg"
proof -
  have e: "enable_end a b v cfg = Inr cfg' \<Longrightarrow> cf_raftobjs cfg' = cf_raftobjs cfg \<and> cf_rafts cfg' = cf_rafts cfg"
    for a b v and cfg cfg' :: "('c, 'w) config"
    by (auto simp: enable_end_def)
  from assms show ?thesis
    unfolding disconnect_def
    by (auto split: if_splits dest!: e
        dest!: for_each_inv [where P = "\<lambda>c. cf_raftobjs c = cf_raftobjs cfg \<and> cf_rafts c = cf_rafts cfg"])
qed

lemma crash1_kills:
  assumes "crash1 i cfg = Inr cfg'"
  shows "cf_rafts cfg' ! i = None" "length (cf_raftobjs cfg') = length (cf_raftobjs cfg)" "peers_keep cfg cfg'"
    "\<And>r. cf_rafts cfg ! i = Some r \<Longrightarrow> killed (cf_raftobjs cfg' ! r)"
proof -
  from assms obtain d c k where d: "disconnect i cfg = Inr d"
    and c: "copy_saved i (d\<lparr>cf_net := DeleteServer i (cf_net d)\<rparr>) = Inr c"
    and k: "kill_raft i c = Inr k" "resave i k = Inr cfg'"
    by (auto simp: crash1_def)
  have "cf_raftobjs c = cf_raftobjs cfg \<and> cf_rafts c = cf_rafts cfg"
    using c disconnect_objs [OF d] by (auto simp: copy_saved_def split: option.splits)
  moreover have "cf_raftobjs cfg' = cf_raftobjs k \<and> cf_rafts cfg' = cf_rafts k"
    using k(2) by (auto simp: resave_def Let_def split: option.splits)
  ultimately show "cf_rafts cfg' ! i = None" "length (cf_raftobjs cfg') = length (cf_raftobjs cfg)" "peers_keep cfg cfg'"
    "\<And>r. cf_rafts cfg ! i = Some r \<Longrightarrow> killed (cf_raftobjs cfg' ! r)"
    using k(1) by (auto simp: kill_raft_def peers_keep_def killed_def Raft_Kill_def nth_list_update split: option.splits)
qed

lemma start1_stages:
  assumes "start1 rnd dec meths i cfg = Inr cfg'"
  obtains c1 c2 c3 names where "crash1 i cfg = Inr c1" "load_saved dec i c2 = Inr c3" "keeps i c1 c2"
    "cf_raftobjs c2 = cf_raftobjs c1" "cf_saved cfg' = cf_saved c3" "cf_pers cfg' = cf_pers c3"
    "i < length (cf_rafts c3)" "cf_rafts cfg' = (cf_rafts c3)[i := Some (length (cf_raftobjs c1))]"
    "cf_raftobjs cfg' = cf_raftobjs c1 @ [Make names i (the (cf_saved c3 ! i)) (cf_pers c3 ! the (cf_saved c3 ! i))]"
proof -
  from assms obtain c1 c2 c3 c4 where c1: "crash1 i cfg = Inr c1" and c2: "make_ends (fresh_names rnd c1)
      (c1\<lparr>cf_endnames := (cf_endnames c1)[i := Some (fresh_names rnd c1)], cf_rand := cf_rand c1 + cf_n c1\<rparr>) = Inr c2"
    and c3: "load_saved dec i (c2\<lparr>cf_lastApplied := (cf_lastApplied c2)[i := 0]\<rparr>) = Inr c3"
    and c4: "make_raft i (fresh_names rnd c1) c3 = Inr c4" "serve meths i c4 = Inr cfg'"
    by (auto simp: start1_def Let_def)
  from make_ends_ok [OF c2] obtain rn' where rn':
    "c2 = c1\<lparr>cf_endnames := (cf_endnames c1)[i := Some (fresh_names rnd c1)], cf_rand := cf_rand c1 + cf_n c1, cf_net := rn'\<rparr>"
    by (auto simp: fresh_names_def)
  let ?c2 = "c2\<lparr>cf_lastApplied := (cf_lastApplied c2)[i := 0]\<rparr>"
  have objs: "cf_raftobjs ?c2 = cf_raftobjs c1" using rn' by simp
  have "keeps i c1 ?c2" by (rule keeps_same) (simp_all add: rn')
  moreover have "cf_saved cfg' = cf_saved c3" "cf_pers cfg' = cf_pers c3"
    "i < length (cf_rafts c3)" "cf_rafts cfg' = (cf_rafts c3)[i := Some (length (cf_raftobjs c1))]"
    "cf_raftobjs cfg' = cf_raftobjs c1 @
      [Make (fresh_names rnd c1) i (the (cf_saved c3 ! i)) (cf_pers c3 ! the (cf_saved c3 ! i))]"
    using c4 load_saved_ok [OF c3] objs by (auto simp: make_raft_def serve_def Let_def)
  ultimately show thesis using that [OF c1 c3 _ objs] by blast
qed

lemma start1_state:
  assumes st: "start1 rnd dec meths i cfg = Inr cfg'" and a: "cf_saved cfg ! i = Some a" "a < length (cf_pers cfg)"
  shows "\<exists>a' r. cf_saved cfg' ! i = Some a' \<and> length (cf_pers cfg) \<le> a' \<and>
    contents (cf_pers cfg' ! a') = contents (cf_pers cfg ! a) \<and>
    cf_rafts cfg' ! i = Some r \<and> length (cf_raftobjs cfg) \<le> r \<and> rf_persister (cf_raftobjs cfg' ! r) = a' \<and>
    \<not> killed (cf_raftobjs cfg' ! r) \<and> peers_keep cfg cfg' \<and>
    (\<forall>k < length (cf_pers cfg). cf_pers cfg' ! k = cf_pers cfg ! k) \<and>
    (\<forall>r0 < length (cf_raftobjs cfg). cf_rafts cfg ! i = Some r0 \<longrightarrow> killed (cf_raftobjs cfg' ! r0))"
proof -
  from st obtain c1 c2 c3 names where c: "crash1 i cfg = Inr c1" "load_saved dec i c2 = Inr c3" "keeps i c1 c2"
    "cf_raftobjs c2 = cf_raftobjs c1" "cf_saved cfg' = cf_saved c3" "cf_pers cfg' = cf_pers c3"
    "i < length (cf_rafts c3)" "cf_rafts cfg' = (cf_rafts c3)[i := Some (length (cf_raftobjs c1))]"
    "cf_raftobjs cfg' = cf_raftobjs c1 @ [Make names i (the (cf_saved c3 ! i)) (cf_pers c3 ! the (cf_saved c3 ! i))]"
    by (rule start1_stages)
  note L = load_saved_ok [OF c(2)] and K = crash1_kills [OF c(1)]
  have k: "keeps i cfg c2" using keeps_trans [OF keeps_crash1 [OF c(1)] c(3)] .
  then have kk: "keeps i cfg c3" using L keeps_trans by blast
  from kk a obtain a' where a': "cf_saved c3 ! i = Some a'" "contents (cf_pers c3 ! a') = contents (cf_pers cfg ! a)"
    unfolding keeps_def by blast
  have "a' = length (cf_pers c2)" "length (cf_pers cfg) \<le> length (cf_pers c2)"
    using L a'(1) k by (auto simp: keeps_def)
  moreover have "\<forall>k < length (cf_pers cfg). cf_pers c3 ! k = cf_pers cfg ! k"
    using kk by (simp add: keeps_def)
  moreover have "peers_keep cfg cfg'"
    using K(2,3) c(9) by (auto simp: peers_keep_def nth_append)
  moreover have "killed (cf_raftobjs cfg' ! r0)" if "r0 < length (cf_raftobjs cfg)" "cf_rafts cfg ! i = Some r0" for r0
    using K(2,4) that c(9) by (simp add: nth_append)
  ultimately show ?thesis
    using c a' K(2) by (intro exI [of _ a'] exI [of _ "length (cf_raftobjs c1)"]) (simp add: nth_append killed_def)
qed

section \<open>Leaders\<close>

definition leads :: "bool list \<Rightarrow> (nat \<Rightarrow> int \<times> bool) \<Rightarrow> int \<Rightarrow> nat \<Rightarrow> bool" where
  "leads conn st term i \<longleftrightarrow> conn ! i \<and> st i = (term, True)"

definition leaders_in :: "(int \<times> nat list) list \<Rightarrow> int \<Rightarrow> nat list" where
  "leaders_in L t = (case map_of L t of None \<Rightarrow> [] | Some l \<Rightarrow> l)"

lemma leaders_in_add: "leaders_in (add_leader t i L) t' = leaders_in L t' @ (if t' = t then [i] else [])"
  by (auto simp: leaders_in_def add_leader_def update_conv')

lemma find_leaders_ok:
  assumes "\<forall>i \<in> set is. i < length conn" "distinct (map fst L)" "\<forall>t l. map_of L t = Some l \<longrightarrow> l \<noteq> []"
  shows "\<exists>L'. find_leaders conn st is L = Inr L' \<and> distinct (map fst L') \<and> (\<forall>t l. map_of L' t = Some l \<longrightarrow> l \<noteq> []) \<and>
    (\<forall>t. leaders_in L' t = leaders_in L t @ filter (leads conn st t) is)"
  using assms
proof (induction "is" arbitrary: L)
  case (Cons i js)
  show ?case
  proof (cases "\<exists>t. leads conn st t i")
    case True
    then obtain t where t: "conn ! i" "st i = (t, True)" by (auto simp: leads_def)
    have "distinct (map fst (add_leader t i L))"
      using Cons.prems(2) by (simp add: add_leader_def distinct_update)
    moreover have "\<forall>t' l. map_of (add_leader t i L) t' = Some l \<longrightarrow> l \<noteq> []"
      using Cons.prems(3) by (auto simp: add_leader_def update_conv')
    ultimately have "\<exists>L'. find_leaders conn st js (add_leader t i L) = Inr L' \<and> distinct (map fst L') \<and>
        (\<forall>t l. map_of L' t = Some l \<longrightarrow> l \<noteq> []) \<and>
        (\<forall>t'. leaders_in L' t' = leaders_in (add_leader t i L) t' @ filter (leads conn st t') js)"
      using Cons.prems(1) by (intro Cons.IH) auto
    moreover have "find_leaders conn st (i # js) L = find_leaders conn st js (add_leader t i L)"
      using t Cons.prems(1) by (simp add: get_at_in)
    moreover have "filter (leads conn st t') (i # js) = (if t' = t then [i] else []) @ filter (leads conn st t') js" for t'
      using t by (auto simp: leads_def)
    ultimately show ?thesis
      by (simp only: leaders_in_add append.assoc)
  next
    case False
    then have n: "\<not> conn ! i \<or> \<not> snd (st i)" by (cases "st i") (auto simp: leads_def)
    from False have "filter (leads conn st t) (i # js) = filter (leads conn st t) js" for t by auto
    moreover have "find_leaders conn st (i # js) L = find_leaders conn st js L"
      using n Cons.prems(1) by (auto simp: get_at_in split_beta)
    moreover have "\<forall>i \<in> set js. i < length conn" using Cons.prems(1) by simp
    ultimately show ?thesis using Cons.IH [OF _ Cons.prems(2,3)] by (simp only:)
  qed
qed auto

lemma last_term_ok:
  "last_term b xs = Inr t \<Longrightarrow>
     (\<forall>(k, l) \<in> set xs. length l \<le> 1 \<and> k \<le> t) \<and> b \<le> t \<and> (t = b \<or> t \<in> fst ` set xs)"
proof (induction b xs rule: last_term.induct)
  case (2 b k l rest)
  then have l: "length l \<le> 1" and r: "last_term (if k > b then k else b) rest = Inr t"
    by (auto split: if_splits)
  from l have n: "\<not> length l > 1" by simp
  from "2.IH" [OF n r] l show ?case by (auto split: if_splits)
qed simp

lemma last_term_total:
  "(\<forall>(k, l) \<in> set xs. length l \<le> 1) \<Longrightarrow> \<exists>t. last_term b xs = Inr t"
  by (induction b xs rule: last_term.induct) auto

lemma checkOneLeader_loop_ok:
  assumes "\<And>xs. set (perm xs) = set xs" "cf_n cfg \<le> length (cf_connected cfg)"
    and "checkOneLeader_loop perm cfg st iters k = Inr i"
  shows "\<exists>it t. iters \<le> it \<and> it < iters + k \<and> i < cf_n cfg \<and> leads (cf_connected cfg) (st it) t i \<and>
    (\<forall>j t'. j < cf_n cfg \<longrightarrow> leads (cf_connected cfg) (st it) t' j \<longrightarrow>
       t' \<le> t \<and> (\<forall>j' < cf_n cfg. leads (cf_connected cfg) (st it) t' j' \<longrightarrow> j' = j))"
  using assms(3)
proof (induction k arbitrary: iters)
  case (Suc k)
  let ?C = "cf_connected cfg" and ?is = "[0..<cf_n cfg]"
  obtain L where L: "find_leaders ?C (st iters) ?is [] = Inr L" "distinct (map fst L)"
    "\<And>t l. map_of L t = Some l \<Longrightarrow> l \<noteq> []" "\<And>t. leaders_in L t = filter (leads ?C (st iters) t) ?is"
    using find_leaders_ok [of ?is ?C "[]" "st iters"] assms(2) by (auto simp: leaders_in_def)
  from Suc.prems L(1) obtain t where t: "last_term (-1) (perm L) = Inr t" by auto
  note T = last_term_ok [OF t]
  show ?case
  proof (cases "L = []")
    case True
    with Suc.prems L(1) t have "checkOneLeader_loop perm cfg st (Suc iters) k = Inr i" by simp
    from Suc.IH [OF this] show ?thesis by (metis Suc_leD add_Suc_right add_Suc_shift)
  next
    case False
    with Suc.prems L(1) t have i: "0 < length (leaders_in L t)" "i = leaders_in L t ! 0"
      by (auto simp: leaders_in_def)
    have one: "length (leaders_in L t') \<le> 1 \<and> (leaders_in L t' \<noteq> [] \<longrightarrow> t' \<le> t)" for t'
    proof (cases "map_of L t'")
      case (Some l)
      then have "(t', l) \<in> set (perm L)" using assms(1) by (simp add: map_of_SomeD)
      with T Some show ?thesis by (auto simp: leaders_in_def)
    qed (simp add: leaders_in_def)
    have mem: "j \<in> set (leaders_in L t') \<longleftrightarrow> j < cf_n cfg \<and> leads ?C (st iters) t' j" for j t'
      by (auto simp: L(4))
    have "i \<in> set (leaders_in L t)" using i by (metis nth_mem)
    moreover have "t' \<le> t \<and> (\<forall>j' < cf_n cfg. leads ?C (st iters) t' j' \<longrightarrow> j' = j)"
      if "j < cf_n cfg" "leads ?C (st iters) t' j" for j t'
    proof -
      have "j \<in> set (leaders_in L t')" using that mem by simp
      with one [of t'] obtain "leaders_in L t' = [j]" "t' \<le> t" by (cases "leaders_in L t'") auto
      with mem [of _ t'] show ?thesis by auto
    qed
    ultimately show ?thesis using mem by (intro exI [of _ iters] exI [of _ t]) auto
  qed
qed simp

section \<open>Agreement\<close>

lemma one_wait_committed:
  "one_wait cfg_at lag cmd ex index t1 now = Inr (now', True) \<Longrightarrow>
   \<exists>nd. nCommitted index (cfg_at now') = Inr (nd, cmd) \<and> 0 < nd \<and> ex \<le> nd \<and> now' - t1 < 2000"
proof (induction cfg_at lag cmd ex index t1 now rule: one_wait.induct)
  case (1 cfg_at lag cmd ex index t1 now)
  note step = 1(2) [unfolded one_wait.simps [of cfg_at lag cmd ex index t1 now]]
  then have lt: "now - t1 < 2000" by (auto split: if_splits)
  with step obtain nd cmd1 where n: "nCommitted index (cfg_at now) = Inr (nd, cmd1)" by auto
  show ?case
  proof (cases "nd > 0 \<and> nd \<ge> ex \<and> cmd1 = cmd")
    case True
    with step lt n show ?thesis by auto
  next
    case False
    with step lt n have "one_wait cfg_at lag cmd ex index t1 (now + 20 + lag now) = Inr (now', True)" by auto
    with 1(1) [OF lt n refl False] show ?thesis by blast
  qed
qed

lemma one_committed:
  "one cfg_at start lag cmd ex retry t0 starts now = Inr index \<Longrightarrow>
   index = -1 \<and> (\<exists>now'. checkFinished (cfg_at now')) \<or>
   (\<exists>now' nd. nCommitted index (cfg_at now') = Inr (nd, cmd) \<and> 0 < nd \<and> ex \<le> nd)"
proof (induction cfg_at start lag cmd ex retry t0 starts now rule: one.induct)
  case (1 cfg_at start lag cmd ex retry t0 starts now)
  note step = 1(3) [unfolded one.simps [of cfg_at start lag cmd ex retry t0 starts now]]
  show ?case
  proof (cases "now - t0 < 10000 \<and> \<not> checkFinished (cfg_at now)")
    case True
    with step obtain starts' idx where t: "try_servers (cfg_at now) (start now) starts (cf_n (cfg_at now)) = Inr (starts', idx)"
      by auto
    show ?thesis
    proof (cases "idx = -1")
      case idx: True
      with step True t have "one cfg_at start lag cmd ex retry t0 starts' (now + 50 + lag now) = Inr index" by auto
      with 1(2) [OF True t refl] idx show ?thesis by blast
    next
      case False
      with step True t obtain now' ok where w: "one_wait cfg_at lag cmd ex idx now now = Inr (now', ok)" by auto
      show ?thesis
      proof (cases ok)
        case ok: True
        with step True t False w have "index = idx" by auto
        with one_wait_committed [of cfg_at lag cmd ex idx now now now'] w ok show ?thesis by auto
      next
        case nok: False
        with step True t False w have r: "retry" "one cfg_at start lag cmd ex retry t0 starts' now' = Inr index"
          by (auto split: if_splits)
        with 1(1) [OF True t refl False w refl nok] show ?thesis by blast
      qed
    qed
  next
    case False
    with step show ?thesis by (auto split: if_splits)
  qed
qed

text \<open>A count that is returned is a count of equal entries.\<close>

lemma nCommitted_loop_count:
  assumes "nCommitted_loop cfg index cnt cmd is = Inr (nd, cmd')" "\<forall>i \<in> set js. (cf_logs cfg ! i) index \<in> {None, Some cmd}"
    "cnt = length (filter (\<lambda>i. (cf_logs cfg ! i) index = Some cmd) js)"
  shows "nd = length (filter (\<lambda>i. (cf_logs cfg ! i) index = Some cmd') (js @ is)) \<and>
    (\<forall>i \<in> set (js @ is). (cf_logs cfg ! i) index \<in> {None, Some cmd'})"
  using assms
proof (induction "is" arbitrary: cnt cmd js)
  case (Cons i rest)
  show ?case
  proof (cases "(cf_logs cfg ! i) index")
    case None
    with Cons.prems have "nCommitted_loop cfg index cnt cmd rest = Inr (nd, cmd')"
      by (auto split: if_splits)
    from Cons.IH [OF this, of "js @ [i]"] None Cons.prems show ?thesis by simp
  next
    case (Some v)
    with Cons.prems have r: "nCommitted_loop cfg index (cnt + 1) v rest = Inr (nd, cmd')" "cnt = 0 \<or> cmd = v"
      by (auto split: if_splits)
    have js: "\<forall>k \<in> set js. (cf_logs cfg ! k) index \<in> {None, Some v}"
    proof (cases "cnt = 0")
      case True
      with Cons.prems(2,3) have "\<forall>k \<in> set js. (cf_logs cfg ! k) index = None"
        by (auto simp: filter_empty_conv)
      then show ?thesis by simp
    qed (use r(2) Cons.prems(2) in auto)
    have "cnt = length (filter (\<lambda>k. (cf_logs cfg ! k) index = Some v) js)"
    proof (cases "cnt = 0")
      case True
      with Cons.prems(2,3) have "\<forall>k \<in> set js. (cf_logs cfg ! k) index = None"
        by (auto simp: filter_empty_conv)
      with True show ?thesis by (simp add: filter_empty_conv)
    qed (use r(2) Cons.prems(3) in auto)
    with Cons.IH [OF r(1), of "js @ [i]"] Some js show ?thesis by simp
  qed
qed simp

lemma nCommitted_count:
  assumes "nCommitted index cfg = Inr (nd, cmd)"
  shows "nd = length (filter (\<lambda>i. (cf_logs cfg ! i) index = Some cmd) [0..<length (cf_rafts cfg)])"
  using nCommitted_loop_count [of cfg index 0 None "[0..<length (cf_rafts cfg)]" nd cmd "[]"] assms
  by (simp add: nCommitted_def)

section \<open>Snapshots\<close>

lemma fold_log:
  "fold (\<lambda>j lg. lg(int j \<mapsto> xlog ! j)) [0..<n] Map.empty k = (if 0 \<le> k \<and> k < int n then Some (xlog ! nat k) else None)"
  by (induction n) auto

lemma log_of_nth: "log_of xlog k = (if 0 \<le> k \<and> k < int (length xlog) then Some (xlog ! nat k) else None)"
  by (simp add: log_of_def fold_log)

lemma log_of_prefix:
  assumes "0 \<le> index"
  shows "log_of (log_prefix lg index) k =
    (if 0 \<le> k \<and> k \<le> index then Some (case lg k of None \<Rightarrow> None | Some v \<Rightarrow> v) else None)"
proof -
  have "[0..index] ! nat k = k" if "0 \<le> k" "k \<le> index"
    using that nth_upto [of 0 "nat k" index] by simp
  with assms show ?thesis by (auto simp: log_of_nth log_prefix_def nat_less_iff)
qed

end
