(* ===== verification/RaftStart.thy ===== *)
theory RaftStart
  imports RaftHarness
begin

text \<open>
  The Raft harness starts: with distinct random names every peer can be started, crashed and restarted, so that
  the theorems of this development about the harness (at the end of the theory) are about runs that exist.
\<close>

section \<open>Starting peers succeeds\<close>

definition objs_wf :: "('c, 'w) config \<Rightarrow> bool" where
  "objs_wf cfg \<longleftrightarrow>
     length (cf_saved cfg) = cf_n cfg \<and> length (cf_rafts cfg) = cf_n cfg \<and>
     length (cf_logs cfg) = cf_n cfg \<and> length (cf_lastApplied cfg) = cf_n cfg \<and>
     (\<forall>i a. i < cf_n cfg \<longrightarrow> cf_saved cfg ! i = Some a \<longrightarrow> a < length (cf_pers cfg)) \<and>
     (\<forall>i r. i < cf_n cfg \<longrightarrow> cf_rafts cfg ! i = Some r \<longrightarrow> r < length (cf_raftobjs cfg)) \<and>
     (\<forall>r < length (cf_raftobjs cfg). rf_persister (cf_raftobjs cfg ! r) < length (cf_pers cfg))"

text \<open>What the operations leave alone: the size, the random source, the names in use, and the set of saved states.\<close>

definition cfg_frame :: "('c, 'w) config \<Rightarrow> ('c, 'w) config \<Rightarrow> bool" where
  "cfg_frame cfg cfg' \<longleftrightarrow>
     cf_n cfg' = cf_n cfg \<and> cf_rand cfg' = cf_rand cfg \<and> rn_ends (cf_net cfg') = rn_ends (cf_net cfg) \<and>
     contents ` set (cf_pers cfg') \<subseteq> insert ([], []) (contents ` set (cf_pers cfg))"

lemma cfg_frame_trans: "cfg_frame a b \<Longrightarrow> cfg_frame b c \<Longrightarrow> cfg_frame a c"
  by (simp add: cfg_frame_def) blast

lemma copy_saved_total:
  assumes "objs_wf cfg" "i < cf_n cfg"
  shows "\<exists>cfg'. copy_saved i cfg = Inr cfg' \<and> objs_wf cfg' \<and> cfg_frame cfg cfg'"
proof (cases "cf_saved cfg ! i")
  case None
  with assms show ?thesis by (auto simp: copy_saved_def get_at_in objs_wf_def cfg_frame_def)
next
  case (Some a)
  with assms have a: "a < length (cf_pers cfg)" by (simp add: objs_wf_def)
  let ?c = "cfg\<lparr>cf_pers := cf_pers cfg @ [Persister_Copy (cf_pers cfg ! a)], cf_saved := (cf_saved cfg)[i := Some (length (cf_pers cfg))]\<rparr>"
  have "copy_saved i cfg = Inr ?c" using Some a assms by (simp add: copy_saved_def get_at_in objs_wf_def)
  moreover have "objs_wf ?c"
    using assms by (auto simp: objs_wf_def nth_list_update less_Suc_eq less_SucI)
  moreover have "cfg_frame cfg ?c" using a by (auto simp: cfg_frame_def)
  ultimately show ?thesis by blast
qed

lemma kill_raft_total:
  assumes "objs_wf cfg" "i < cf_n cfg"
  shows "\<exists>cfg'. kill_raft i cfg = Inr cfg' \<and> objs_wf cfg' \<and> cfg_frame cfg cfg'"
proof (cases "cf_rafts cfg ! i")
  case None
  with assms show ?thesis by (auto simp: kill_raft_def get_at_in objs_wf_def cfg_frame_def)
next
  case (Some r)
  with assms have r: "r < length (cf_raftobjs cfg)" by (simp add: objs_wf_def)
  let ?c = "cfg\<lparr>cf_raftobjs := (cf_raftobjs cfg)[r := Raft_Kill (cf_raftobjs cfg ! r)], cf_rafts := (cf_rafts cfg)[i := None]\<rparr>"
  have "kill_raft i cfg = Inr ?c" using Some r assms by (simp add: kill_raft_def get_at_in objs_wf_def)
  moreover have "objs_wf ?c"
    using assms r by (auto simp: objs_wf_def nth_list_update Raft_Kill_def split: if_splits)
  moreover have "cfg_frame cfg ?c" by (auto simp: cfg_frame_def)
  ultimately show ?thesis by blast
qed

lemma resave_total:
  assumes "objs_wf cfg" "i < cf_n cfg"
  shows "\<exists>cfg'. resave i cfg = Inr cfg' \<and> objs_wf cfg' \<and> cfg_frame cfg cfg'"
proof (cases "cf_saved cfg ! i")
  case None
  with assms show ?thesis by (auto simp: resave_def get_at_in objs_wf_def cfg_frame_def)
next
  case (Some a)
  with assms have a: "a < length (cf_pers cfg)" by (simp add: objs_wf_def)
  let ?p = "cf_pers cfg ! a"
  let ?c = "cfg\<lparr>cf_pers := cf_pers cfg @ [Save (ReadRaftState ?p) (ReadSnapshot ?p) MakePersister],
    cf_saved := (cf_saved cfg)[i := Some (length (cf_pers cfg))]\<rparr>"
  have "resave i cfg = Inr ?c" using Some a assms by (simp add: resave_def get_at_in objs_wf_def Let_def)
  moreover have "objs_wf ?c"
    using assms by (auto simp: objs_wf_def nth_list_update less_Suc_eq less_SucI)
  moreover have "cfg_frame cfg ?c" using a by (auto simp: cfg_frame_def)
  ultimately show ?thesis by blast
qed

text \<open>Saved snapshots can be decoded.\<close>

definition decodable :: "(bytes \<Rightarrow> (int \<times> 'c option list) option) \<Rightarrow> ('c, 'w) config \<Rightarrow> bool" where
  "decodable dec cfg \<longleftrightarrow> (\<forall>s \<in> snd ` contents ` set (cf_pers cfg). s = [] \<or> dec s \<noteq> None)"

definition cfg_wf :: "('c, 'w) config \<Rightarrow> bool" where
  "cfg_wf cfg \<longleftrightarrow> conn_inv cfg \<and> objs_wf cfg"

lemma disconnect_total:
  assumes "cfg_wf cfg" "i < cf_n cfg"
  shows "\<exists>cfg'. disconnect i cfg = Inr cfg' \<and> objs_wf cfg' \<and> cfg_frame cfg cfg'"
proof -
  have inv: "conn_inv cfg" using assms(1) by (simp add: cfg_wf_def)
  note D = conn_invD [OF inv]
  have "disconnect i cfg = Inr (cfg\<lparr>cf_connected := (cf_connected cfg)[i := False],
    cf_net := set_enabled (ends_to cfg i (\<lambda>_. cf_endnames cfg ! i \<noteq> None) \<union>
      ends_from cfg i (\<lambda>j. cf_endnames cfg ! j \<noteq> None)) False (cf_net cfg)\<rparr>)"
    using D assms(2) by (intro disconnect_ok) auto
  with assms(1) show ?thesis by (auto simp: cfg_wf_def objs_wf_def cfg_frame_def)
qed

lemma crash1_total:
  assumes wf: "cfg_wf cfg" and i: "i < cf_n cfg"
  shows "\<exists>cfg'. crash1 i cfg = Inr cfg' \<and> cfg_wf cfg' \<and> cfg_frame cfg cfg'"
proof -
  from disconnect_total [OF wf i] obtain d where d: "disconnect i cfg = Inr d" "objs_wf d" "cfg_frame cfg d" by blast
  let ?d = "d\<lparr>cf_net := DeleteServer i (cf_net d)\<rparr>"
  have d': "objs_wf ?d" "cfg_frame cfg ?d" "i < cf_n ?d"
    using d i by (auto simp: objs_wf_def cfg_frame_def DeleteServer_def)
  from copy_saved_total [OF d'(1,3)] obtain c where c: "copy_saved i ?d = Inr c" "objs_wf c" "cfg_frame cfg c"
    using cfg_frame_trans [OF d'(2)] by blast
  then have "i < cf_n c" using i by (simp add: cfg_frame_def)
  from kill_raft_total [OF c(2) this] obtain k where k: "kill_raft i c = Inr k" "objs_wf k" "cfg_frame cfg k"
    using cfg_frame_trans [OF c(3)] by blast
  then have "i < cf_n k" using i by (simp add: cfg_frame_def)
  from resave_total [OF k(2) this] obtain r where r: "resave i k = Inr r" "objs_wf r" "cfg_frame cfg r"
    using cfg_frame_trans [OF k(3)] by blast
  have cr: "crash1 i cfg = Inr r" using d c k r by (simp add: crash1_def)
  moreover have "conn_inv r" using crash1_inv(1) [OF _ i cr] wf by (simp add: cfg_wf_def)
  ultimately show ?thesis using r by (auto simp: cfg_wf_def)
qed

lemma make_ends_total:
  assumes "distinct names" "set names \<inter> rn_ends (cf_net cfg) = {}" "length names = cf_n cfg"
  shows "\<exists>rn'. make_ends names cfg = Inr (cfg\<lparr>cf_net := rn'\<rparr>)"
proof -
  let ?f = "\<lambda>j cfg. result_bind (get_at names j) (\<lambda>name.
       result_bind (MakeEnd name (cf_net cfg)) (\<lambda>rn. Inr (cfg\<lparr>cf_net := Connect name j rn\<rparr>)))"
  have "\<exists>rn'. for_each ?f [0..<k] cfg = Inr (cfg\<lparr>cf_net := rn'\<rparr>) \<and> rn_ends rn' = rn_ends (cf_net cfg) \<union> set (take k names)"
    if "k \<le> length names" for k
    using that
  proof (induction k)
    case 0
    show ?case by (intro exI [of _ "cf_net cfg"]) simp
  next
    case (Suc k)
    then obtain rn where rn: "for_each ?f [0..<k] cfg = Inr (cfg\<lparr>cf_net := rn\<rparr>)"
      "rn_ends rn = rn_ends (cf_net cfg) \<union> set (take k names)" by auto
    have k: "k < length names" using Suc.prems by simp
    have "names ! k \<notin> set (take k names)"
      using k assms(1) by (auto simp: in_set_conv_nth nth_eq_iff_index_eq)
    moreover have "names ! k \<notin> rn_ends (cf_net cfg)"
      using k assms(2) nth_mem by blast
    ultimately have "names ! k \<notin> rn_ends rn" using rn(2) by simp
    with rn k show ?case
      by (auto simp: for_each_append get_at_in MakeEnd_def Connect_def take_Suc_conv_app_nth)
  qed
  from this [of "cf_n cfg"] assms(3) show ?thesis by (auto simp: make_ends_def)
qed

lemma load_saved_total:
  assumes wf: "objs_wf cfg" and i: "i < cf_n cfg" and dec: "decodable dec cfg"
  shows "\<exists>cfg'. load_saved dec i cfg = Inr cfg' \<and> objs_wf cfg' \<and> cfg_frame cfg cfg'"
proof (cases "cf_saved cfg ! i")
  case None
  with wf i show ?thesis
    by (auto simp: load_saved_def get_at_in objs_wf_def cfg_frame_def nth_list_update less_Suc_eq less_SucI)
next
  case (Some a)
  from copy_saved_total [OF wf i] obtain c where c: "copy_saved i cfg = Inr c" "objs_wf c" "cfg_frame cfg c" by blast
  have a: "a < length (cf_pers cfg)" using wf i Some by (simp add: objs_wf_def)
  then have ps: "cf_pers c = cf_pers cfg @ [Persister_Copy (cf_pers cfg ! a)]"
    using c(1) Some by (auto simp: copy_saved_def)
  let ?snap = "snd (contents (cf_pers cfg ! a))"
  have "?snap = [] \<or> dec ?snap \<noteq> None" using dec a by (auto simp: decodable_def)
  moreover have lens: "i < length (cf_saved cfg)" "i < length (cf_logs c)" "i < length (cf_lastApplied c)"
    using wf c i by (auto simp: objs_wf_def cfg_frame_def)
  moreover have ld: "load_saved dec i cfg = (if ?snap \<noteq> [] then
      result_bind (ingestSnap dec i (Some ?snap) (-1) c) (\<lambda>(err, cfg). if err \<noteq> None then Inl Fatal else Inr cfg) else Inr c)"
    using Some c(1) ps lens(1) by (simp add: load_saved_def get_at_in slice_len_def Let_def)
  ultimately consider "load_saved dec i cfg = Inr c"
    | la xlog where "load_saved dec i cfg = Inr (c\<lparr>cf_logs := (cf_logs c)[i := log_of xlog], cf_lastApplied := (cf_lastApplied c)[i := la]\<rparr>)"
    using lens(2,3) unfolding ld by (cases "?snap = []") (auto simp: ingestSnap_def set_at_def)
  then show ?thesis
    using c(2,3) by cases (auto simp: objs_wf_def cfg_frame_def)
qed

text \<open>A peer can be restarted whenever the fresh names are new and its snapshot can be decoded.\<close>

lemma start1_total:
  assumes wf: "cfg_wf cfg" and i: "i < cf_n cfg" and dec: "decodable dec cfg"
    and names: "distinct (fresh_names rnd cfg)" "set (fresh_names rnd cfg) \<inter> rn_ends (cf_net cfg) = {}"
  shows "\<exists>cfg'. start1 rnd dec meths i cfg = Inr cfg' \<and> cfg_wf cfg' \<and> cf_n cfg' = cf_n cfg \<and>
    contents ` set (cf_pers cfg') \<subseteq> insert ([], []) (contents ` set (cf_pers cfg)) \<and>
    cf_rand cfg' = cf_rand cfg + cf_n cfg \<and> rn_ends (cf_net cfg') = rn_ends (cf_net cfg) \<union> set (fresh_names rnd cfg)"
proof -
  from crash1_total [OF wf i] obtain c1 where c1: "crash1 i cfg = Inr c1" "cfg_wf c1" "cfg_frame cfg c1" by blast
  let ?ns = "fresh_names rnd cfg"
  have fr: "cf_n c1 = cf_n cfg" "cf_rand c1 = cf_rand cfg" "rn_ends (cf_net c1) = rn_ends (cf_net cfg)"
    using c1(3) by (simp_all add: cfg_frame_def)
  have ns: "fresh_names rnd c1 = ?ns" using fr by (simp add: fresh_names_def)
  have len_ns: "length ?ns = cf_n cfg" by (simp add: fresh_names_def)
  have len: "length (cf_endnames c1) = cf_n cfg"
    using c1 conn_invD(2) [of c1] by (simp add: cfg_wf_def cfg_frame_def)
  let ?c1 = "c1\<lparr>cf_endnames := (cf_endnames c1)[i := Some ?ns], cf_rand := cf_rand c1 + cf_n c1\<rparr>"
  have "set ?ns \<inter> rn_ends (cf_net ?c1) = {}" "length ?ns = cf_n ?c1" using names(2) fr len_ns by simp_all
  from make_ends_total [OF names(1) this] obtain rn where rn: "make_ends ?ns ?c1 = Inr (?c1\<lparr>cf_net := rn\<rparr>)" by blast
  from make_ends_ok [OF rn] len_ns fr(1) obtain rn' where
    rn': "?c1\<lparr>cf_net := rn\<rparr> = ?c1\<lparr>cf_net := rn'\<rparr>" "ends_made ?ns (cf_net ?c1) rn'" by auto
  have ends: "rn_ends rn = rn_ends (cf_net cfg) \<union> set ?ns"
    using arg_cong [OF rn'(1), of cf_net] rn'(2) fr(3) by (simp add: ends_made_def)
  let ?c2 = "?c1\<lparr>cf_net := rn, cf_lastApplied := (cf_lastApplied c1)[i := 0]\<rparr>"
  have c2: "objs_wf ?c2" "i < cf_n ?c2" using c1(2) fr(1) i by (simp_all add: cfg_wf_def objs_wf_def)
  have "snd ` contents ` set (cf_pers c1) \<subseteq> snd ` insert ([], []) (contents ` set (cf_pers cfg))"
    using c1(3) by (intro image_mono) (simp add: cfg_frame_def)
  then have "snd ` contents ` set (cf_pers c1) \<subseteq> insert [] (snd ` contents ` set (cf_pers cfg))" by simp
  then have "decodable dec c1"
    using dec unfolding decodable_def by blast
  then have "decodable dec ?c2" by (simp add: decodable_def)
  from load_saved_total [OF c2 this] obtain c3 where c3: "load_saved dec i ?c2 = Inr c3" "objs_wf c3" "cfg_frame ?c2 c3" by blast
  have i3: "i < cf_n c3" using c3(3) c2(2) by (simp add: cfg_frame_def)
  obtain a where a: "cf_saved c3 ! i = Some a" using load_saved_ok [OF c3(1)] by blast
  with c3(2) i3 have a': "a < length (cf_pers c3)" "i < length (cf_rafts c3)" "i < length (cf_saved c3)" by (auto simp: objs_wf_def)
  let ?c4 = "c3\<lparr>cf_raftobjs := cf_raftobjs c3 @ [Make ?ns i a (cf_pers c3 ! a)], cf_rafts := (cf_rafts c3)[i := Some (length (cf_raftobjs c3))]\<rparr>"
  have c4: "make_raft i ?ns c3 = Inr ?c4" using a a' by (simp add: make_raft_def get_at_in set_at_def)
  obtain rn5 where c5: "serve meths i ?c4 = Inr (?c4\<lparr>cf_net := rn5\<rparr>)" "rn_ends rn5 = rn_ends (cf_net c3)"
    by (simp add: serve_def add_service_def new_server_def AddServer_def get_at_def Let_def)
  let ?c5 = "?c4\<lparr>cf_net := rn5\<rparr>"
  have st: "start1 rnd dec meths i cfg = Inr ?c5"
    using c1(1) ns len i rn c3(1) c4 c5(1) fr(1) c1(2)
    by (simp add: start1_def set_at_def Let_def objs_wf_def cfg_wf_def)
  have "objs_wf ?c5"
    using c3(2) i3 a'(1) by (auto simp: objs_wf_def nth_list_update nth_append less_Suc_eq split: if_splits)
  moreover have "conn_inv ?c5" using start1_inv(1) [OF _ i st] wf by (simp add: cfg_wf_def)
  ultimately have "cfg_wf ?c5" by (simp add: cfg_wf_def)
  moreover have "contents ` set (cf_pers ?c5) \<subseteq> insert ([], []) (contents ` set (cf_pers cfg))"
    using c1(3) c3(3) by (simp add: cfg_frame_def) blast
  ultimately show ?thesis
    using st c1(3) c3(3) c5(2) ends by (intro exI [of _ ?c5]) (simp add: cfg_frame_def)
qed

lemma fresh_names_set: "set (fresh_names rnd cfg) = nth_name rnd ` {cf_rand cfg..<cf_rand cfg + cf_n cfg}"
proof -
  have "(\<lambda>j. nth_name rnd (cf_rand cfg + j)) ` {0..<cf_n cfg} = nth_name rnd ` (\<lambda>j. cf_rand cfg + j) ` {0..<cf_n cfg}"
    by (simp only: image_image)
  moreover have "(\<lambda>j. cf_rand cfg + j) ` {0..<cf_n cfg} = {cf_rand cfg..<cf_rand cfg + cf_n cfg}"
    by (simp add: image_add_atLeastLessThan add.commute)
  ultimately show ?thesis by (simp add: fresh_names_def)
qed

lemma fresh_names_new:
  assumes "inj_on (nth_name rnd) {..<m}" "cf_rand cfg + cf_n cfg \<le> m" "rn_ends (cf_net cfg) = nth_name rnd ` {..<cf_rand cfg}"
  shows "distinct (fresh_names rnd cfg)" "set (fresh_names rnd cfg) \<inter> rn_ends (cf_net cfg) = {}"
proof -
  have "inj_on (\<lambda>j. nth_name rnd (cf_rand cfg + j)) {0..<cf_n cfg}"
  proof (rule inj_onI)
    fix x y
    assume xy: "x \<in> {0..<cf_n cfg}" "y \<in> {0..<cf_n cfg}" "nth_name rnd (cf_rand cfg + x) = nth_name rnd (cf_rand cfg + y)"
    then have "cf_rand cfg + x = cf_rand cfg + y"
      using assms(2) by (intro inj_onD [OF assms(1)]) auto
    then show "x = y" by simp
  qed
  then show "distinct (fresh_names rnd cfg)" by (simp add: fresh_names_def distinct_map)
  have "nth_name rnd k \<noteq> nth_name rnd k'" if "cf_rand cfg \<le> k" "k < cf_rand cfg + cf_n cfg" "k' < cf_rand cfg" for k k'
    using inj_onD [OF assms(1), of k k'] that assms(2) by auto
  then show "set (fresh_names rnd cfg) \<inter> rn_ends (cf_net cfg) = {}"
    unfolding fresh_names_set assms(3) by fastforce
qed

lemma start1_saved:
  assumes "start1 rnd dec meths i cfg = Inr cfg'"
  shows "cf_saved cfg' ! i \<noteq> None" "j \<noteq> i \<Longrightarrow> cf_saved cfg' ! j = cf_saved cfg ! j"
proof -
  obtain c1 c2 c3 where c: "crash1 i cfg = Inr c1" "load_saved dec i c2 = Inr c3" "keeps i c1 c2" "cf_saved cfg' = cf_saved c3"
    using start1_stages [OF assms] by metis
  note L = load_saved_ok [OF c(2)]
  show "cf_saved cfg' ! i \<noteq> None" using L c(4) by simp
  have "keeps i cfg c3" using keeps_trans [OF keeps_crash1 [OF c(1)] keeps_trans [OF c(3)]] L by blast
  then show "j \<noteq> i \<Longrightarrow> cf_saved cfg' ! j = cf_saved cfg ! j" using c(4) by (simp add: keeps_def)
qed

text \<open>\<open>started rnd n k cfg\<close>: the first \<open>k\<close> of \<open>n\<close> peers have been started, nothing is saved yet.\<close>

definition started :: "(nat \<Rightarrow> nat \<Rightarrow> uint8) \<Rightarrow> nat \<Rightarrow> nat \<Rightarrow> ('c, 'w) config \<Rightarrow> bool" where
  "started rnd n k cfg \<longleftrightarrow>
     cfg_wf cfg \<and> cf_n cfg = n \<and> cf_rand cfg = k * n \<and> rn_ends (cf_net cfg) = nth_name rnd ` {..<k * n} \<and>
     contents ` set (cf_pers cfg) \<subseteq> {([], [])} \<and> (\<forall>i < k. cf_saved cfg ! i \<noteq> None \<and> cf_endnames cfg ! i \<noteq> None)"

lemma started_next:
  assumes inj: "inj_on (nth_name rnd) {..<n * n}" and k: "k < n" and c: "started rnd n k c"
  shows "\<exists>c'. start1 rnd dec meths k (c\<lparr>cf_logs := (cf_logs c)[k := Map.empty]\<rparr>) = Inr c' \<and> started rnd n (Suc k) c'"
proof -
  note S = c [unfolded started_def]
  let ?c = "c\<lparr>cf_logs := (cf_logs c)[k := Map.empty]\<rparr>"
  have "conn_inv ?c" using S same_ends_inv [OF same_ends_upd(3) [of c "(cf_logs c)[k := Map.empty]"]] by (simp add: cfg_wf_def)
  then have wf: "cfg_wf ?c" using S by (simp add: cfg_wf_def objs_wf_def)
  have "Suc k * n \<le> n * n" using k by (intro mult_le_mono1) simp
  then have le: "cf_rand ?c + cf_n ?c \<le> n * n" using S by simp
  have ends: "rn_ends (cf_net ?c) = nth_name rnd ` {..<cf_rand ?c}" using S by simp
  note names = fresh_names_new [OF inj le ends]
  have dec: "decodable dec ?c" using S by (auto simp: decodable_def)
  have kn: "k < cf_n ?c" using k S by simp
  from start1_total [OF wf kn dec names, of meths] obtain c' where c': "start1 rnd dec meths k ?c = Inr c'" "cfg_wf c'"
    "cf_n c' = n" "cf_rand c' = Suc k * n" "rn_ends (cf_net c') = nth_name rnd ` {..<k * n} \<union> set (fresh_names rnd ?c)"
    "contents ` set (cf_pers c') \<subseteq> insert ([], []) (contents ` set (cf_pers c))"
    using S by auto
  have "{..<Suc k * n} = {..<k * n} \<union> {k * n..<k * n + n}" by auto
  then have "nth_name rnd ` {..<Suc k * n} = rn_ends (cf_net c')"
    using S c'(5) by (simp add: fresh_names_set image_Un)
  moreover have "\<forall>i < Suc k. cf_saved c' ! i \<noteq> None"
    using start1_saved [OF c'(1)] S by (simp add: less_Suc_eq)
  moreover have "\<forall>i < Suc k. cf_endnames c' ! i \<noteq> None"
    using start1_inv(4) [OF _ kn c'(1)] wf S k by (simp add: cfg_wf_def less_Suc_eq)
  moreover have "contents ` set (cf_pers c') \<subseteq> {([], [])}" using c'(6) S by blast
  ultimately show ?thesis using c'(1-4) by (intro exI [of _ c']) (simp add: started_def)
qed

lemma connect_next:
  assumes k: "k < n" and c: "started rnd n n c" "\<forall>i < k. cf_connected c ! i"
  shows "\<exists>c'. connect k c = Inr c' \<and> started rnd n n c' \<and> (\<forall>i < Suc k. cf_connected c' ! i)"
proof -
  from c k have inv: "conn_inv c" "k < cf_n c" "cf_endnames c ! k \<noteq> None" by (auto simp: started_def cfg_wf_def)
  let ?conn = "(cf_connected c)[k := True]"
  let ?rn = "set_enabled (ends_to c k ((!) ?conn) \<union> ends_from c k ((!) ?conn)) True (cf_net c)"
  have len: "length (cf_connected c) = n" using conn_invD(1) [OF inv(1)] c(1) by (simp add: started_def)
  have "connect k c = Inr (c\<lparr>cf_connected := ?conn, cf_net := ?rn\<rparr>)"
  proof (rule connect_ok)
    show "k < length (cf_connected c)" "length (cf_connected c) = cf_n c" using len k c(1) by (simp_all add: started_def)
    show "has_end c k j \<and> has_end c j k" if "j < cf_n c" "?conn ! j" for j
      using that inv c(1) conn_invD(8) [OF inv(1)] by (simp add: started_def)
  qed
  moreover from this connect_inv [OF inv] have "conn_inv (c\<lparr>cf_connected := ?conn, cf_net := ?rn\<rparr>)" by auto
  then have "started rnd n n (c\<lparr>cf_connected := ?conn, cf_net := ?rn\<rparr>)"
    using c(1) by (simp add: started_def cfg_wf_def objs_wf_def)
  moreover have "\<forall>i < Suc k. ?conn ! i" using c(2) k len by (auto simp: less_Suc_eq nth_list_update)
  ultimately show ?thesis by simp
qed

lemma make_config_total:
  assumes "inj_on (nth_name rnd) {..<n * n}"
  shows "\<exists>cfg. make_config rnd dec meths w n unreliable now = Inr (cfg :: ('c, 'w) config) \<and>
    started rnd n n cfg \<and> (\<forall>i < n. cf_connected cfg ! i)"
proof -
  define cn :: "('c, 'w) config" where "cn = setunreliable unreliable (new_config w n now 0)"
  let ?c0 = "cn\<lparr>cf_net := LongDelays True (cf_net cn)\<rparr>"
  let ?f = "\<lambda>i cfg. result_bind (set_at (cf_logs cfg) i Map.empty) (\<lambda>logs. start1 rnd dec meths i (cfg\<lparr>cf_logs := logs\<rparr>))"
  have "\<exists>c. for_each ?f [0..<n] ?c0 = Inr c \<and> started rnd n n c"
  proof (rule for_each_upt_total [where P = "started rnd n"])
    have "conn_inv ?c0" unfolding cn_def by (rule new_config_inv)
    then show "started rnd n 0 ?c0"
      by (simp add: started_def cfg_wf_def objs_wf_def cn_def setunreliable_def new_config_def LongDelays_def Reliable_def MakeNetwork_def)
  next
    fix k and c :: "('c, 'w) config"
    assume k: "k < n" "started rnd n k c"
    then have "k < length (cf_logs c)" by (simp add: started_def cfg_wf_def objs_wf_def)
    with started_next [OF assms k, of dec meths] show "\<exists>c'. ?f k c = Inr c' \<and> started rnd n (Suc k) c'"
      by (simp add: set_at_def)
  qed
  then obtain c1 where c1: "for_each ?f [0..<n] ?c0 = Inr c1" "started rnd n n c1" by blast
  have "\<exists>c. for_each connect [0..<n] c1 = Inr c \<and> started rnd n n c \<and> (\<forall>i < n. cf_connected c ! i)"
  proof (rule for_each_upt_total [where P = "\<lambda>k c. started rnd n n c \<and> (\<forall>i < k. cf_connected c ! i)"])
    show "started rnd n n c1 \<and> (\<forall>i < 0. cf_connected c1 ! i)" using c1(2) by simp
  qed (blast intro: connect_next)
  with c1(1) show ?thesis by (simp add: make_config_def Let_def flip: cn_def)
qed

section \<open>Properties\<close>

text \<open>C19. However the messages of the peers interleave, as long as the harness does not stop no two peers have
  applied different commands at an index and no peer has skipped an entry; and the harness stops at a
  message exactly when it would break this.\<close>

theorem applied_entries_agree:
  assumes "\<forall>lg \<in> set (cf_logs cfg0). lg = Map.empty" "for_each (\<lambda>(i, m). applier_step i m) msgs cfg0 = Inr cfg"
  shows "logs_agree (cf_logs cfg) \<and> (\<forall>lg \<in> set (cf_logs cfg). no_gaps lg) \<and>
    (i < length (cf_logs cfg) \<and> CommandValid m \<longrightarrow>
       (applier_step i m cfg = Inl Fatal \<longleftrightarrow>
          conflict (cf_logs cfg) m \<or> (CommandIndex m > 1 \<and> (cf_logs cfg ! i) (CommandIndex m - 1) = None)))"
proof -
  have "logs_ok cfg0"
    using assms(1) by (auto simp: logs_ok_def logs_agree_def no_gaps_def all_set_conv_all_nth)
  with assms(2) have "logs_ok cfg"
    by (rule for_each_inv) (auto intro: applier_step_logs_ok)
  then show ?thesis
    using applier_step_Fatal by (auto simp: logs_ok_def)
qed

definition ex_cfg :: "(nat, unit) config" where
  "ex_cfg = new_config () 2 0 0"

definition ex_msg :: "nat ApplyMsg" where
  "ex_msg = \<lparr>CommandValid = True, Command = Some 7, CommandIndex = 1, SnapshotValid = False, Snapshot = None,
     SnapshotTerm = 0, SnapshotIndex = 0\<rparr>"

theorem applied_entries_agree_witness:
  "\<exists>cfg. for_each (\<lambda>(i, m). applier_step i m) [(0, ex_msg), (1, ex_msg)] ex_cfg = Inr cfg \<and> logs_agree (cf_logs cfg)"
proof -
  have "\<exists>cfg. for_each (\<lambda>(i, m). applier_step i m) [(0, ex_msg), (1, ex_msg)] ex_cfg = Inr cfg"
    by (simp add: ex_cfg_def ex_msg_def new_config_def applier_step_def checkLogs_def checkLogs_err_def get_at_def Let_def
        numeral_2_eq_2)
  moreover have "\<forall>lg \<in> set (cf_logs ex_cfg). lg = Map.empty" by (simp add: ex_cfg_def new_config_def)
  ultimately show ?thesis using applied_entries_agree by blast
qed

text \<open>C20. After any sequence of connecting, disconnecting, crashing and restarting peers, the end from peer
  \<open>i\<close> to peer \<open>j\<close> leads to \<open>j\<close> and is enabled exactly when both are connected.\<close>

theorem ends_follow_connections:
  assumes "make_config rnd dec meths w n unreliable now = Inr cfg0"
    "for_each (harness_step rnd dec meths) ops cfg0 = Inr cfg" "i < n" "j < n"
  shows "\<exists>ns. cf_endnames cfg ! i = Some ns \<and>
    (rn_enabled (cf_net cfg) (ns ! j) \<longleftrightarrow> cf_connected cfg ! i \<and> cf_connected cfg ! j) \<and>
    rn_connections (cf_net cfg) (ns ! j) = Some j"
proof -
  from make_config_inv [OF assms(1)] have c0: "all_started cfg0 \<and> cf_n cfg0 = n" by simp
  from assms(2) c0 have c: "all_started cfg \<and> cf_n cfg = n"
    by (rule for_each_inv) (use harness_step_inv in blast)
  then have inv: "conn_inv cfg" and ns: "cf_endnames cfg ! i \<noteq> None"
    using assms(3) by (auto simp: all_started_def)
  obtain names where names: "cf_endnames cfg ! i = Some names" using ns by auto
  have "has_end cfg i j" using conn_invD(8) [OF inv] c assms(3,4) ns by simp
  from conn_invD(6,7) [OF inv this] names show ?thesis by (simp add: end_name_def)
qed

lemma ex_starts:
  obtains cfg :: "(nat, unit) config" where "make_config ex_rnd (\<lambda>_. None) (\<lambda>_. []) () 1 False 0 = Inr cfg"
    "started ex_rnd 1 1 cfg" "cf_connected cfg ! 0"
proof -
  have "inj_on (nth_name ex_rnd) {..<1 * 1}" by (simp add: inj_on_def)
  from make_config_total [OF this, where dec = "\<lambda>_. None" and meths = "\<lambda>_. []" and w = "()" and unreliable = False and now = 0]
  obtain cfg :: "(nat, unit) config" where "make_config ex_rnd (\<lambda>_. None) (\<lambda>_. []) () 1 False 0 = Inr cfg"
    "started ex_rnd 1 1 cfg" "\<forall>i < 1. cf_connected cfg ! i" by blast
  with that show thesis by simp
qed

theorem ends_follow_connections_witness:
  "\<exists>cfg0 cfg ns. make_config ex_rnd (\<lambda>_. None) (\<lambda>_. []) () 1 False 0 = Inr (cfg0 :: (nat, unit) config) \<and>
    for_each (harness_step ex_rnd (\<lambda>_. None) (\<lambda>_. [])) [H_disconnect 0] cfg0 = Inr cfg \<and>
    cf_endnames cfg ! 0 = Some ns \<and> \<not> rn_enabled (cf_net cfg) (ns ! 0)"
proof -
  obtain cfg0 :: "(nat, unit) config" where c0: "make_config ex_rnd (\<lambda>_. None) (\<lambda>_. []) () 1 False 0 = Inr cfg0"
    "started ex_rnd 1 1 cfg0" by (rule ex_starts)
  then have inv: "conn_inv cfg0" "0 < cf_n cfg0" by (auto simp: started_def cfg_wf_def)
  from disconnect_inv [OF this] obtain rn where
    d: "disconnect 0 cfg0 = Inr (cfg0\<lparr>cf_connected := (cf_connected cfg0)[0 := False], cf_net := rn\<rparr>)" by blast
  let ?c = "cfg0\<lparr>cf_connected := (cf_connected cfg0)[0 := False], cf_net := rn\<rparr>"
  have run: "for_each (harness_step ex_rnd (\<lambda>_. None) (\<lambda>_. [])) [H_disconnect 0] cfg0 = Inr ?c" using d by simp
  have "\<not> cf_connected ?c ! 0" using conn_invD(1) [OF inv(1)] inv(2) by simp
  with ends_follow_connections [OF c0(1) run, of 0 0] c0(1) run show ?thesis by auto
qed

text \<open>C21. A restarted peer gets a persister of its own with exactly the state that was saved before; no other
  persister changes, the old instance is killed, and every older instance keeps pointing to an older
  persister, so that it cannot overwrite the state of the new one.\<close>

theorem restart_keeps_saved_state:
  assumes "cfg_wf cfg" "i < cf_n cfg" "start1 rnd dec meths i cfg = Inr cfg'" "cf_saved cfg ! i = Some a"
  shows "\<exists>a' r. cf_saved cfg' ! i = Some a' \<and> contents (cf_pers cfg' ! a') = contents (cf_pers cfg ! a) \<and>
    cf_rafts cfg' ! i = Some r \<and> rf_persister (cf_raftobjs cfg' ! r) = a' \<and> \<not> killed (cf_raftobjs cfg' ! r) \<and>
    (\<forall>k < length (cf_pers cfg). cf_pers cfg' ! k = cf_pers cfg ! k) \<and>
    (\<forall>r0 < length (cf_raftobjs cfg). rf_persister (cf_raftobjs cfg' ! r0) \<noteq> a' \<and>
       (cf_rafts cfg ! i = Some r0 \<longrightarrow> killed (cf_raftobjs cfg' ! r0)))"
proof -
  have a: "a < length (cf_pers cfg)" using assms by (simp add: cfg_wf_def objs_wf_def)
  obtain a' r where s: "cf_saved cfg' ! i = Some a'" "length (cf_pers cfg) \<le> a'"
    "contents (cf_pers cfg' ! a') = contents (cf_pers cfg ! a)" "cf_rafts cfg' ! i = Some r"
    "rf_persister (cf_raftobjs cfg' ! r) = a'" "\<not> killed (cf_raftobjs cfg' ! r)" "peers_keep cfg cfg'"
    "\<forall>k < length (cf_pers cfg). cf_pers cfg' ! k = cf_pers cfg ! k"
    "\<forall>r0 < length (cf_raftobjs cfg). cf_rafts cfg ! i = Some r0 \<longrightarrow> killed (cf_raftobjs cfg' ! r0)"
    using start1_state [OF assms(3,4) a] by blast
  have "rf_persister (cf_raftobjs cfg' ! r0) \<noteq> a'" if "r0 < length (cf_raftobjs cfg)" for r0
    using s(2,7) assms(1) that by (auto simp: peers_keep_def cfg_wf_def objs_wf_def)
  with s show ?thesis by blast
qed

lemma ex_restart:
  assumes "started ex_rnd 1 1 (cfg :: (nat, unit) config)"
  shows "\<exists>cfg'. start1 ex_rnd (\<lambda>_. None) (\<lambda>_. []) 0 cfg = Inr cfg'"
proof -
  have c: "cfg_wf cfg" "cf_n cfg = 1" "cf_rand cfg = 1" "rn_ends (cf_net cfg) = nth_name ex_rnd ` {..<1}"
    "contents ` set (cf_pers cfg) \<subseteq> {([], [])}" using assms by (simp_all add: started_def)
  have ne: "nth_name ex_rnd 1 \<noteq> nth_name ex_rnd 0" using inj_onD [OF ex_rnd_inj, of 1 0] by auto
  have fn: "fresh_names ex_rnd cfg = [nth_name ex_rnd 1]" using c(2,3) by (simp add: fresh_names_def)
  then have "distinct (fresh_names ex_rnd cfg)" "set (fresh_names ex_rnd cfg) \<inter> rn_ends (cf_net cfg) = {}"
    using c(4) ne by (simp_all add: lessThan_Suc)
  moreover have "decodable (\<lambda>_. None) cfg" using c(5) by (auto simp: decodable_def)
  moreover have "0 < cf_n cfg" using c(2) by simp
  ultimately show ?thesis using start1_total [OF c(1)] by blast
qed

theorem restart_keeps_saved_state_witness:
  "\<exists>cfg cfg' a a' r. make_config ex_rnd (\<lambda>_. None) (\<lambda>_. []) () 1 False 0 = Inr (cfg :: (nat, unit) config) \<and>
    start1 ex_rnd (\<lambda>_. None) (\<lambda>_. []) 0 cfg = Inr cfg' \<and> cf_saved cfg ! 0 = Some a \<and> cf_saved cfg' ! 0 = Some a' \<and>
    contents (cf_pers cfg' ! a') = contents (cf_pers cfg ! a) \<and> cf_rafts cfg' ! 0 = Some r \<and> rf_persister (cf_raftobjs cfg' ! r) = a'"
proof -
  obtain cfg :: "(nat, unit) config" where c: "make_config ex_rnd (\<lambda>_. None) (\<lambda>_. []) () 1 False 0 = Inr cfg"
    "started ex_rnd 1 1 cfg" by (rule ex_starts)
  from ex_restart [OF c(2)] obtain cfg' where c': "start1 ex_rnd (\<lambda>_. None) (\<lambda>_. []) 0 cfg = Inr cfg'" by blast
  from c(2) obtain a where a: "cfg_wf cfg" "0 < cf_n cfg" "cf_saved cfg ! 0 = Some a" by (auto simp: started_def)
  from restart_keeps_saved_state [OF a(1,2) c' a(3)] c(1) c' a(3) show ?thesis by blast
qed

text \<open>C22. With distinct random names the harness starts: \<open>make_config\<close> neither panics nor stops, and all its
  peers are running, connected, and have an empty persister.\<close>

theorem make_config_starts:
  assumes "inj_on (\<lambda>k. randstring (rnd k) 20) {..<n * n}"
  shows "\<exists>cfg. make_config rnd dec meths w n unreliable now = Inr cfg \<and> cf_n cfg = n \<and>
    (\<forall>i < n. cf_connected cfg ! i \<and> (\<exists>a. cf_saved cfg ! i = Some a \<and> contents (cf_pers cfg ! a) = ([], [])))"
proof -
  from make_config_total [OF assms, of dec meths w unreliable now]
  obtain cfg where c: "make_config rnd dec meths w n unreliable now = Inr cfg" "started rnd n n cfg" "\<forall>i < n. cf_connected cfg ! i"
    by blast
  have "\<exists>a. cf_saved cfg ! i = Some a \<and> contents (cf_pers cfg ! a) = ([], [])" if i: "i < n" for i
  proof -
    obtain a where a: "cf_saved cfg ! i = Some a" using c(2) i by (auto simp: started_def)
    then have "a < length (cf_pers cfg)" using c(2) i by (simp add: started_def cfg_wf_def objs_wf_def)
    then have "contents (cf_pers cfg ! a) \<in> {([], [])}" using c(2) unfolding started_def by (meson image_eqI nth_mem subsetD)
    with a show ?thesis by simp
  qed
  with c show ?thesis by (auto simp: started_def)
qed

theorem make_config_starts_witness:
  "\<exists>cfg. make_config ex_rnd (\<lambda>_. None) (\<lambda>_. []) () 1 False 0 = Inr (cfg :: (nat, unit) config) \<and> cf_connected cfg ! 0"
proof -
  have "inj_on (\<lambda>k. randstring (ex_rnd k) 20) {..<1 * 1}" by (simp add: inj_on_def)
  from make_config_starts [OF this, where dec = "\<lambda>_. None" and meths = "\<lambda>_. []" and w = "()" and unreliable = False and now = 0]
  show ?thesis by (metis less_one)
qed

text \<open>C23. The server that \<open>checkOneLeader\<close> returns was seen as the only leader of its term, no server led a later
  term, and no term had two leaders.\<close>

theorem checkOneLeader_sound:
  assumes "\<And>xs. set (perm xs) = set xs" "cf_n cfg \<le> length (cf_connected cfg)" "checkOneLeader perm cfg st = Inr i"
  shows "\<exists>it t. it < 10 \<and> i < cf_n cfg \<and> leads (cf_connected cfg) (st it) t i \<and>
    (\<forall>j t'. j < cf_n cfg \<longrightarrow> leads (cf_connected cfg) (st it) t' j \<longrightarrow>
       t' \<le> t \<and> (\<forall>j' < cf_n cfg. leads (cf_connected cfg) (st it) t' j' \<longrightarrow> j' = j))"
  using checkOneLeader_loop_ok [OF assms(1,2), where iters = 0 and k = 10] assms(3)
  unfolding checkOneLeader_def by fastforce

theorem checkOneLeader_sound_witness:
  "\<exists>t. leads [True, True] (\<lambda>i. (if i = 0 then 3 else 5, True)) t 1 \<and> t \<ge> 3"
proof -
  let ?cfg = "ex_cfg\<lparr>cf_connected := [True, True]\<rparr>" and ?st = "\<lambda>_ i. (if i = 0 then 3 else 5, True)"
  have "checkOneLeader (\<lambda>xs. xs) ?cfg ?st = Inr 1"
    by (simp add: checkOneLeader_def ex_cfg_def new_config_def get_at_def add_leader_def upt_rec eval_nat_numeral)
  from checkOneLeader_sound [OF _ _ this] show ?thesis
    by (force simp: ex_cfg_def new_config_def leads_def)
qed

text \<open>C24. An index that \<open>one\<close> returns while the test runs is one at which, at some moment, at least the
  expected number of servers had applied the submitted command; \<open>one\<close> always ends (it is a total function
  of the clock, which every \<open>Sleep\<close> advances).\<close>

theorem one_reaches_agreement:
  assumes "one cfg_at start lag cmd expectedServers retry t0 starts t0 = Inr index" "\<And>t. \<not> checkFinished (cfg_at t)"
  shows "\<exists>t. expectedServers \<le> length (filter (\<lambda>i. (cf_logs (cfg_at t) ! i) index = Some cmd) [0..<length (cf_rafts (cfg_at t))]) \<and>
    (\<exists>i < length (cf_rafts (cfg_at t)). (cf_logs (cfg_at t) ! i) index = Some cmd)"
proof -
  from one_committed [OF assms(1)] assms(2) obtain t nd where
    n: "nCommitted index (cfg_at t) = Inr (nd, cmd)" "0 < nd" "expectedServers \<le> nd" by blast
  from nCommitted_count [OF n(1)] n(2) have "filter (\<lambda>i. (cf_logs (cfg_at t) ! i) index = Some cmd) [0..<length (cf_rafts (cfg_at t))] \<noteq> []"
    by auto
  then have "\<exists>i < length (cf_rafts (cfg_at t)). (cf_logs (cfg_at t) ! i) index = Some cmd" by (auto simp: filter_empty_conv)
  with nCommitted_count [OF n(1)] n(3) show ?thesis by blast
qed

definition ex_agreed :: "(nat, unit) config" where
  "ex_agreed = (new_config () 1 0 0)\<lparr>cf_rafts := [Some 0], cf_connected := [True], cf_logs := [[1 \<mapsto> Some 7]]\<rparr>"

theorem one_reaches_agreement_witness:
  "one (\<lambda>_. ex_agreed) (\<lambda>_ _. (1, 1, True)) (\<lambda>_. 0) (Some 7) 1 False 0 0 0 = Inr 1 \<and>
   (\<exists>i < length (cf_rafts ex_agreed). (cf_logs ex_agreed ! i) 1 = Some (Some 7))"
proof -
  have n: "nCommitted 1 ex_agreed = Inr (1, Some 7)"
    by (simp add: nCommitted_def ex_agreed_def new_config_def get_at_def)
  then have w: "one_wait (\<lambda>_. ex_agreed) (\<lambda>_. 0) (Some 7) 1 1 0 0 = Inr (0, True)"
    by (subst one_wait.simps) simp
  have f: "\<not> checkFinished ex_agreed" by (simp add: ex_agreed_def new_config_def checkFinished_def)
  have "try_servers ex_agreed (\<lambda>_. (1, 1, True)) 0 (cf_n ex_agreed) = Inr (0, 1)"
    by (simp add: ex_agreed_def new_config_def get_at_def)
  with w f have o: "one (\<lambda>_. ex_agreed) (\<lambda>_ _. (1, 1, True)) (\<lambda>_. 0) (Some 7) 1 False 0 0 0 = Inr 1"
    by (subst one.simps) simp
  from one_reaches_agreement [OF o f] o show ?thesis by blast
qed







end
