(* ===== verification/KvCluster.thy ===== *)
theory KvCluster
  imports Raft
begin

text \<open>
  The key/value service on Raft (\<open>src/6.5840/src/kvraft\<close>): the clerk and the server outline, and the test
  harness \<open>config.go\<close>, which starts and stops servers, partitions the network and makes clerks. The harness of
  the shard controller is the same code for another server type, so the operations here are polymorphic in
  the record of the harness and take what differs (\<open>rf_of\<close>, \<open>kill\<close>, the constructor of a server) as
  arguments; theory ShardCtrler instantiates them.

  Persisters, peers, servers and clerks are objects at addresses of heaps. \<open>rnd\<close> are the bytes read from
  \<open>crypto/rand\<close>, \<open>intn\<close> the results of \<open>rand.Intn\<close>, \<open>meths\<close> the methods that reflection finds on an object,
  and \<open>getState\<close> what a running peer answers to \<open>GetState\<close> (the outline's own answer is \<^const>\<open>GetState\<close>).
\<close>

section \<open>Ends of the network\<close>

definition new_names :: "(nat \<Rightarrow> nat \<Rightarrow> uint8) \<Rightarrow> nat \<Rightarrow> nat \<Rightarrow> string list" where
  "new_names rnd k n = map (\<lambda>j. randstring (rnd (k + j)) 20) [0..<n]"

text \<open>The ends with the given names, the \<open>j\<close>-th connected to the server \<open>to j\<close>, and enabled if \<open>en\<close> says so.\<close>

definition open_ends ::
  "bool \<Rightarrow> (nat \<Rightarrow> 'n) \<Rightarrow> string list \<Rightarrow> (string, 'n, 'w) Network \<Rightarrow> (string, 'n, 'w) Network result" where
  "open_ends en to names rn =
     for_each (\<lambda>j rn.
         result_bind (get_at names j) (\<lambda>name.
         result_bind (MakeEnd name rn) (\<lambda>rn.
           let rn = Connect name (to j) rn in Inr (if en then Enable name True rn else rn))))
       [0..<length names] rn"

text \<open>\<open>MakeServer\<close>, two \<open>AddService\<close> and \<open>AddServer\<close>.\<close>

definition serve_two ::
  "'n \<Rightarrow> 'w Service \<Rightarrow> 'w Service \<Rightarrow> (string, 'n, 'w) Network \<Rightarrow> (string, 'n, 'w) Network result" where
  "serve_two servername kvsvc rfsvc rn =
     (let a = length (rn_objs rn) in
      result_bind (add_service a kvsvc (new_server rn)) (\<lambda>rn.
      result_bind (add_service a rfsvc rn) (\<lambda>rn.
        Inr (AddServer servername a rn))))"

section \<open>Clerks and servers\<close>

record Clerk =
  ck_servers :: "string list"

definition MakeClerk :: "string list \<Rightarrow> Clerk" where
  "MakeClerk servers = \<lparr>ck_servers = servers\<rparr>"

definition Clerk_Get :: "Clerk \<Rightarrow> string \<Rightarrow> string" where
  "Clerk_Get ck key = ''''"

record KVServer =
  kv_me :: nat
  kv_rf :: nat
  kv_dead :: int
  kv_maxraftstate :: int

definition KVServer_Kill :: "KVServer \<Rightarrow> KVServer" where
  "KVServer_Kill kv = kv\<lparr>kv_dead := 1\<rparr>"

definition KVServer_killed :: "KVServer \<Rightarrow> bool" where
  "KVServer_killed kv \<longleftrightarrow> kv_dead kv = 1"

text \<open>The new server and its peer, which is stored at address \<open>rf\<close>.\<close>

definition StartKVServer :: "string list \<Rightarrow> nat \<Rightarrow> nat \<Rightarrow> Persister \<Rightarrow> int \<Rightarrow> nat \<Rightarrow> KVServer \<times> Raft" where
  "StartKVServer servers me persister ps maxraftstate rf =
     (\<lparr>kv_me = me, kv_rf = rf, kv_dead = 0, kv_maxraftstate = maxraftstate\<rparr>, Make servers me persister ps)"

section \<open>The state of the harness\<close>

record ('s, 'w) cluster =
  cl_net :: "(string, nat, 'w) Network"
  cl_n :: nat
  cl_servers :: "nat option list"
  cl_saved :: "nat option list"
  cl_endnames :: "string list option list"
  cl_clerks :: "nat \<rightharpoonup> string list"
  cl_nextClientId :: int
  cl_start :: nat
  cl_failed :: bool
  cl_pers :: "Persister list"
  cl_raftobjs :: "Raft list"
  cl_srvobjs :: "'s list"
  cl_clerkobjs :: "Clerk list"
  cl_rand :: nat

record 'w kv_config = "(KVServer, 'w) cluster" +
  kc_maxraftstate :: int
  kc_t0 :: nat
  kc_rpcs0 :: int
  kc_ops :: uint32

definition random_handles :: "(nat \<Rightarrow> nat) \<Rightarrow> 'a list \<Rightarrow> 'a list result" where
  "random_handles intn kvh =
     for_each (\<lambda>i sa.
         let j = intn i in
         result_bind (get_at sa i) (\<lambda>x.
         result_bind (get_at sa j) (\<lambda>y. Inr (sa[i := y, j := x]))))
       [0..<length kvh] kvh"

definition cl_checkTimeout :: "nat \<Rightarrow> ('s, 'w, 'z) cluster_scheme \<Rightarrow> ('s, 'w, 'z) cluster_scheme result" where
  "cl_checkTimeout now cfg = (if \<not> cl_failed cfg \<and> now - cl_start cfg > 120 * 1000 then Inl Fatal else Inr cfg)"

text \<open>\<open>kv.Kill()\<close>: the server and its peer.\<close>

definition kill_server ::
  "('s \<Rightarrow> nat) \<Rightarrow> ('s \<Rightarrow> 's) \<Rightarrow> nat \<Rightarrow> ('s, 'w, 'z) cluster_scheme \<Rightarrow> ('s, 'w, 'z) cluster_scheme result" where
  "kill_server rf_of kill a cfg =
     result_bind (get_at (cl_srvobjs cfg) a) (\<lambda>kv.
     result_bind (get_at (cl_raftobjs cfg) (rf_of kv)) (\<lambda>rf.
       Inr (cfg\<lparr>cl_srvobjs := (cl_srvobjs cfg)[a := kill kv],
                cl_raftobjs := (cl_raftobjs cfg)[rf_of kv := Raft_Kill rf]\<rparr>)))"

definition cl_cleanup where
  "cl_cleanup rf_of kill now cfg =
     result_bind (for_each (\<lambda>i cfg.
         result_bind (get_at (cl_servers cfg) i) (\<lambda>kv.
           case kv of None \<Rightarrow> Inr cfg | Some a \<Rightarrow> kill_server rf_of kill a cfg))
       [0..<length (cl_servers cfg)] cfg) (\<lambda>cfg.
     result_bind (Cleanup (cl_net cfg)) (\<lambda>rn.
       cl_checkTimeout now (cfg\<lparr>cl_net := rn\<rparr>)))"

definition max_size :: "(Persister \<Rightarrow> nat) \<Rightarrow> ('s, 'w, 'z) cluster_scheme \<Rightarrow> nat result" where
  "max_size size_of cfg =
     for_each (\<lambda>i sz.
         result_bind (get_at (cl_saved cfg) i) (\<lambda>sv.
         result_bind (deref sv) (\<lambda>a.
         result_bind (get_at (cl_pers cfg) a) (\<lambda>ps.
           let n = size_of ps in Inr (if n > sz then n else sz)))))
       [0..<cl_n cfg] 0"

definition cl_LogSize :: "('s, 'w, 'z) cluster_scheme \<Rightarrow> nat result" where
  "cl_LogSize cfg = max_size RaftStateSize cfg"

definition cl_SnapshotSize :: "('s, 'w, 'z) cluster_scheme \<Rightarrow> nat result" where
  "cl_SnapshotSize cfg = max_size SnapshotSize cfg"

section \<open>Connections\<close>

definition set_end ::
  "bool \<Rightarrow> nat \<Rightarrow> nat \<Rightarrow> ('s, 'w, 'z) cluster_scheme \<Rightarrow> ('s, 'w, 'z) cluster_scheme result" where
  "set_end v a b cfg =
     result_bind (get_at (cl_endnames cfg) a) (\<lambda>names.
     result_bind (deref names) (\<lambda>names.
     result_bind (get_at names b) (\<lambda>endname.
       Inr (cfg\<lparr>cl_net := Enable endname v (cl_net cfg)\<rparr>))))"

definition connectUnlocked ::
  "nat \<Rightarrow> nat list \<Rightarrow> ('s, 'w, 'z) cluster_scheme \<Rightarrow> ('s, 'w, 'z) cluster_scheme result" where
  "connectUnlocked i to cfg =
     result_bind (for_each (\<lambda>j cfg. set_end True i (to ! j) cfg) [0..<length to] cfg) (\<lambda>cfg.
     for_each (\<lambda>j cfg. set_end True (to ! j) i cfg) [0..<length to] cfg)"

text \<open>The guard of the second loop looks at \<open>endnames[j]\<close>, not at \<open>endnames[from[j]]\<close>.\<close>

definition disconnectUnlocked ::
  "nat \<Rightarrow> nat list \<Rightarrow> ('s, 'w, 'z) cluster_scheme \<Rightarrow> ('s, 'w, 'z) cluster_scheme result" where
  "disconnectUnlocked i from cfg =
     result_bind (for_each (\<lambda>j cfg.
         result_bind (get_at (cl_endnames cfg) i) (\<lambda>e.
           if e \<noteq> None then set_end False i (from ! j) cfg else Inr cfg)) [0..<length from] cfg) (\<lambda>cfg.
     for_each (\<lambda>j cfg.
         result_bind (get_at (cl_endnames cfg) j) (\<lambda>e.
           if e \<noteq> None then set_end False (from ! j) i cfg else Inr cfg)) [0..<length from] cfg)"

definition connect_to ::
  "nat \<Rightarrow> nat list \<Rightarrow> ('s, 'w, 'z) cluster_scheme \<Rightarrow> ('s, 'w, 'z) cluster_scheme result" where
  "connect_to i to cfg = connectUnlocked i to cfg"

definition disconnect_from ::
  "nat \<Rightarrow> nat list \<Rightarrow> ('s, 'w, 'z) cluster_scheme \<Rightarrow> ('s, 'w, 'z) cluster_scheme result" where
  "disconnect_from i from cfg = disconnectUnlocked i from cfg"

definition All :: "('s, 'w, 'z) cluster_scheme \<Rightarrow> nat list" where
  "All cfg = fold (\<lambda>i all. all[i := i]) [0..<cl_n cfg] (replicate (cl_n cfg) 0)"

definition ConnectAll :: "('s, 'w, 'z) cluster_scheme \<Rightarrow> ('s, 'w, 'z) cluster_scheme result" where
  "ConnectAll cfg = for_each (\<lambda>i cfg. connectUnlocked i (All cfg) cfg) [0..<cl_n cfg] cfg"

definition partition_servers ::
  "nat list \<Rightarrow> nat list \<Rightarrow> ('s, 'w, 'z) cluster_scheme \<Rightarrow> ('s, 'w, 'z) cluster_scheme result" where
  "partition_servers p1 p2 cfg =
     result_bind (for_each (\<lambda>i cfg.
         result_bind (disconnectUnlocked i p2 cfg) (connectUnlocked i p1)) p1 cfg) (\<lambda>cfg.
     for_each (\<lambda>i cfg.
         result_bind (disconnectUnlocked i p1 cfg) (connectUnlocked i p2)) p2 cfg)"

section \<open>Clerks of the harness\<close>

text \<open>A clerk that is not in the map has the nil slice.\<close>

definition names_of :: "nat \<Rightarrow> ('s, 'w, 'z) cluster_scheme \<Rightarrow> string list" where
  "names_of ck cfg = (case cl_clerks cfg ck of None \<Rightarrow> [] | Some v \<Rightarrow> v)"

definition set_client ::
  "bool \<Rightarrow> nat \<Rightarrow> nat list \<Rightarrow> ('s, 'w, 'z) cluster_scheme \<Rightarrow> ('s, 'w, 'z) cluster_scheme result" where
  "set_client v ck to cfg =
     (let endnames = names_of ck cfg in
      for_each (\<lambda>t cfg.
          result_bind (get_at endnames t) (\<lambda>s. Inr (cfg\<lparr>cl_net := Enable s v (cl_net cfg)\<rparr>))) to cfg)"

definition ConnectClientUnlocked ::
  "nat \<Rightarrow> nat list \<Rightarrow> ('s, 'w, 'z) cluster_scheme \<Rightarrow> ('s, 'w, 'z) cluster_scheme result" where
  "ConnectClientUnlocked ck to cfg = set_client True ck to cfg"

definition ConnectClient ::
  "nat \<Rightarrow> nat list \<Rightarrow> ('s, 'w, 'z) cluster_scheme \<Rightarrow> ('s, 'w, 'z) cluster_scheme result" where
  "ConnectClient ck to cfg = ConnectClientUnlocked ck to cfg"

definition DisconnectClientUnlocked ::
  "nat \<Rightarrow> nat list \<Rightarrow> ('s, 'w, 'z) cluster_scheme \<Rightarrow> ('s, 'w, 'z) cluster_scheme result" where
  "DisconnectClientUnlocked ck from cfg = set_client False ck from cfg"

definition DisconnectClient ::
  "nat \<Rightarrow> nat list \<Rightarrow> ('s, 'w, 'z) cluster_scheme \<Rightarrow> ('s, 'w, 'z) cluster_scheme result" where
  "DisconnectClient ck from cfg = DisconnectClientUnlocked ck from cfg"

definition makeClient where
  "makeClient rnd intn to cfg =
     (let endnames = new_names rnd (cl_rand cfg) (cl_n cfg) in
      result_bind (open_ends False (\<lambda>j. j) endnames (cl_net cfg)) (\<lambda>rn.
      result_bind (random_handles intn endnames) (\<lambda>ends.
        let ck = length (cl_clerkobjs cfg);
            cfg = cfg\<lparr>cl_net := rn, cl_rand := cl_rand cfg + cl_n cfg,
                      cl_clerkobjs := cl_clerkobjs cfg @ [MakeClerk ends],
                      cl_clerks := (cl_clerks cfg)(ck \<mapsto> endnames),
                      cl_nextClientId := cl_nextClientId cfg + 1\<rparr> in
        result_bind (ConnectClientUnlocked ck to cfg) (\<lambda>cfg. Inr (ck, cfg)))))"

text \<open>The names that \<open>os.Remove\<close> gets, and the harness without the clerk.\<close>

definition deleteClient ::
  "nat \<Rightarrow> ('s, 'w, 'z) cluster_scheme \<Rightarrow> string list \<times> ('s, 'w, 'z) cluster_scheme" where
  "deleteClient ck cfg = (names_of ck cfg, cfg\<lparr>cl_clerks := (cl_clerks cfg)(ck := None)\<rparr>)"

section \<open>Starting and stopping servers\<close>

definition copy_persister ::
  "nat \<Rightarrow> ('s, 'w, 'z) cluster_scheme \<Rightarrow> ('s, 'w, 'z) cluster_scheme result" where
  "copy_persister i cfg =
     result_bind (get_at (cl_saved cfg) i) (\<lambda>sv.
       case sv of
         None \<Rightarrow> Inr cfg
       | Some a \<Rightarrow> result_bind (get_at (cl_pers cfg) a) (\<lambda>ps.
           Inr (cfg\<lparr>cl_pers := cl_pers cfg @ [Persister_Copy ps],
                    cl_saved := (cl_saved cfg)[i := Some (length (cl_pers cfg))]\<rparr>)))"

definition ShutdownServer where
  "ShutdownServer rf_of kill i cfg =
     result_bind (disconnectUnlocked i (All cfg) cfg) (\<lambda>cfg.
     result_bind (copy_persister i (cfg\<lparr>cl_net := DeleteServer i (cl_net cfg)\<rparr>)) (\<lambda>cfg.
     result_bind (get_at (cl_servers cfg) i) (\<lambda>kv.
       case kv of
         None \<Rightarrow> Inr cfg
       | Some a \<Rightarrow> result_bind (kill_server rf_of kill a cfg) (\<lambda>cfg.
           Inr (cfg\<lparr>cl_servers := (cl_servers cfg)[i := None]\<rparr>)))))"

definition fresh_persister ::
  "nat \<Rightarrow> ('s, 'w, 'z) cluster_scheme \<Rightarrow> ('s, 'w, 'z) cluster_scheme result" where
  "fresh_persister i cfg =
     result_bind (get_at (cl_saved cfg) i) (\<lambda>sv.
       case sv of
         Some a \<Rightarrow> copy_persister i cfg
       | None \<Rightarrow> Inr (cfg\<lparr>cl_pers := cl_pers cfg @ [MakePersister],
                           cl_saved := (cl_saved cfg)[i := Some (length (cl_pers cfg))]\<rparr>))"

text \<open>\<open>mk\<close> is the constructor of the server; \<open>svc\<close> its service's name.\<close>

definition launch where
  "launch mk svc meths rfmeths i ends cfg =
     result_bind (get_at (cl_saved cfg) i) (\<lambda>sv.
     result_bind (deref sv) (\<lambda>a.
     result_bind (get_at (cl_pers cfg) a) (\<lambda>ps.
     result_bind (set_at (cl_servers cfg) i (Some (length (cl_srvobjs cfg)))) (\<lambda>servers.
       let (kv, rf) = mk ends i a ps (length (cl_raftobjs cfg));
           kvsvc = MakeService svc (meths (length (cl_srvobjs cfg)));
           rfsvc = MakeService ''Raft'' (rfmeths (length (cl_raftobjs cfg)));
           cfg = cfg\<lparr>cl_srvobjs := cl_srvobjs cfg @ [kv], cl_raftobjs := cl_raftobjs cfg @ [rf], cl_servers := servers\<rparr> in
       result_bind (serve_two i kvsvc rfsvc (cl_net cfg)) (\<lambda>rn. Inr (cfg\<lparr>cl_net := rn\<rparr>))))))"

definition start_server where
  "start_server rnd mk svc meths rfmeths i cfg =
     (let names = new_names rnd (cl_rand cfg) (cl_n cfg) in
      result_bind (set_at (cl_endnames cfg) i (Some names)) (\<lambda>endnames.
      result_bind (open_ends False (\<lambda>j. j) names (cl_net cfg)) (\<lambda>rn.
      result_bind (fresh_persister i (cfg\<lparr>cl_endnames := endnames, cl_rand := cl_rand cfg + cl_n cfg, cl_net := rn\<rparr>))
        (launch mk svc meths rfmeths i names))))"

definition kv_StartServer where
  "kv_StartServer rnd meths rfmeths i cfg =
     start_server rnd (\<lambda>ends me a ps rf. StartKVServer ends me a ps (kc_maxraftstate cfg) rf) ''KVServer''
       meths rfmeths i cfg"

definition server_state ::
  "('s \<Rightarrow> nat) \<Rightarrow> (Raft \<Rightarrow> int \<times> bool) \<Rightarrow> ('s, 'w, 'z) cluster_scheme \<Rightarrow> nat \<Rightarrow> (int \<times> bool) result" where
  "server_state rf_of getState cfg a =
     result_bind (get_at (cl_srvobjs cfg) a) (\<lambda>kv.
     result_bind (get_at (cl_raftobjs cfg) (rf_of kv)) (\<lambda>rf. Inr (getState rf)))"

fun Leader_loop where
  "Leader_loop rf_of getState cfg [] = Inr (False, 0)"
| "Leader_loop rf_of getState cfg (i # is) =
     result_bind (get_at (cl_servers cfg) i) (\<lambda>kv.
     result_bind (deref kv) (\<lambda>a.
     result_bind (server_state rf_of getState cfg a) (\<lambda>(_, is_leader).
       if is_leader then Inr (True, i) else Leader_loop rf_of getState cfg is)))"

definition Leader where
  "Leader rf_of getState cfg = Leader_loop rf_of getState cfg [0..<cl_n cfg]"

text \<open>One turn of the loop that fills the two slices, and the whole function for \<open>n\<close> servers and the leader \<open>l\<close>.\<close>

definition partition_step :: "nat \<Rightarrow> nat \<Rightarrow> nat list \<times> nat list \<times> nat \<Rightarrow> (nat list \<times> nat list \<times> nat) result" where
  "partition_step l i = (\<lambda>(p1, p2, j).
     if i \<noteq> l then
       (if j < length p1 then result_bind (set_at p1 j i) (\<lambda>p1. Inr (p1, p2, j + 1))
        else result_bind (set_at p2 (j - length p1) i) (\<lambda>p2. Inr (p1, p2, j + 1)))
     else Inr (p1, p2, j))"

definition split_servers :: "nat \<Rightarrow> nat \<Rightarrow> (nat list \<times> nat list) result" where
  "split_servers n l =
     result_bind (for_each (partition_step l) [0..<n] (replicate (n div 2 + 1) 0, replicate (n div 2) 0, 0)) (\<lambda>(p1, p2, _).
       if length p2 = 0 then Inl Panic
       else result_bind (set_at p2 (length p2 - 1) l) (\<lambda>p2. Inr (p1, p2)))"

definition make_partition where
  "make_partition rf_of getState cfg =
     result_bind (Leader rf_of getState cfg) (\<lambda>(_, l). split_servers (cl_n cfg) l)"

section \<open>Tests\<close>

definition new_kv_config :: "'w \<Rightarrow> nat \<Rightarrow> int \<Rightarrow> nat \<Rightarrow> 'w kv_config" where
  "new_kv_config w n maxraftstate now =
     \<lparr>cl_net = MakeNetwork w, cl_n = n, cl_servers = replicate n None, cl_saved = replicate n None,
      cl_endnames = replicate n None, cl_clerks = Map.empty, cl_nextClientId = int n + 1000, cl_start = now,
      cl_failed = False, cl_pers = [], cl_raftobjs = [], cl_srvobjs = [], cl_clerkobjs = [], cl_rand = 0,
      kc_maxraftstate = maxraftstate, kc_t0 = 0, kc_rpcs0 = 0, kc_ops = 0\<rparr>"

definition kv_make_config where
  "kv_make_config rnd meths rfmeths w n unreliable maxraftstate now =
     result_bind (for_each (kv_StartServer rnd meths rfmeths) [0..<n] (new_kv_config w n maxraftstate now)) (\<lambda>cfg.
     result_bind (ConnectAll cfg) (\<lambda>cfg.
       Inr (cfg\<lparr>cl_net := Reliable (\<not> unreliable) (cl_net cfg)\<rparr>)))"

definition cl_rpcTotal :: "('s, 'w, 'z) cluster_scheme \<Rightarrow> int" where
  "cl_rpcTotal cfg = GetTotalCount (cl_net cfg)"

definition kv_begin :: "nat \<Rightarrow> 'w kv_config \<Rightarrow> 'w kv_config" where
  "kv_begin now cfg = cfg\<lparr>kc_t0 := now, kc_rpcs0 := cl_rpcTotal cfg, kc_ops := 0\<rparr>"

definition kv_op :: "'w kv_config \<Rightarrow> 'w kv_config" where
  "kv_op cfg = cfg\<lparr>kc_ops := kc_ops cfg + 1\<rparr>"

text \<open>The numbers that the report of a test shows: the time, the peers, the RPCs and the operations.\<close>

definition kv_end :: "nat \<Rightarrow> 'w kv_config \<Rightarrow> (nat \<times> nat \<times> int \<times> int) option result" where
  "kv_end now cfg =
     result_bind (cl_checkTimeout now cfg) (\<lambda>cfg.
       Inr (if \<not> cl_failed cfg
            then Some (now - kc_t0 cfg, cl_n cfg, cl_rpcTotal cfg - kc_rpcs0 cfg, sint (kc_ops cfg)) else None))"

end
