(* ===== verification/KvHarness.thy ===== *)
theory KvHarness
  imports KvCluster
begin

text \<open>
  What the operations of the key/value harness do to the network. Every operation on connections is a list
  of writes \<open>(v, a, b)\<close>, each setting the end from server \<open>a\<close> to server \<open>b\<close>; \<open>set_ends_net\<close> gives the result
  of such a list, and \<open>writes_agree\<close> the final state of an end when the writes agree. \<open>split_servers_eq\<close> is
  the result of \<open>make_partition\<close> for every number of servers.
\<close>

section \<open>Writes to ends\<close>

definition end_of :: "('s, 'w, 'z) cluster_scheme \<Rightarrow> nat \<Rightarrow> nat \<Rightarrow> string" where
  "end_of cfg a b = the (cl_endnames cfg ! a) ! b"

definition ends_wf :: "('s, 'w, 'z) cluster_scheme \<Rightarrow> bool" where
  "ends_wf cfg \<longleftrightarrow> length (cl_endnames cfg) = cl_n cfg \<and>
     (\<forall>a < cl_n cfg. \<exists>ns. cl_endnames cfg ! a = Some ns \<and> length ns = cl_n cfg)"

definition set_ends ::
  "(bool \<times> nat \<times> nat) list \<Rightarrow> ('s, 'w, 'z) cluster_scheme \<Rightarrow> ('s, 'w, 'z) cluster_scheme result" where
  "set_ends ws cfg = for_each (\<lambda>(v, a, b). set_end v a b) ws cfg"

definition written :: "('s, 'w, 'z) cluster_scheme \<Rightarrow> (bool \<times> nat \<times> nat) list \<Rightarrow> (string \<Rightarrow> bool) \<Rightarrow> string \<Rightarrow> bool" where
  "written cfg ws = fold (\<lambda>(v, a, b) en. en(end_of cfg a b := v)) ws"

definition in_range :: "nat \<Rightarrow> (bool \<times> nat \<times> nat) list \<Rightarrow> bool" where
  "in_range n ws \<longleftrightarrow> (\<forall>v a b. (v, a, b) \<in> set ws \<longrightarrow> a < n \<and> b < n)"

lemma in_range_append [simp]: "in_range n (ws @ ws') \<longleftrightarrow> in_range n ws \<and> in_range n ws'"
  by (simp add: in_range_def) blast

lemma ends_upd [simp]:
  "ends_wf (cfg\<lparr>cl_net := rn\<rparr>) = ends_wf cfg" "end_of (cfg\<lparr>cl_net := rn\<rparr>) = end_of cfg"
  "written (cfg\<lparr>cl_net := rn\<rparr>) = written cfg"
  by (simp_all add: ends_wf_def end_of_def written_def fun_eq_iff)

lemma set_end_eq:
  assumes "ends_wf cfg" "a < cl_n cfg" "b < cl_n cfg"
  shows "set_end v a b cfg = Inr (cfg\<lparr>cl_net := Enable (end_of cfg a b) v (cl_net cfg)\<rparr>)"
proof -
  obtain ns where "cl_endnames cfg ! a = Some ns" "length ns = cl_n cfg" "length (cl_endnames cfg) = cl_n cfg"
    using assms by (auto simp: ends_wf_def)
  with assms(2,3) show ?thesis by (simp add: set_end_def end_of_def get_at_in)
qed

lemma set_ends_append: "set_ends (ws @ ws') cfg = result_bind (set_ends ws cfg) (set_ends ws')"
  unfolding set_ends_def for_each_append by (rule result_bind_cong) (simp_all add: set_ends_def)

lemma set_ends_net:
  assumes "ends_wf cfg" "in_range (cl_n cfg) ws"
  shows "set_ends ws cfg = Inr (cfg\<lparr>cl_net := (cl_net cfg)\<lparr>rn_enabled := written cfg ws (rn_enabled (cl_net cfg))\<rparr>\<rparr>)"
  using assms
proof (induction ws arbitrary: cfg)
  case Nil
  then show ?case by (simp add: set_ends_def written_def)
next
  case (Cons w ws)
  obtain v a b where w: "w = (v, a, b)" by (cases w)
  let ?c = "cfg\<lparr>cl_net := Enable (end_of cfg a b) v (cl_net cfg)\<rparr>"
  have "set_end v a b cfg = Inr ?c" using Cons.prems w by (intro set_end_eq) (auto simp: in_range_def)
  then have "set_ends (w # ws) cfg = set_ends ws ?c" by (simp add: set_ends_def w)
  also have "\<dots> = Inr (?c\<lparr>cl_net := (cl_net ?c)\<lparr>rn_enabled := written cfg ws (rn_enabled (cl_net ?c))\<rparr>\<rparr>)"
    using Cons.IH [of ?c] Cons.prems by (simp add: in_range_def)
  finally show ?case by (simp add: Enable_def written_def w)
qed

definition ends_inj :: "('s, 'w, 'z) cluster_scheme \<Rightarrow> bool" where
  "ends_inj cfg \<longleftrightarrow> inj_on (\<lambda>(a, b). end_of cfg a b) ({..<cl_n cfg} \<times> {..<cl_n cfg})"

lemma ends_injD:
  "ends_inj cfg \<Longrightarrow> a < cl_n cfg \<Longrightarrow> b < cl_n cfg \<Longrightarrow> a' < cl_n cfg \<Longrightarrow> b' < cl_n cfg \<Longrightarrow>
   end_of cfg a b = end_of cfg a' b' \<longleftrightarrow> a = a' \<and> b = b'"
  by (auto simp: ends_inj_def inj_on_def)

lemma writes_agree:
  assumes "ends_inj cfg" "in_range (cl_n cfg) ws" "\<And>v a b. (v, a, b) \<in> set ws \<Longrightarrow> v = g a b" "a < cl_n cfg" "b < cl_n cfg"
  shows "written cfg ws en (end_of cfg a b) = (if (g a b, a, b) \<in> set ws then g a b else en (end_of cfg a b))"
  using assms(2,3)
proof (induction ws rule: rev_induct)
  case Nil
  then show ?case by (simp add: written_def)
next
  case (snoc w ws)
  obtain v a' b' where w: "w = (v, a', b')" by (cases w)
  have "a' < cl_n cfg" "b' < cl_n cfg" using snoc.prems(1) by (auto simp: in_range_def w)
  then have "end_of cfg a b = end_of cfg a' b' \<longleftrightarrow> a = a' \<and> b = b'" using assms by (intro ends_injD)
  moreover have "v = g a' b'" using snoc.prems(2) w by simp
  moreover have "written cfg (ws @ [w]) en = (written cfg ws en)(end_of cfg a' b' := v)" by (simp add: written_def w)
  moreover have "written cfg ws en (end_of cfg a b) = (if (g a b, a, b) \<in> set ws then g a b else en (end_of cfg a b))"
    using snoc.IH snoc.prems by simp
  ultimately show ?case by (cases "a = a' \<and> b = b'") (auto simp: w)
qed

section \<open>The operations as writes\<close>

definition conn_writes :: "bool \<Rightarrow> nat \<Rightarrow> nat list \<Rightarrow> (bool \<times> nat \<times> nat) list" where
  "conn_writes v i to = map (\<lambda>t. (v, i, t)) to @ map (\<lambda>t. (v, t, i)) to"

lemma set_conn_writes [simp]:
  "(v', a, b) \<in> set (conn_writes v i to) \<longleftrightarrow> v' = v \<and> (a = i \<and> b \<in> set to \<or> b = i \<and> a \<in> set to)"
  by (auto simp: conn_writes_def)

lemma conn_writes_in_range [simp]: "in_range n (conn_writes v i to) \<longleftrightarrow> (to = [] \<or> i < n) \<and> set to \<subseteq> {..<n}"
  by (cases to) (auto simp: in_range_def)

lemma connectUnlocked_writes:
  "connectUnlocked i to = (set_ends (conn_writes True i to) :: ('a, 'b, 'c) cluster_scheme \<Rightarrow> _)"
proof -
  have "for_each (\<lambda>j. (set_end True i (to ! j) :: ('a, 'b, 'c) cluster_scheme \<Rightarrow> _)) [0..<length to] = for_each (set_end True i) to"
    by (rule for_each_nth)
  moreover have "for_each (\<lambda>j. (set_end True (to ! j) i :: ('a, 'b, 'c) cluster_scheme \<Rightarrow> _)) [0..<length to] = for_each (\<lambda>t. set_end True t i) to"
    by (rule for_each_nth)
  ultimately have "connectUnlocked i to cfg = set_ends (conn_writes True i to) cfg" for cfg :: "('a, 'b, 'c) cluster_scheme"
    by (simp add: connectUnlocked_def conn_writes_def set_ends_def for_each_append for_each_map)
  then show ?thesis by (rule ext)
qed

lemma set_end_endnames: "set_end v a b cfg = Inr cfg' \<Longrightarrow> cl_endnames cfg' = cl_endnames cfg"
  by (auto simp: set_end_def)

lemma disconnect_loop:
  assumes "\<And>j. j < length from \<Longrightarrow> k j < length (cl_endnames cfg) \<and> cl_endnames cfg ! k j \<noteq> None"
  shows "for_each (\<lambda>j cfg. result_bind (get_at (cl_endnames cfg) (k j)) (\<lambda>e.
      if e \<noteq> None then set_end False (x j) (y j) cfg else Inr cfg)) [0..<length from] cfg =
    for_each (\<lambda>j. set_end False (x j) (y j)) [0..<length from] cfg"
  by (rule for_each_cong_inv [where P = "\<lambda>s. cl_endnames s = cl_endnames cfg"])
    (use assms in \<open>auto simp: get_at_def dest: set_end_endnames\<close>)

lemma disconnectUnlocked_writes:
  assumes "ends_wf cfg" "i < cl_n cfg" "length from \<le> cl_n cfg"
  shows "disconnectUnlocked i from cfg = set_ends (conn_writes False i from) cfg"
proof -
  have E: "length (cl_endnames cfg) = cl_n cfg" "\<And>a. a < cl_n cfg \<Longrightarrow> cl_endnames cfg ! a \<noteq> None"
    using assms(1) by (auto simp: ends_wf_def)
  have 1: "for_each (\<lambda>j cfg. result_bind (get_at (cl_endnames cfg) i) (\<lambda>e.
      if e \<noteq> None then set_end False i (from ! j) cfg else Inr cfg)) [0..<length from] cfg = for_each (set_end False i) from cfg"
    by (rule trans [OF disconnect_loop fun_cong [OF for_each_nth]]) (use E assms in simp)
  have 2: "for_each (\<lambda>j cfg. result_bind (get_at (cl_endnames cfg) j) (\<lambda>e.
      if e \<noteq> None then set_end False (from ! j) i cfg else Inr cfg)) [0..<length from] c = for_each (\<lambda>t. set_end False t i) from c"
    if "cl_endnames c = cl_endnames cfg" for c
    by (rule trans [OF disconnect_loop fun_cong [OF for_each_nth [where f = "\<lambda>t. set_end False t i"]]]) (use E assms that in simp)
  have 3: "cl_endnames c = cl_endnames cfg" if "for_each (set_end False i) from cfg = Inr c" for c
    by (rule for_each_inv [OF that, where P = "\<lambda>s. cl_endnames s = cl_endnames cfg"]) (simp_all add: set_end_endnames)
  show ?thesis
    unfolding disconnectUnlocked_def 1 set_ends_def conn_writes_def for_each_append for_each_map prod.case
    by (rule result_bind_cong [OF refl]) (simp only: 2 [OF 3])
qed

text \<open>A loop of operations that are writes.\<close>

definition same_shape :: "('s, 'w, 'z) cluster_scheme \<Rightarrow> ('s, 'w, 'z) cluster_scheme \<Rightarrow> bool" where
  "same_shape cfg c \<longleftrightarrow> ends_wf c \<and> cl_n c = cl_n cfg"

lemma for_each_writes:
  assumes "same_shape cfg c" "\<And>i c. i \<in> set xs \<Longrightarrow> same_shape cfg c \<Longrightarrow> f i c = set_ends (w i) c \<and> in_range (cl_n cfg) (w i)"
  shows "for_each f xs c = set_ends (concat (map w xs)) c"
  using assms
proof (induction xs arbitrary: c)
  case Nil
  then show ?case by (simp add: set_ends_def)
next
  case (Cons x xs)
  from Cons.prems have x: "f x c = set_ends (w x) c" "in_range (cl_n c) (w x)" "ends_wf c" "cl_n c = cl_n cfg"
    by (auto simp: same_shape_def)
  let ?c = "c\<lparr>cl_net := (cl_net c)\<lparr>rn_enabled := written c (w x) (rn_enabled (cl_net c))\<rparr>\<rparr>"
  have s: "set_ends (w x) c = Inr ?c" by (rule set_ends_net [OF x(3,2)])
  have "same_shape cfg ?c" using x by (simp add: same_shape_def)
  then have "for_each f xs ?c = set_ends (concat (map w xs)) ?c" using Cons by (meson list.set_intros(2))
  then show ?case by (simp add: x(1) s set_ends_append)
qed

lemma All_eq [simp]: "All cfg = [0..<cl_n cfg]"
proof -
  have "k \<le> n \<Longrightarrow> fold (\<lambda>i all. all[i := i]) [0..<k] (replicate n 0) = [0..<k] @ replicate (n - k) 0" for k n :: nat
  proof (induction k)
    case (Suc k)
    then have "replicate (n - k) (0 :: nat) = 0 # replicate (n - Suc k) 0" by (metis Suc_diff_le diff_Suc_Suc replicate_Suc)
    with Suc show ?case by (simp add: list_update_append)
  qed simp
  from this [of "cl_n cfg" "cl_n cfg"] show ?thesis by (simp add: All_def)
qed

definition connect_all_writes :: "nat \<Rightarrow> (bool \<times> nat \<times> nat) list" where
  "connect_all_writes n = concat (map (\<lambda>i. conn_writes True i [0..<n]) [0..<n])"

lemma ConnectAll_writes:
  assumes "ends_wf cfg"
  shows "ConnectAll cfg = set_ends (connect_all_writes (cl_n cfg)) cfg"
  unfolding ConnectAll_def connect_all_writes_def
  by (rule for_each_writes [of cfg]) (use assms in \<open>auto simp: same_shape_def connectUnlocked_writes\<close>)

definition partition_writes :: "nat list \<Rightarrow> nat list \<Rightarrow> (bool \<times> nat \<times> nat) list" where
  "partition_writes p1 p2 =
     concat (map (\<lambda>i. conn_writes False i p2 @ conn_writes True i p1) p1) @
     concat (map (\<lambda>i. conn_writes False i p1 @ conn_writes True i p2) p2)"

lemma half_partition_writes:
  assumes "same_shape cfg c" "set p \<subseteq> {..<cl_n cfg}" "set q \<subseteq> {..<cl_n cfg}" "length q \<le> cl_n cfg"
  shows "for_each (\<lambda>i cfg. result_bind (disconnectUnlocked i q cfg) (connectUnlocked i p)) p c =
    set_ends (concat (map (\<lambda>i. conn_writes False i q @ conn_writes True i p) p)) c"
proof (rule for_each_writes [OF assms(1)])
  fix i d
  assume i: "i \<in> set p" and d: "same_shape cfg d"
  have "disconnectUnlocked i q d = set_ends (conn_writes False i q) d"
    using i d assms by (intro disconnectUnlocked_writes) (auto simp: same_shape_def)
  then show "result_bind (disconnectUnlocked i q d) (connectUnlocked i p) = set_ends (conn_writes False i q @ conn_writes True i p) d \<and>
      in_range (cl_n cfg) (conn_writes False i q @ conn_writes True i p)"
    using i assms(2,3) by (auto simp: connectUnlocked_writes set_ends_append)
qed

lemma partition_servers_writes:
  assumes "ends_wf cfg" "set p1 \<subseteq> {..<cl_n cfg}" "set p2 \<subseteq> {..<cl_n cfg}" "length p1 \<le> cl_n cfg" "length p2 \<le> cl_n cfg"
  shows "partition_servers p1 p2 cfg = set_ends (partition_writes p1 p2) cfg"
proof -
  let ?w = "\<lambda>p q. concat (map (\<lambda>i. conn_writes False i q @ conn_writes True i p) p)"
  have s: "same_shape cfg cfg" using assms by (simp add: same_shape_def)
  have r: "in_range (cl_n cfg) (?w p1 p2)" using assms by (auto simp: in_range_def conn_writes_def)
  have c: "same_shape cfg c" if "set_ends (?w p1 p2) cfg = Inr c" for c
    using that set_ends_net [OF assms(1) r] assms(1) by (auto simp: same_shape_def)
  show ?thesis
    unfolding partition_servers_def partition_writes_def set_ends_append half_partition_writes [OF s assms(2,3,5)]
    by (rule result_bind_cong) (simp_all add: half_partition_writes [OF c assms(3,2,4)])
qed

section \<open>Starting the servers\<close>

lemma MakeEnd_Inr:
  assumes "MakeEnd e rn = Inr rn'"
  shows "e \<notin> rn_ends rn" "rn_ends rn' = insert e (rn_ends rn)" "\<not> rn_enabled rn' e"
    "x \<noteq> e \<Longrightarrow> rn_enabled rn' x = rn_enabled rn x \<and> rn_connections rn' x = rn_connections rn x"
  using assms by (auto simp: MakeEnd_def split: if_splits)

lemma open_ends_Inr:
  assumes "open_ends en to names rn = Inr rn'"
  shows "distinct names" "set names \<inter> rn_ends rn = {}" "rn_ends rn' = rn_ends rn \<union> set names"
    "\<And>j. j < length names \<Longrightarrow> rn_connections rn' (names ! j) = Some (to j) \<and> rn_enabled rn' (names ! j) = en"
    "\<And>e. e \<notin> set names \<Longrightarrow> rn_connections rn' e = rn_connections rn e \<and> rn_enabled rn' e = rn_enabled rn e"
proof -
  let ?P = "\<lambda>k r. distinct (take k names) \<and> set (take k names) \<inter> rn_ends rn = {} \<and>
    rn_ends r = rn_ends rn \<union> set (take k names) \<and>
    (\<forall>j < k. rn_connections r (names ! j) = Some (to j) \<and> rn_enabled r (names ! j) = en) \<and>
    (\<forall>e. e \<notin> set (take k names) \<longrightarrow> rn_connections r e = rn_connections rn e \<and> rn_enabled r e = rn_enabled rn e)"
  have "?P (length names) rn'"
  proof (rule for_each_upt_inv [OF assms [unfolded open_ends_def], where P = ?P])
    fix k r r'
    assume k: "k < length names" and P: "?P k r"
      and s: "result_bind (get_at names k) (\<lambda>name. result_bind (MakeEnd name r) (\<lambda>rn.
        let rn = Connect name (to k) rn in Inr (if en then Enable name True rn else rn))) = Inr r'"
    from s k obtain r1 where m: "MakeEnd (names ! k) r = Inr r1"
      and r': "r' = (let rn = Connect (names ! k) (to k) r1 in if en then Enable (names ! k) True rn else rn)"
      by (auto simp: get_at_def Let_def)
    note M = MakeEnd_Inr [OF m]
    have new: "names ! k \<notin> set (take k names)" "names ! k \<notin> rn_ends rn" using M(1) P by auto
    then have old: "names ! j \<noteq> names ! k" if "j < k" for j using that k by (metis in_set_conv_nth length_take min.absorb4 nth_take)
    have ends: "rn_ends r' = insert (names ! k) (rn_ends r)" "rn_connections r' (names ! k) = Some (to k)"
      "rn_enabled r' (names ! k) = en"
      using M(2,3) by (auto simp: r' Let_def Connect_def Enable_def)
    have same: "rn_connections r' x = rn_connections r x \<and> rn_enabled r' x = rn_enabled r x" if "x \<noteq> names ! k" for x
      using M(4) [OF that] that by (auto simp: r' Let_def Connect_def Enable_def)
    have t: "take (Suc k) names = take k names @ [names ! k]" using k by (rule take_Suc_conv_app_nth)
    show "?P (Suc k) r'"
      unfolding t using P new ends same old by (auto simp: less_Suc_eq)
  qed simp
  then show "distinct names" "set names \<inter> rn_ends rn = {}" "rn_ends rn' = rn_ends rn \<union> set names"
    "\<And>j. j < length names \<Longrightarrow> rn_connections rn' (names ! j) = Some (to j) \<and> rn_enabled rn' (names ! j) = en"
    "\<And>e. e \<notin> set names \<Longrightarrow> rn_connections rn' e = rn_connections rn e \<and> rn_enabled rn' e = rn_enabled rn e"
    by auto
qed

text \<open>The first \<open>k\<close> servers have names of their own for their ends, which lead to the right servers.\<close>

definition named :: "nat \<Rightarrow> ('s, 'w, 'z) cluster_scheme \<Rightarrow> bool" where
  "named k cfg \<longleftrightarrow> length (cl_endnames cfg) = cl_n cfg \<and>
     (\<forall>a < k. \<exists>ns. cl_endnames cfg ! a = Some ns \<and> length ns = cl_n cfg) \<and>
     inj_on (\<lambda>(a, b). end_of cfg a b) ({..<k} \<times> {..<cl_n cfg}) \<and>
     (\<forall>a b. a < k \<longrightarrow> b < cl_n cfg \<longrightarrow>
        end_of cfg a b \<in> rn_ends (cl_net cfg) \<and> rn_connections (cl_net cfg) (end_of cfg a b) = Some b)"

lemma serve_two_ends:
  assumes "serve_two i kvsvc rfsvc rn = Inr rn'"
  shows "rn_ends rn' = rn_ends rn" "rn_connections rn' = rn_connections rn" "rn_enabled rn' = rn_enabled rn"
  using assms by (auto simp: serve_two_def add_service_def AddServer_def new_server_def Let_def)

lemma fresh_persister_ends:
  assumes "fresh_persister i cfg = Inr cfg'"
  shows "cl_net cfg' = cl_net cfg" "cl_endnames cfg' = cl_endnames cfg" "cl_n cfg' = cl_n cfg"
  using assms by (auto simp: fresh_persister_def copy_persister_def split: option.splits)

lemma launch_ends:
  assumes "launch mk svc meths rfmeths i ends cfg = Inr cfg'"
  shows "rn_ends (cl_net cfg') = rn_ends (cl_net cfg)" "rn_connections (cl_net cfg') = rn_connections (cl_net cfg)"
    "cl_endnames cfg' = cl_endnames cfg" "cl_n cfg' = cl_n cfg"
  using assms by (auto simp: launch_def Let_def case_prod_beta serve_two_ends)

lemma start_server_ends:
  assumes "start_server rnd mk svc meths rfmeths i cfg = Inr cfg'"
  obtains names rn where "length names = cl_n cfg" "i < length (cl_endnames cfg)" "open_ends False (\<lambda>j. j) names (cl_net cfg) = Inr rn"
    "cl_endnames cfg' = (cl_endnames cfg)[i := Some names]" "cl_n cfg' = cl_n cfg"
    "rn_ends (cl_net cfg') = rn_ends rn" "rn_connections (cl_net cfg') = rn_connections rn"
proof -
  let ?names = "new_names rnd (cl_rand cfg) (cl_n cfg)"
  from assms obtain rn c where i: "i < length (cl_endnames cfg)" and o: "open_ends False (\<lambda>j. j) ?names (cl_net cfg) = Inr rn"
    and f: "fresh_persister i (cfg\<lparr>cl_endnames := (cl_endnames cfg)[i := Some ?names], cl_rand := cl_rand cfg + cl_n cfg, cl_net := rn\<rparr>) = Inr c"
    and l: "launch mk svc meths rfmeths i ?names c = Inr cfg'"
    by (auto simp: start_server_def Let_def)
  note F = fresh_persister_ends [OF f] and L = launch_ends [OF l]
  show thesis
    by (rule that [OF _ i o]) (use F L in \<open>simp_all add: new_names_def\<close>)
qed

lemma start_server_named:
  assumes "named k cfg" "start_server rnd mk svc meths rfmeths k cfg = Inr cfg'"
  shows "named (Suc k) cfg'" "cl_n cfg' = cl_n cfg"
proof -
  obtain names rn where s: "length names = cl_n cfg" "k < length (cl_endnames cfg)" "open_ends False (\<lambda>j. j) names (cl_net cfg) = Inr rn"
    "cl_endnames cfg' = (cl_endnames cfg)[k := Some names]" "cl_n cfg' = cl_n cfg"
    "rn_ends (cl_net cfg') = rn_ends rn" "rn_connections (cl_net cfg') = rn_connections rn"
    by (rule start_server_ends [OF assms(2)])
  note O = open_ends_Inr [OF s(3)] and N = assms(1) [unfolded named_def]
  show "cl_n cfg' = cl_n cfg" by (rule s)
  have new: "end_of cfg' k b = names ! b" for b using s(2,4) by (simp add: end_of_def)
  have old: "end_of cfg' a b = end_of cfg a b" if "a < k" for a b using that s(4) by (simp add: end_of_def)
  have out: "end_of cfg a b \<notin> set names" if "a < k" "b < cl_n cfg" for a b using N that O(2) by blast
  have "inj_on (\<lambda>(a, b). end_of cfg' a b) ({..<Suc k} \<times> {..<cl_n cfg})"
  proof (rule inj_onI, clarify)
    fix a b a' b'
    assume r: "a < Suc k" "b < cl_n cfg" "a' < Suc k" "b' < cl_n cfg" and e: "end_of cfg' a b = end_of cfg' a' b'"
    have i: "inj_on (\<lambda>(a, b). end_of cfg a b) ({..<k} \<times> {..<cl_n cfg})" using N by blast
    consider "a < k" "a' < k" | "a = k" "a' = k" | "a = k" "a' < k" | "a < k" "a' = k" using r by (auto simp: less_Suc_eq)
    then show "a = a' \<and> b = b'"
    proof cases
      case 1
      then show ?thesis using e r inj_onD [OF i, of "(a, b)" "(a', b')"] by (simp add: old)
    next
      case 2
      then show ?thesis using e r O(1) s(1) by (simp add: new nth_eq_iff_index_eq)
    next
      case 3
      then show ?thesis using e r out [of a' b'] s(1) by (simp add: new old) (metis nth_mem)
    next
      case 4
      then show ?thesis using e r out [of a b] s(1) by (simp add: new old)
    qed
  qed
  moreover have "\<exists>ns. cl_endnames cfg' ! a = Some ns \<and> length ns = cl_n cfg" if "a < Suc k" for a
    using that N s(1,2,4) by (cases "a = k") auto
  moreover have "end_of cfg' a b \<in> rn_ends (cl_net cfg') \<and> rn_connections (cl_net cfg') (end_of cfg' a b) = Some b"
    if "a < Suc k" "b < cl_n cfg" for a b
  proof (cases "a = k")
    case True
    then show ?thesis using O(3) O(4) [of b] that s(1,6,7) by (simp add: new)
  next
    case False
    then have "a < k" using that by simp
    then show ?thesis using N O(3) O(5) [OF out [of a b]] that s(6,7) by (simp add: old)
  qed
  moreover have "length (cl_endnames cfg') = cl_n cfg" using N s(4) by simp
  ultimately show "named (Suc k) cfg'" by (simp add: named_def s(5))
qed

lemma named_wf: "named (cl_n cfg) cfg \<Longrightarrow> ends_wf cfg \<and> ends_inj cfg"
  by (simp add: named_def ends_wf_def ends_inj_def)

text \<open>All servers can talk to each other.\<close>

definition all_connected :: "('s, 'w, 'z) cluster_scheme \<Rightarrow> bool" where
  "all_connected cfg \<longleftrightarrow> named (cl_n cfg) cfg \<and>
     (\<forall>a < cl_n cfg. \<forall>b < cl_n cfg. rn_enabled (cl_net cfg) (end_of cfg a b))"

lemma named_net:
  "rn_ends rn = rn_ends (cl_net cfg) \<Longrightarrow> rn_connections rn = rn_connections (cl_net cfg) \<Longrightarrow>
   named k (cfg\<lparr>cl_net := rn\<rparr>) = named k cfg"
  by (simp add: named_def)

lemma ConnectAll_connects:
  assumes "named (cl_n cfg) cfg"
  shows "\<exists>cfg'. ConnectAll cfg = Inr cfg' \<and> all_connected cfg' \<and> cl_n cfg' = cl_n cfg"
proof -
  let ?n = "cl_n cfg" and ?ws = "connect_all_writes (cl_n cfg)"
  let ?c = "cfg\<lparr>cl_net := (cl_net cfg)\<lparr>rn_enabled := written cfg ?ws (rn_enabled (cl_net cfg))\<rparr>\<rparr>"
  have wf: "ends_wf cfg" "ends_inj cfg" using named_wf [OF assms] by auto
  have r: "in_range ?n ?ws" by (auto simp: connect_all_writes_def in_range_def)
  have "ConnectAll cfg = Inr ?c" using ConnectAll_writes [OF wf(1)] set_ends_net [OF wf(1) r] by simp
  moreover have "named ?n ?c" using assms by (simp add: named_net)
  moreover have "written cfg ?ws (rn_enabled (cl_net cfg)) (end_of cfg a b)" if "a < ?n" "b < ?n" for a b
  proof -
    have v: "v = True" if "(v, a, b) \<in> set ?ws" for v a b using that by (auto simp: connect_all_writes_def)
    have "(True, a, b) \<in> set ?ws" using that by (auto simp: connect_all_writes_def)
    then show ?thesis using writes_agree [OF wf(2) r v that] by simp
  qed
  ultimately show ?thesis by (auto simp: all_connected_def)
qed

lemma kv_make_config_connects:
  assumes "kv_make_config rnd meths rfmeths w n unreliable maxraftstate now = Inr cfg"
  shows "all_connected cfg" "cl_n cfg = n"
proof -
  let ?c0 = "new_kv_config w n maxraftstate now"
  from assms obtain c1 c2 where c: "for_each (kv_StartServer rnd meths rfmeths) [0..<n] ?c0 = Inr c1"
    "ConnectAll c1 = Inr c2" "cfg = c2\<lparr>cl_net := Reliable (\<not> unreliable) (cl_net c2)\<rparr>"
    by (auto simp: kv_make_config_def)
  have "named n c1 \<and> cl_n c1 = n"
  proof (rule for_each_upt_inv [OF c(1), where P = "\<lambda>k c. named k c \<and> cl_n c = n"])
    show "named 0 ?c0 \<and> cl_n ?c0 = n" by (simp add: named_def new_kv_config_def)
  qed (metis kv_StartServer_def start_server_named)
  with ConnectAll_connects [of c1] c(2) have "all_connected c2" "cl_n c2 = n" by auto
  with c(3) show "all_connected cfg" "cl_n cfg = n" by (auto simp: all_connected_def named_net Reliable_def)
qed

section \<open>Splitting the servers\<close>

definition others :: "nat \<Rightarrow> nat \<Rightarrow> nat list" where
  "others n l = filter (\<lambda>i. i \<noteq> l) [0..<n]"

lemma length_others: "l < n \<Longrightarrow> length (others n l) = n - 1"
proof -
  assume "l < n"
  then have "set (others n l) = {..<n} - {l}" "distinct (others n l)" by (auto simp: others_def)
  then show ?thesis using \<open>l < n\<close> distinct_card [of "others n l"] by simp
qed

lemma partition_step_fill:
  assumes "p1 @ p2 = xs @ replicate (Suc r) 0" "i \<noteq> l"
  shows "\<exists>q1 q2. partition_step l i (p1, p2, length xs) = Inr (q1, q2, Suc (length xs)) \<and>
    q1 @ q2 = (xs @ [i]) @ replicate r 0 \<and> length q1 = length p1 \<and> length q2 = length p2"
proof -
  have u: "(p1 @ p2)[length xs := i] = (xs @ [i]) @ replicate r 0" by (simp add: assms)
  have "length (p1 @ p2) = length xs + Suc r" by (simp add: assms(1))
  then have l: "length xs < length p1 + length p2" by simp
  show ?thesis
  proof (cases "length xs < length p1")
    case True
    then have "p1[length xs := i] @ p2 = (xs @ [i]) @ replicate r 0" using u by (simp add: list_update_append)
    with True assms(2) show ?thesis by (simp add: partition_step_def set_at_def)
  next
    case False
    then have "p1 @ p2[length xs - length p1 := i] = (xs @ [i]) @ replicate r 0" using u by (simp add: list_update_append)
    with False assms(2) l show ?thesis by (simp add: partition_step_def set_at_def)
  qed
qed

lemma split_loop:
  assumes "k \<le> n" "l < n"
  shows "\<exists>p1 p2. for_each (partition_step l) [0..<k] (replicate (n div 2 + 1) 0, replicate (n div 2) 0, 0) =
      Inr (p1, p2, length (others k l)) \<and> length p1 = n div 2 + 1 \<and> length p2 = n div 2 \<and>
      p1 @ p2 = others k l @ replicate (2 * (n div 2) + 1 - length (others k l)) 0"
  using assms(1)
proof (induction k)
  case 0
  show ?case by (simp add: others_def flip: replicate_add)
next
  case (Suc k)
  then obtain p1 p2 where p: "for_each (partition_step l) [0..<k] (replicate (n div 2 + 1) 0, replicate (n div 2) 0, 0) =
      Inr (p1, p2, length (others k l))" "length p1 = n div 2 + 1" "length p2 = n div 2"
      "p1 @ p2 = others k l @ replicate (2 * (n div 2) + 1 - length (others k l)) 0" by auto
  show ?case
  proof (cases "k = l")
    case True
    have "partition_step l k (p1, p2, length (others k l)) = Inr (p1, p2, length (others k l))"
      by (simp add: partition_step_def True)
    moreover have "others (Suc k) l = others k l" by (simp add: others_def True)
    ultimately show ?thesis using p by (simp add: for_each_append)
  next
    case False
    have o: "others (Suc k) l = others k l @ [k]" using False by (simp add: others_def)
    have "length (others k l) \<le> k" unfolding others_def by (metis diff_zero length_filter_le length_upt)
    then have "length (others k l) < 2 * (n div 2) + 1" using Suc.prems assms(2) by linarith
    then obtain r where r: "2 * (n div 2) + 1 - length (others k l) = Suc r" by (metis Suc_diff_Suc)
    from partition_step_fill [OF p(4) [unfolded r] False] obtain q1 q2 where
      "partition_step l k (p1, p2, length (others k l)) = Inr (q1, q2, Suc (length (others k l)))"
      "q1 @ q2 = (others k l @ [k]) @ replicate r 0" "length q1 = length p1" "length q2 = length p2" by blast
    with p(1-3) r show ?thesis by (simp add: for_each_append o)
  qed
qed

text \<open>The result for at least two servers: the others fill the two slices in order, and the leader goes to the
  end of the second; with an even number one slot of the slices keeps its initial 0.\<close>

lemma split_servers_eq:
  assumes "2 \<le> n" "l < n"
  defines "F \<equiv> others n l @ replicate (2 * (n div 2) + 2 - n) 0"
  shows "split_servers n l = Inr (take (n div 2 + 1) F, (drop (n div 2 + 1) F)[n div 2 - 1 := l])"
proof -
  obtain p1 p2 where p: "for_each (partition_step l) [0..<n] (replicate (n div 2 + 1) 0, replicate (n div 2) 0, 0) =
      Inr (p1, p2, length (others n l))" "length p1 = n div 2 + 1" "length p2 = n div 2"
      "p1 @ p2 = others n l @ replicate (2 * (n div 2) + 1 - length (others n l)) 0"
    using split_loop [OF le_refl assms(2)] by blast
  have "2 * (n div 2) + 1 - length (others n l) = 2 * (n div 2) + 2 - n" using assms(1,2) by (simp add: length_others)
  then have "p1 @ p2 = F" using p(4) by (simp add: F_def)
  then have "take (n div 2 + 1) F = p1" "drop (n div 2 + 1) F = p2" using p(2) by auto
  moreover have "p2 \<noteq> []" "n div 2 - 1 < n div 2" using assms(1) p(3) by auto
  ultimately show ?thesis using p by (simp add: split_servers_def set_at_def)
qed

section \<open>Starting succeeds\<close>

lemma open_ends_total:
  fixes rn :: "(string, 'n, 'w) Network"
  assumes "distinct names" "set names \<inter> rn_ends rn = {}"
  shows "\<exists>rn'. open_ends en to names rn = Inr rn'"
proof -
  let ?f = "\<lambda>j rn. result_bind (get_at names j) (\<lambda>name. result_bind (MakeEnd name rn) (\<lambda>rn.
    let rn = Connect name (to j) rn in Inr (if en then Enable name True rn else rn)))"
  have "\<exists>rn'. for_each ?f [0..<length names] rn = Inr rn' \<and> rn_ends rn' = rn_ends rn \<union> set (take (length names) names)"
  proof (rule for_each_upt_total [where P = "\<lambda>k r. rn_ends r = rn_ends rn \<union> set (take k names)"])
    fix k and r :: "(string, 'n, 'w) Network"
    assume k: "k < length names" and r: "rn_ends r = rn_ends rn \<union> set (take k names)"
    have "names ! k \<notin> set (take k names)" using assms(1) k by (auto simp: in_set_conv_nth nth_eq_iff_index_eq)
    moreover have "names ! k \<notin> rn_ends rn" using assms(2) k nth_mem by blast
    ultimately show "\<exists>r'. ?f k r = Inr r' \<and> rn_ends r' = rn_ends rn \<union> set (take (Suc k) names)"
      using k r by (simp add: get_at_in MakeEnd_def Let_def Connect_def Enable_def take_Suc_conv_app_nth)
  qed simp
  then show ?thesis by (auto simp: open_ends_def)
qed

text \<open>\<open>ready rf_of rnd n k cfg\<close>: the first \<open>k\<close> of \<open>n\<close> servers run, with the first \<open>k * n\<close> names.\<close>

definition ready ::
  "('s \<Rightarrow> nat) \<Rightarrow> (nat \<Rightarrow> nat \<Rightarrow> uint8) \<Rightarrow> nat \<Rightarrow> nat \<Rightarrow> ('s, 'w, 'z) cluster_scheme \<Rightarrow> bool" where
  "ready rf_of rnd n k cfg \<longleftrightarrow>
     named k cfg \<and> cl_n cfg = n \<and> cl_rand cfg = k * n \<and> rn_ends (cl_net cfg) = nth_name rnd ` {..<k * n} \<and>
     length (cl_saved cfg) = n \<and> length (cl_servers cfg) = n \<and> (\<forall>i < n. k \<le> i \<longrightarrow> cl_saved cfg ! i = None) \<and>
     (\<forall>i < k. \<exists>a. cl_servers cfg ! i = Some a \<and> a < length (cl_srvobjs cfg) \<and>
        rf_of (cl_srvobjs cfg ! a) < length (cl_raftobjs cfg))"

lemma new_names_fresh:
  assumes "inj_on (nth_name rnd) {..<n * n}" "k < n"
  shows "distinct (new_names rnd (k * n) n)" "set (new_names rnd (k * n) n) \<inter> nth_name rnd ` {..<k * n} = {}"
    "nth_name rnd ` {..<k * n} \<union> set (new_names rnd (k * n) n) = nth_name rnd ` {..<Suc k * n}"
proof -
  have "Suc k * n \<le> n * n" using assms(2) by (intro mult_le_mono1) simp
  then have le: "k * n + n \<le> n * n" by simp
  have names: "new_names rnd (k * n) n = map (nth_name rnd) [k * n..<k * n + n]"
    unfolding new_names_def by (simp add: list_eq_iff_nth_eq)
  have i: "inj_on (nth_name rnd) {..<k * n + n}" using assms(1) le by (auto intro: inj_on_subset)
  show "distinct (new_names rnd (k * n) n)" using i by (auto simp: names distinct_map intro: inj_on_subset)
  show "set (new_names rnd (k * n) n) \<inter> nth_name rnd ` {..<k * n} = {}"
    unfolding names using inj_onD [OF i] by fastforce
  have "{..<Suc k * n} = {..<k * n} \<union> {k * n..<k * n + n}" by auto
  then show "nth_name rnd ` {..<k * n} \<union> set (new_names rnd (k * n) n) = nth_name rnd ` {..<Suc k * n}"
    by (simp add: names image_Un)
qed

lemma serve_two_total: "\<exists>rn'. serve_two i kvsvc rfsvc rn = Inr rn'"
  by (simp add: serve_two_def add_service_def new_server_def Let_def get_at_def)

text \<open>What the harness needs of the constructor of a server: it stores the address of the peer.\<close>

locale cluster_server =
  fixes mk :: "string list \<Rightarrow> nat \<Rightarrow> nat \<Rightarrow> Persister \<Rightarrow> nat \<Rightarrow> 's \<times> Raft" and rf_of :: "'s \<Rightarrow> nat"
  assumes rf_of_mk: "rf_of (fst (mk ends i a ps rf)) = rf"
begin

lemma start_server_ready:
  fixes cfg :: "('s, 'w, 'z) cluster_scheme"
  assumes "inj_on (nth_name rnd) {..<n * n}" "k < n" "ready rf_of rnd n k cfg"
  shows "\<exists>cfg'. start_server rnd mk svc meths rfmeths k cfg = Inr cfg' \<and> ready rf_of rnd n (Suc k) cfg'"
proof -
  note R = assms(3) [unfolded ready_def]
  let ?names = "new_names rnd (k * n) n"
  note N = new_names_fresh [OF assms(1,2)]
  obtain rn where o: "open_ends False (\<lambda>j. j) ?names (cl_net cfg) = Inr rn"
    using open_ends_total [of ?names "cl_net cfg" False "\<lambda>j. j"] N R by auto
  let ?a = "length (cl_pers cfg)"
  let ?c = "cfg\<lparr>cl_endnames := (cl_endnames cfg)[k := Some ?names], cl_rand := cl_rand cfg + cl_n cfg, cl_net := rn,
    cl_pers := cl_pers cfg @ [MakePersister], cl_saved := (cl_saved cfg)[k := Some ?a]\<rparr>"
  let ?m = "mk ?names k ?a MakePersister (length (cl_raftobjs cfg))"
  obtain rn' where v: "serve_two k (MakeService svc (meths (length (cl_srvobjs cfg))))
      (MakeService ''Raft'' (rfmeths (length (cl_raftobjs cfg)))) rn = Inr rn'"
    by (rule exE [OF serve_two_total])
  let ?c' = "?c\<lparr>cl_srvobjs := cl_srvobjs cfg @ [fst ?m], cl_raftobjs := cl_raftobjs cfg @ [snd ?m],
    cl_servers := (cl_servers cfg)[k := Some (length (cl_srvobjs cfg))], cl_net := rn'\<rparr>"
  have "fresh_persister k (cfg\<lparr>cl_endnames := (cl_endnames cfg)[k := Some ?names], cl_rand := cl_rand cfg + cl_n cfg, cl_net := rn\<rparr>) = Inr ?c"
    using R assms(2) by (simp add: fresh_persister_def get_at_in)
  moreover have "launch mk svc meths rfmeths k ?names ?c = Inr ?c'"
    using R assms(2) v by (simp add: launch_def get_at_in set_at_def Let_def case_prod_beta)
  ultimately have s: "start_server rnd mk svc meths rfmeths k cfg = Inr ?c'"
    using R assms(2) o by (simp add: start_server_def Let_def named_def set_at_def)
  have "rn_ends rn' = nth_name rnd ` {..<Suc k * n}"
    using serve_two_ends(1) [OF v] open_ends_Inr(3) [OF o] N(3) R by simp
  then have "ready rf_of rnd n (Suc k) ?c'"
    unfolding ready_def using start_server_named(1) [OF _ s] R assms(2) rf_of_mk
    by (auto simp: nth_append nth_list_update less_Suc_eq)
  with s show ?thesis by blast
qed

lemma start_all:
  fixes cfg :: "('s, 'w, 'z) cluster_scheme"
  assumes "inj_on (nth_name rnd) {..<n * n}" "ready rf_of rnd n 0 cfg"
  shows "\<exists>cfg'. for_each (start_server rnd mk svc meths rfmeths) [0..<n] cfg = Inr cfg' \<and> ready rf_of rnd n n cfg'"
  by (rule for_each_upt_total [where P = "ready rf_of rnd n"]) (use assms start_server_ready in auto)

end

lemma launch_more: "launch mk svc meths rfmeths i ends cfg = Inr cfg' \<Longrightarrow> cluster.more cfg' = cluster.more cfg"
  by (auto simp: launch_def Let_def case_prod_beta)

lemma fresh_persister_more: "fresh_persister i cfg = Inr cfg' \<Longrightarrow> cluster.more cfg' = cluster.more cfg"
  by (auto simp: fresh_persister_def copy_persister_def split: option.splits)

lemma start_server_more:
  assumes "start_server rnd mk svc meths rfmeths i cfg = Inr cfg'"
  shows "cluster.more cfg' = cluster.more cfg"
  using assms by (auto simp: start_server_def Let_def dest!: launch_more fresh_persister_more)

text \<open>The servers of the key/value service.\<close>

interpretation kv_server: cluster_server "\<lambda>ends me a ps rf. StartKVServer ends me a ps m rf" kv_rf for m
  by unfold_locales (simp add: StartKVServer_def)

lemma kv_start_all:
  assumes "kc_maxraftstate cfg = m"
  shows "for_each (kv_StartServer rnd meths rfmeths) xs cfg =
    for_each (start_server rnd (\<lambda>ends me a ps rf. StartKVServer ends me a ps m rf) ''KVServer'' meths rfmeths) xs cfg"
proof (rule for_each_cong_inv [where P = "\<lambda>c. kc_maxraftstate c = m"])
  fix x and s s' :: "('a, 'b) kv_config_scheme"
  assume "kc_maxraftstate s = m"
    and "start_server rnd (\<lambda>ends me a ps rf. StartKVServer ends me a ps m rf) ''KVServer'' meths rfmeths x s = Inr s'"
  then show "kc_maxraftstate s' = m" using start_server_more [of _ _ _ _ _ _ s s'] by (cases s; cases s') auto
qed (use assms in \<open>simp_all add: kv_StartServer_def\<close>)

lemma Leader_lt: "Leader rf_of getState cfg = Inr (found, l) \<Longrightarrow> 0 < cl_n cfg \<Longrightarrow> l < cl_n cfg"
proof -
  have "Leader_loop rf_of getState cfg is = Inr (found, l) \<Longrightarrow> l = 0 \<or> l \<in> set is" for "is"
    by (induction "is") (auto split: if_splits)
  from this [of "[0..<cl_n cfg]"] show "Leader rf_of getState cfg = Inr (found, l) \<Longrightarrow> 0 < cl_n cfg \<Longrightarrow> l < cl_n cfg"
    by (auto simp: Leader_def)
qed

lemma Leader_total:
  assumes "ready rf_of rnd n n cfg" "set is \<subseteq> {..<n}"
  shows "\<exists>b l. Leader_loop rf_of getState cfg is = Inr (b, l)"
  using assms(2)
proof (induction "is")
  case (Cons i "is")
  from assms(1) Cons.prems obtain a where a: "cl_servers cfg ! i = Some a" "a < length (cl_srvobjs cfg)"
    "rf_of (cl_srvobjs cfg ! a) < length (cl_raftobjs cfg)" "i < length (cl_servers cfg)"
    by (auto simp: ready_def)
  with Cons show ?case by (auto simp: server_state_def get_at_in case_prod_beta)
qed auto

lemma ready_net:
  "rn_ends rn = rn_ends (cl_net cfg) \<Longrightarrow> rn_connections rn = rn_connections (cl_net cfg) \<Longrightarrow>
   ready rf_of rnd n k (cfg\<lparr>cl_net := rn\<rparr>) = ready rf_of rnd n k cfg"
  by (simp add: ready_def named_net)

lemma ConnectAll_ready:
  assumes "ready rf_of rnd n n cfg" "ConnectAll cfg = Inr cfg'"
  shows "ready rf_of rnd n n cfg'"
proof -
  have wf: "ends_wf cfg" using assms(1) named_wf [of cfg] by (simp add: ready_def)
  have r: "in_range (cl_n cfg) (connect_all_writes (cl_n cfg))" by (auto simp: connect_all_writes_def in_range_def)
  have "cfg' = cfg\<lparr>cl_net := (cl_net cfg)\<lparr>rn_enabled := written cfg (connect_all_writes (cl_n cfg)) (rn_enabled (cl_net cfg))\<rparr>\<rparr>"
    using assms(2) ConnectAll_writes [OF wf] set_ends_net [OF wf r] by simp
  with assms(1) show ?thesis by (simp add: ready_net)
qed

lemma kv_make_config_total:
  assumes "inj_on (nth_name rnd) {..<n * n}"
  shows "\<exists>cfg. kv_make_config rnd meths rfmeths w n unreliable maxraftstate now = Inr cfg \<and> ready kv_rf rnd n n cfg"
proof -
  let ?c0 = "new_kv_config w n maxraftstate now"
  have "ready kv_rf rnd n 0 ?c0" by (simp add: ready_def named_def new_kv_config_def MakeNetwork_def)
  from kv_server.start_all [OF assms this] obtain c1 where
    c1: "for_each (kv_StartServer rnd meths rfmeths) [0..<n] ?c0 = Inr c1" "ready kv_rf rnd n n c1"
    using kv_start_all [of ?c0 maxraftstate] by (force simp: new_kv_config_def)
  have "named (cl_n c1) c1" using c1(2) by (simp add: ready_def)
  from ConnectAll_connects [OF this] obtain c2 where c2: "ConnectAll c1 = Inr c2" by blast
  have "ready kv_rf rnd n n (c2\<lparr>cl_net := Reliable (\<not> unreliable) (cl_net c2)\<rparr>)"
    using ConnectAll_ready [OF c1(2) c2] by (simp add: ready_net Reliable_def)
  with c1(1) c2 show ?thesis by (simp add: kv_make_config_def)
qed

section \<open>Partitions\<close>

lemma partition_enabled:
  assumes "ends_wf cfg" "ends_inj cfg" "set p1 \<inter> set p2 = {}" "set p1 \<union> set p2 \<subseteq> {..<cl_n cfg}"
    "length p1 \<le> cl_n cfg" "length p2 \<le> cl_n cfg"
  shows "\<exists>cfg'. partition_servers p1 p2 cfg = Inr cfg' \<and> cl_endnames cfg' = cl_endnames cfg \<and>
    rn_connections (cl_net cfg') = rn_connections (cl_net cfg) \<and>
    (\<forall>a b. a \<in> set p1 \<union> set p2 \<longrightarrow> b \<in> set p1 \<union> set p2 \<longrightarrow>
       rn_enabled (cl_net cfg') (end_of cfg a b) = (a \<in> set p1 \<longleftrightarrow> b \<in> set p1))"
proof -
  let ?w = "partition_writes p1 p2" and ?g = "\<lambda>a b. a \<in> set p1 \<longleftrightarrow> b \<in> set p1"
  have r: "in_range (cl_n cfg) ?w" using assms(4) by (auto simp: partition_writes_def in_range_def)
  have v: "v = ?g a b" if "(v, a, b) \<in> set ?w" for v a b using that assms(3) by (auto simp: partition_writes_def)
  have w: "(?g a b, a, b) \<in> set ?w" if "a \<in> set p1 \<union> set p2" "b \<in> set p1 \<union> set p2" for a b
    using that assms(3) by (auto simp: partition_writes_def)
  have "written cfg ?w en (end_of cfg a b) = ?g a b" if "a \<in> set p1 \<union> set p2" "b \<in> set p1 \<union> set p2" for a b en
  proof -
    have "a < cl_n cfg" "b < cl_n cfg" using that assms(4) by auto
    then show ?thesis using writes_agree [where g = ?g, OF assms(2) r v] w [OF that] by simp
  qed
  moreover have "partition_servers p1 p2 cfg = Inr (cfg\<lparr>cl_net := (cl_net cfg)\<lparr>rn_enabled := written cfg ?w (rn_enabled (cl_net cfg))\<rparr>\<rparr>)"
    using partition_servers_writes [OF assms(1) _ _ assms(5,6)] set_ends_net [OF assms(1) r] assms(4) by simp
  ultimately show ?thesis by simp
qed

lemma split_odd:
  assumes "odd n" "3 \<le> n" "l < n"
  shows "\<exists>p1 p2. split_servers n l = Inr (p1, p2) \<and> length p1 = n div 2 + 1 \<and> length p2 = n div 2 \<and> l \<in> set p2 \<and>
    set p1 \<inter> set p2 = {} \<and> set p1 \<union> set p2 = {..<n}"
proof -
  let ?m = "n div 2" and ?o = "others n l"
  have m: "n = 2 * ?m + 1" "1 \<le> ?m" using assms by presburger+
  have lo: "length ?o = 2 * ?m" using assms(3) m by (simp add: length_others)
  have one: "2 * ?m + 2 - n = Suc 0" using m by linarith
  have "split_servers n l = Inr (take (?m + 1) (?o @ [0]), (drop (?m + 1) (?o @ [0]))[?m - 1 := l])"
    using split_servers_eq [of n l] assms unfolding one by simp
  moreover have "take (?m + 1) (?o @ [0]) = take (?m + 1) ?o" using lo m(2) by simp
  moreover have "drop (?m + 1) (?o @ [0]) = drop (?m + 1) ?o @ [0]" using lo m(2) by simp
  moreover have "(drop (?m + 1) ?o @ [0])[?m - 1 := l] = drop (?m + 1) ?o @ [l]" using lo m(2) by (simp add: list_update_append)
  ultimately have s: "split_servers n l = Inr (take (?m + 1) ?o, drop (?m + 1) ?o @ [l])" by metis
  have d: "distinct ?o" "set ?o = {..<n} - {l}" by (auto simp: others_def)
  have "set (take (?m + 1) ?o) \<inter> set (drop (?m + 1) ?o) = {}" using d(1) by (rule set_take_disj_set_drop_if_distinct) simp
  moreover have "l \<notin> set (take (?m + 1) ?o)" using d(2) in_set_takeD by fastforce
  moreover have "set (take (?m + 1) ?o) \<union> set (drop (?m + 1) ?o) = set ?o" by (metis append_take_drop_id set_append)
  ultimately show ?thesis using s lo m(2) d(2) assms(3) by auto
qed

section \<open>Clerks\<close>

lemma swap_mset: "i < length xs \<Longrightarrow> j < length xs \<Longrightarrow> mset (xs[i := xs ! j, j := xs ! i]) = mset xs"
  by (rule mset_swap)

lemma random_handles_total:
  assumes "\<And>i. intn i \<le> i"
  shows "\<exists>ys. random_handles intn xs = Inr ys \<and> mset ys = mset xs"
proof -
  have "\<exists>ys. random_handles intn xs = Inr ys \<and> mset ys = mset xs \<and> length ys = length xs"
    unfolding random_handles_def
  proof (rule for_each_total [where P = "\<lambda>ys. mset ys = mset xs \<and> length ys = length xs"])
    fix i ys
    assume "i \<in> set [0..<length xs]" and ys: "mset ys = mset xs \<and> length ys = length xs"
    then have "i < length ys" "intn i < length ys" using assms [of i] by auto
    with ys show "\<exists>s'. (let j = intn i in result_bind (get_at ys i) (\<lambda>x. result_bind (get_at ys j) (\<lambda>y. Inr (ys[i := y, j := x])))) = Inr s' \<and>
        mset s' = mset xs \<and> length s' = length xs"
      by (simp add: Let_def get_at_in mset_swap)
  qed simp
  then show ?thesis by blast
qed

lemma set_client_net:
  assumes "cl_clerks cfg ck = Some names" "set to \<subseteq> {..<length names}"
  shows "set_client v ck to cfg = Inr (cfg\<lparr>cl_net := (cl_net cfg)\<lparr>rn_enabled :=
    (\<lambda>e. if e \<in> (!) names ` set to then v else rn_enabled (cl_net cfg) e)\<rparr>\<rparr>)"
proof -
  let ?f = "\<lambda>t cfg. result_bind (get_at names t) (\<lambda>s. Inr (cfg\<lparr>cl_net := Enable s v (cl_net cfg)\<rparr>))"
  have "for_each ?f to c = Inr (c\<lparr>cl_net := (cl_net c)\<lparr>rn_enabled :=
      (\<lambda>e. if e \<in> (!) names ` set to then v else rn_enabled (cl_net c) e)\<rparr>\<rparr>)" for c :: "('a, 'b, 'c) cluster_scheme"
    using assms(2)
  proof (induction to arbitrary: c)
    case (Cons t to)
    let ?c = "c\<lparr>cl_net := Enable (names ! t) v (cl_net c)\<rparr>"
    have "for_each ?f (t # to) c = for_each ?f to ?c" using Cons.prems by (simp add: get_at_in)
    also have "\<dots> = Inr (?c\<lparr>cl_net := (cl_net ?c)\<lparr>rn_enabled :=
      (\<lambda>e. if e \<in> (!) names ` set to then v else rn_enabled (cl_net ?c) e)\<rparr>\<rparr>)" using Cons by simp
    also have "(\<lambda>e. if e \<in> (!) names ` set to then v else rn_enabled (cl_net ?c) e) =
      (\<lambda>e. if e \<in> (!) names ` set (t # to) then v else rn_enabled (cl_net c) e)" by (auto simp: Enable_def)
    finally show ?case by (simp add: Enable_def)
  qed simp
  then show ?thesis using assms(1) by (simp add: set_client_def names_of_def)
qed

abbreviation client_names :: "(nat \<Rightarrow> nat \<Rightarrow> uint8) \<Rightarrow> ('s, 'w, 'z) cluster_scheme \<Rightarrow> string list" where
  "client_names rnd cfg \<equiv> new_names rnd (cl_rand cfg) (cl_n cfg)"

lemma client_names_fresh:
  assumes "inj_on (nth_name rnd) {..<cl_rand cfg + cl_n cfg}" "rn_ends (cl_net cfg) \<subseteq> nth_name rnd ` {..<cl_rand cfg}"
  shows "distinct (client_names rnd cfg)" "set (client_names rnd cfg) \<inter> rn_ends (cl_net cfg) = {}"
proof -
  let ?k = "cl_rand cfg" and ?n = "cl_n cfg"
  have nm: "client_names rnd cfg = map (nth_name rnd) [?k..<?k + ?n]" unfolding new_names_def by (simp add: list_eq_iff_nth_eq)
  show "distinct (client_names rnd cfg)" using assms(1) by (auto simp: nm distinct_map intro: inj_on_subset)
  show "set (client_names rnd cfg) \<inter> rn_ends (cl_net cfg) = {}"
  proof (rule equals0I)
    fix x
    assume x: "x \<in> set (client_names rnd cfg) \<inter> rn_ends (cl_net cfg)"
    then have "x \<in> nth_name rnd ` {..<?k}" using assms(2) by blast
    then obtain j' where j': "x = nth_name rnd j'" "j' \<in> {..<?k}" by (rule imageE)
    have "x \<in> nth_name rnd ` {?k..<?k + ?n}" using x unfolding nm by simp
    then obtain j where j: "x = nth_name rnd j" "j \<in> {?k..<?k + ?n}" by (rule imageE)
    have "j = j'" by (rule inj_onD [OF assms(1)]) (use j j' in \<open>simp_all flip: j(1)\<close>)
    with j(2) j'(2) show False by simp
  qed
qed

text \<open>The harness after \<open>makeClient\<close>.\<close>

definition with_client where
  "with_client rnd to rn ends cfg =
     cfg\<lparr>cl_net := rn\<lparr>rn_enabled := (\<lambda>e. if e \<in> (!) (client_names rnd cfg) ` set to then True else rn_enabled rn e)\<rparr>,
         cl_rand := cl_rand cfg + cl_n cfg, cl_clerkobjs := cl_clerkobjs cfg @ [MakeClerk ends],
         cl_clerks := (cl_clerks cfg)(length (cl_clerkobjs cfg) \<mapsto> client_names rnd cfg),
         cl_nextClientId := cl_nextClientId cfg + 1\<rparr>"

lemma makeClient_run:
  assumes "\<And>i. intn i \<le> i" "inj_on (nth_name rnd) {..<cl_rand cfg + cl_n cfg}"
    "rn_ends (cl_net cfg) \<subseteq> nth_name rnd ` {..<cl_rand cfg}" "set to \<subseteq> {..<cl_n cfg}"
  shows "\<exists>rn ends. open_ends False (\<lambda>j. j) (client_names rnd cfg) (cl_net cfg) = Inr rn \<and>
    mset ends = mset (client_names rnd cfg) \<and>
    makeClient rnd intn to cfg = Inr (length (cl_clerkobjs cfg), with_client rnd to rn ends cfg)"
proof -
  let ?ck = "length (cl_clerkobjs cfg)" and ?names = "client_names rnd cfg"
  obtain rn where o: "open_ends False (\<lambda>j. j) ?names (cl_net cfg) = Inr rn"
    using open_ends_total [of ?names "cl_net cfg" False "\<lambda>j. j"] client_names_fresh [OF assms(2,3)] by blast
  obtain ends where h: "random_handles intn ?names = Inr ends" "mset ends = mset ?names"
    using random_handles_total [of intn ?names] assms(1) by blast
  let ?c = "cfg\<lparr>cl_net := rn, cl_rand := cl_rand cfg + cl_n cfg, cl_clerkobjs := cl_clerkobjs cfg @ [MakeClerk ends],
    cl_clerks := (cl_clerks cfg)(?ck \<mapsto> ?names), cl_nextClientId := cl_nextClientId cfg + 1\<rparr>"
  have "set_client True ?ck to ?c = Inr (?c\<lparr>cl_net := (cl_net ?c)\<lparr>rn_enabled :=
      (\<lambda>e. if e \<in> (!) ?names ` set to then True else rn_enabled (cl_net ?c) e)\<rparr>\<rparr>)"
    by (rule set_client_net) (use assms(4) in \<open>simp_all add: new_names_def\<close>)
  then have "makeClient rnd intn to cfg = Inr (?ck, with_client rnd to rn ends cfg)"
    using o h(1) by (simp add: makeClient_def ConnectClientUnlocked_def Let_def with_client_def)
  with o h show ?thesis by blast
qed

section \<open>Properties\<close>

text \<open>C26. With an odd number of servers (at least three), \<open>make_partition\<close> splits the servers into a majority and
  a minority with the leader in the minority, and \<open>partition\<close> then enables the ends inside the two groups
  and disables those between them.\<close>

theorem partition_isolates_leader:
  assumes "kv_make_config rnd meths rfmeths w n unreliable maxraftstate now = Inr cfg" "odd n" "3 \<le> n"
    "Leader kv_rf getState cfg = Inr (found, l)"
  shows "\<exists>p1 p2 cfg'. make_partition kv_rf getState cfg = Inr (p1, p2) \<and> partition_servers p1 p2 cfg = Inr cfg' \<and>
    set p1 \<union> set p2 = {..<n} \<and> set p1 \<inter> set p2 = {} \<and> length p2 < length p1 \<and> l \<in> set p2 \<and>
    (\<forall>a < n. \<forall>b < n. rn_connections (cl_net cfg') (end_of cfg' a b) = Some b \<and>
       rn_enabled (cl_net cfg') (end_of cfg' a b) = (a \<in> set p1 \<longleftrightarrow> b \<in> set p1))"
proof -
  note K = kv_make_config_connects [OF assms(1)]
  have N: "named n cfg" using K by (simp add: all_connected_def)
  have W: "ends_wf cfg" "ends_inj cfg" using named_wf [of cfg] K N by auto
  have "l < n" using Leader_lt [OF assms(4)] assms(3) K(2) by simp
  then obtain p1 p2 where p: "split_servers n l = Inr (p1, p2)" "length p1 = n div 2 + 1" "length p2 = n div 2" "l \<in> set p2"
    "set p1 \<inter> set p2 = {}" "set p1 \<union> set p2 = {..<n}"
    using split_odd [OF assms(2,3)] by blast
  have "n div 2 + 1 \<le> n" using assms(3) by linarith
  with partition_enabled [OF W p(5)] p K(2) obtain cfg' where c: "partition_servers p1 p2 cfg = Inr cfg'"
    "cl_endnames cfg' = cl_endnames cfg" "rn_connections (cl_net cfg') = rn_connections (cl_net cfg)"
    "\<forall>a b. a < n \<longrightarrow> b < n \<longrightarrow> rn_enabled (cl_net cfg') (end_of cfg a b) = (a \<in> set p1 \<longleftrightarrow> b \<in> set p1)" by auto
  have "end_of cfg' = end_of cfg" using c(2) by (simp add: end_of_def fun_eq_iff)
  moreover have "make_partition kv_rf getState cfg = Inr (p1, p2)" using assms(4) p(1) K(2) by (simp add: make_partition_def)
  moreover have "rn_connections (cl_net cfg) (end_of cfg a b) = Some b" if "a < n" "b < n" for a b
    using N that K(2) by (simp add: named_def)
  ultimately show ?thesis using p c by (metis less_add_one)
qed

theorem partition_isolates_leader_witness:
  "\<exists>cfg :: unit kv_config. \<exists>l p1 p2 cfg'.
     kv_make_config ex_rnd (\<lambda>_. []) (\<lambda>_. []) () 3 False (-1) 0 = Inr cfg \<and> Leader kv_rf (\<lambda>rf. (1, rf_me rf = 2)) cfg = Inr l \<and>
     make_partition kv_rf (\<lambda>rf. (1, rf_me rf = 2)) cfg = Inr (p1, p2) \<and> partition_servers p1 p2 cfg = Inr cfg' \<and> snd l \<in> set p2"
proof -
  have "inj_on (nth_name ex_rnd) {..<3 * 3}" by (rule inj_on_subset [OF ex_rnd_inj]) auto
  from kv_make_config_total [OF this, of "\<lambda>_. []" "\<lambda>_. []" "()" False "-1" 0] obtain cfg :: "unit kv_config" where
    c: "kv_make_config ex_rnd (\<lambda>_. []) (\<lambda>_. []) () 3 False (-1) 0 = Inr cfg" "ready kv_rf ex_rnd 3 3 cfg" by blast
  have "cl_n cfg = 3" using c(2) by (simp add: ready_def)
  moreover have "set [0..<3] \<subseteq> {..<3 :: nat}" by auto
  ultimately obtain b l where l: "Leader kv_rf (\<lambda>rf. (1, rf_me rf = 2)) cfg = Inr (b, l)"
    using Leader_total [OF c(2), of "[0..<3]" "\<lambda>rf. (1, rf_me rf = 2)"] by (auto simp: Leader_def)
  from partition_isolates_leader [OF c(1) _ _ l] c(1) l show ?thesis by auto
qed



text \<open>C28. A new clerk gets every server's end in some order; its end \<open>j\<close> leads to server \<open>j\<close> and is enabled exactly
  when \<open>j\<close> is in \<open>to\<close>, and the ends that existed before do not change.\<close>

theorem makeClient_connects:
  assumes "\<And>i. intn i \<le> i" "inj_on (nth_name rnd) {..<cl_rand cfg + cl_n cfg}"
    "rn_ends (cl_net cfg) \<subseteq> nth_name rnd ` {..<cl_rand cfg}" "set to \<subseteq> {..<cl_n cfg}"
  shows "\<exists>ck cfg' names. makeClient rnd intn to cfg = Inr (ck, cfg') \<and> cl_clerks cfg' ck = Some names \<and>
    length names = cl_n cfg \<and> mset (ck_servers (cl_clerkobjs cfg' ! ck)) = mset names \<and>
    (\<forall>j < cl_n cfg. rn_connections (cl_net cfg') (names ! j) = Some j \<and>
       rn_enabled (cl_net cfg') (names ! j) = (j \<in> set to)) \<and>
    (\<forall>e \<in> rn_ends (cl_net cfg). rn_enabled (cl_net cfg') e = rn_enabled (cl_net cfg) e \<and>
       rn_connections (cl_net cfg') e = rn_connections (cl_net cfg) e)"
proof -
  obtain rn ends where m: "open_ends False (\<lambda>j. j) (client_names rnd cfg) (cl_net cfg) = Inr rn"
    "mset ends = mset (client_names rnd cfg)" "makeClient rnd intn to cfg = Inr (length (cl_clerkobjs cfg), with_client rnd to rn ends cfg)"
    using makeClient_run [OF assms] by blast
  note O = open_ends_Inr [OF m(1)]
  let ?names = "client_names rnd cfg"
  have l: "length ?names = cl_n cfg" by (simp add: new_names_def)
  have "(!) ?names ` set to \<subseteq> set ?names" using assms(4) l by auto
  then have old: "e \<notin> (!) ?names ` set to \<and> e \<notin> set ?names" if "e \<in> rn_ends (cl_net cfg)" for e using that O(2) by auto
  have new: "?names ! j \<in> (!) ?names ` set to \<longleftrightarrow> j \<in> set to" if "j < cl_n cfg" for j
    using that assms(4) O(1) l by (auto simp: nth_eq_iff_index_eq)
  have "\<forall>j < cl_n cfg. rn_connections rn (?names ! j) = Some j \<and>
      (if ?names ! j \<in> (!) ?names ` set to then True else rn_enabled rn (?names ! j)) = (j \<in> set to)"
    using new O(4) l by simp
  then show ?thesis
    using l m(2,3) O(5) old by (auto simp: with_client_def MakeClerk_def simp del: image_iff split del: if_split)
qed

theorem makeClient_connects_witness:
  "\<exists>ck cfg' names. makeClient ex_rnd (\<lambda>i. 0) [1] (new_kv_config () 2 (-1) 0) = Inr (ck, cfg') \<and> cl_clerks cfg' ck = Some names \<and>
     rn_enabled (cl_net cfg') (names ! 1) \<and> \<not> rn_enabled (cl_net cfg') (names ! 0)"
proof -
  let ?c = "new_kv_config () 2 (-1) 0"
  have "inj_on (nth_name ex_rnd) {..<cl_rand ?c + cl_n ?c}"
    by (rule inj_on_subset [OF ex_rnd_inj]) (auto simp: new_kv_config_def)
  moreover have "rn_ends (cl_net ?c) \<subseteq> nth_name ex_rnd ` {..<cl_rand ?c}" by (simp add: new_kv_config_def MakeNetwork_def)
  moreover have "set [1] \<subseteq> {..<cl_n ?c}" "0 < cl_n ?c" "1 < cl_n ?c" by (simp_all add: new_kv_config_def)
  ultimately show ?thesis using makeClient_connects [of "\<lambda>i. 0" ex_rnd ?c "[1]"] by fastforce
qed

end
