(* ===== verification/ShardCtrler.thy ===== *)
theory ShardCtrler
  imports KvHarness
begin

text \<open>
  The shard controller (\<open>src/6.5840/src/shardctrler\<close>): configurations, the server outline, the clerk with its
  four retry loops, and its test harness, which is the harness of theory KvCluster for another server type
  (the two \<open>config.go\<close> files have the same code; where they differ, the definition here is its own).

  A clerk loop asks the servers in turn for as long as none gives an answer it accepts, so it is a partial
  function: \<^term>\<open>None\<close> is a loop that never ends. \<open>call t srv\<close> is the outcome of the \<open>t\<close>-th RPC of the run,
  sent to the end \<open>srv\<close>: \<^term>\<open>None\<close> when \<open>Call\<close> returns false.
\<close>

section \<open>Configurations and messages\<close>

definition NShards :: nat where
  "NShards = 10"

record Config =
  cg_Num :: int
  cg_Shards :: "int list"
  cg_Groups :: "int \<rightharpoonup> string list"

text \<open>The zero value: all shards at the invalid group 0.\<close>

definition zero_Config :: Config where
  "zero_Config = \<lparr>cg_Num = 0, cg_Shards = replicate NShards 0, cg_Groups = Map.empty\<rparr>"

record JoinArgs =
  ja_Servers :: "int \<rightharpoonup> string list"

record LeaveArgs =
  la_GIDs :: "int list"

record MoveArgs =
  ma_Shard :: int
  ma_GID :: int

record QueryArgs =
  qa_Num :: int

record JoinReply =
  jr_WrongLeader :: bool
  jr_Err :: string

record LeaveReply =
  lr_WrongLeader :: bool
  lr_Err :: string

record MoveReply =
  mr_WrongLeader :: bool
  mr_Err :: string

record QueryReply =
  qr_WrongLeader :: bool
  qr_Err :: string
  qr_Config :: Config

section \<open>The server\<close>

record ShardCtrler =
  sc_me :: nat
  sc_rf :: nat
  sc_configs :: "Config list"

definition ShardCtrler_Kill :: "ShardCtrler \<Rightarrow> ShardCtrler" where
  "ShardCtrler_Kill sc = sc"

definition ShardCtrler_Raft :: "ShardCtrler \<Rightarrow> nat" where
  "ShardCtrler_Raft sc = sc_rf sc"

definition StartShardCtrler :: "string list \<Rightarrow> nat \<Rightarrow> nat \<Rightarrow> Persister \<Rightarrow> nat \<Rightarrow> ShardCtrler \<times> Raft" where
  "StartShardCtrler servers me persister ps rf =
     (\<lparr>sc_me = me, sc_rf = rf, sc_configs = [zero_Config\<lparr>cg_Groups := Map.empty\<rparr>]\<rparr>, Make servers me persister ps)"

section \<open>The clerk\<close>

definition sc_MakeClerk :: "string list \<Rightarrow> Clerk" where
  "sc_MakeClerk servers = \<lparr>ck_servers = servers\<rparr>"

text \<open>One round over the known servers; the number of calls made so far is threaded through.\<close>

fun ask_round :: "(nat \<Rightarrow> string \<Rightarrow> 'r option) \<Rightarrow> ('r \<Rightarrow> bool) \<Rightarrow> string list \<Rightarrow> nat \<Rightarrow> 'r option \<times> nat" where
  "ask_round call wrong [] t = (None, t)"
| "ask_round call wrong (srv # servers) t =
     (case call t srv of
        Some reply \<Rightarrow> if \<not> wrong reply then (Some reply, Suc t) else ask_round call wrong servers (Suc t)
      | None \<Rightarrow> ask_round call wrong servers (Suc t))"

partial_function (option) ask_all ::
  "(nat \<Rightarrow> string \<Rightarrow> 'r option) \<Rightarrow> ('r \<Rightarrow> bool) \<Rightarrow> string list \<Rightarrow> nat \<Rightarrow> ('r \<times> nat) option" where
  "ask_all call wrong servers t =
     (case ask_round call wrong servers t of
        (Some reply, t') \<Rightarrow> Some (reply, t')
      | (None, t') \<Rightarrow> ask_all call wrong servers t')"

declare ask_all.simps [code]

definition Query where
  "Query call ck num t =
     (let args = \<lparr>qa_Num = num\<rparr> in
      map_option (\<lambda>(reply, t'). (qr_Config reply, t'))
        (ask_all (\<lambda>t srv. call t srv ''ShardCtrler.Query'' args) qr_WrongLeader (ck_servers ck) t))"

definition Join where
  "Join call ck servers t =
     (let args = \<lparr>ja_Servers = servers\<rparr> in
      map_option snd (ask_all (\<lambda>t srv. call t srv ''ShardCtrler.Join'' args) jr_WrongLeader (ck_servers ck) t))"

definition Leave where
  "Leave call ck gids t =
     (let args = \<lparr>la_GIDs = gids\<rparr> in
      map_option snd (ask_all (\<lambda>t srv. call t srv ''ShardCtrler.Leave'' args) lr_WrongLeader (ck_servers ck) t))"

definition Move where
  "Move call ck shard gid t =
     (let args = \<lparr>ma_Shard = shard, ma_GID = gid\<rparr> in
      map_option snd (ask_all (\<lambda>t srv. call t srv ''ShardCtrler.Move'' args) mr_WrongLeader (ck_servers ck) t))"

section \<open>The harness\<close>

type_synonym 'w ctrler_config = "(ShardCtrler, 'w) cluster"

definition sc_random_handles :: "(nat \<Rightarrow> nat) \<Rightarrow> 'a list \<Rightarrow> 'a list result" where
  "sc_random_handles = random_handles"

definition sc_checkTimeout :: "nat \<Rightarrow> 'w ctrler_config \<Rightarrow> 'w ctrler_config result" where
  "sc_checkTimeout = cl_checkTimeout"

definition sc_cleanup :: "nat \<Rightarrow> 'w ctrler_config \<Rightarrow> 'w ctrler_config result" where
  "sc_cleanup = cl_cleanup sc_rf ShardCtrler_Kill"

definition sc_LogSize :: "'w ctrler_config \<Rightarrow> nat result" where
  "sc_LogSize = cl_LogSize"

definition sc_connectUnlocked :: "nat \<Rightarrow> nat list \<Rightarrow> 'w ctrler_config \<Rightarrow> 'w ctrler_config result" where
  "sc_connectUnlocked = connectUnlocked"

definition sc_connect :: "nat \<Rightarrow> nat list \<Rightarrow> 'w ctrler_config \<Rightarrow> 'w ctrler_config result" where
  "sc_connect i to cfg = sc_connectUnlocked i to cfg"

definition sc_disconnectUnlocked :: "nat \<Rightarrow> nat list \<Rightarrow> 'w ctrler_config \<Rightarrow> 'w ctrler_config result" where
  "sc_disconnectUnlocked = disconnectUnlocked"

definition sc_disconnect :: "nat \<Rightarrow> nat list \<Rightarrow> 'w ctrler_config \<Rightarrow> 'w ctrler_config result" where
  "sc_disconnect i from cfg = sc_disconnectUnlocked i from cfg"

definition sc_All :: "'w ctrler_config \<Rightarrow> nat list" where
  "sc_All = All"

definition sc_ConnectAll :: "'w ctrler_config \<Rightarrow> 'w ctrler_config result" where
  "sc_ConnectAll = ConnectAll"

definition sc_partition :: "nat list \<Rightarrow> nat list \<Rightarrow> 'w ctrler_config \<Rightarrow> 'w ctrler_config result" where
  "sc_partition = partition_servers"

definition sc_makeClient ::
  "(nat \<Rightarrow> nat \<Rightarrow> uint8) \<Rightarrow> (nat \<Rightarrow> nat) \<Rightarrow> nat list \<Rightarrow> 'w ctrler_config \<Rightarrow> (nat \<times> 'w ctrler_config) result" where
  "sc_makeClient = makeClient"

definition sc_deleteClient :: "nat \<Rightarrow> 'w ctrler_config \<Rightarrow> string list \<times> 'w ctrler_config" where
  "sc_deleteClient = deleteClient"

definition sc_ConnectClientUnlocked :: "nat \<Rightarrow> nat list \<Rightarrow> 'w ctrler_config \<Rightarrow> 'w ctrler_config result" where
  "sc_ConnectClientUnlocked = ConnectClientUnlocked"

definition sc_ConnectClient :: "nat \<Rightarrow> nat list \<Rightarrow> 'w ctrler_config \<Rightarrow> 'w ctrler_config result" where
  "sc_ConnectClient ck to cfg = sc_ConnectClientUnlocked ck to cfg"

definition sc_DisconnectClientUnlocked :: "nat \<Rightarrow> nat list \<Rightarrow> 'w ctrler_config \<Rightarrow> 'w ctrler_config result" where
  "sc_DisconnectClientUnlocked = DisconnectClientUnlocked"

definition sc_DisconnectClient :: "nat \<Rightarrow> nat list \<Rightarrow> 'w ctrler_config \<Rightarrow> 'w ctrler_config result" where
  "sc_DisconnectClient ck from cfg = sc_DisconnectClientUnlocked ck from cfg"

definition sc_ShutdownServer :: "nat \<Rightarrow> 'w ctrler_config \<Rightarrow> 'w ctrler_config result" where
  "sc_ShutdownServer = ShutdownServer sc_rf ShardCtrler_Kill"

definition sc_StartServer where
  "sc_StartServer rnd meths rfmeths i (cfg :: 'w ctrler_config) =
     start_server rnd StartShardCtrler ''ShardCtrler'' meths rfmeths i cfg"

text \<open>Unlike the one of the key/value service, this \<open>Leader\<close> skips servers that are not running.\<close>

fun sc_Leader_loop where
  "sc_Leader_loop getState cfg [] = Inr (False, 0)"
| "sc_Leader_loop getState cfg (i # is) =
     result_bind (get_at (cl_servers cfg) i) (\<lambda>sv.
       case sv of
         None \<Rightarrow> sc_Leader_loop getState cfg is
       | Some a \<Rightarrow> result_bind (server_state sc_rf getState cfg a) (\<lambda>(_, is_leader).
           if is_leader then Inr (True, i) else sc_Leader_loop getState cfg is))"

definition sc_Leader :: "(Raft \<Rightarrow> int \<times> bool) \<Rightarrow> 'w ctrler_config \<Rightarrow> (bool \<times> nat) result" where
  "sc_Leader getState cfg = sc_Leader_loop getState cfg [0..<cl_n cfg]"

definition sc_make_partition ::
  "(Raft \<Rightarrow> int \<times> bool) \<Rightarrow> 'w ctrler_config \<Rightarrow> (nat list \<times> nat list) result" where
  "sc_make_partition getState cfg =
     result_bind (sc_Leader getState cfg) (\<lambda>(_, l). split_servers (cl_n cfg) l)"

definition new_ctrler_config :: "'w \<Rightarrow> nat \<Rightarrow> nat \<Rightarrow> 'w ctrler_config" where
  "new_ctrler_config w n now =
     \<lparr>cl_net = MakeNetwork w, cl_n = n, cl_servers = replicate n None, cl_saved = replicate n None,
      cl_endnames = replicate n None, cl_clerks = Map.empty, cl_nextClientId = int n + 1000, cl_start = now,
      cl_failed = False, cl_pers = [], cl_raftobjs = [], cl_srvobjs = [], cl_clerkobjs = [], cl_rand = 0\<rparr>"

definition sc_make_config where
  "sc_make_config rnd meths rfmeths w n unreliable now =
     result_bind (for_each (sc_StartServer rnd meths rfmeths) [0..<n] (new_ctrler_config w n now)) (\<lambda>cfg.
     result_bind (sc_ConnectAll cfg) (\<lambda>cfg.
       Inr (cfg\<lparr>cl_net := Reliable (\<not> unreliable) (cl_net cfg)\<rparr>)))"

text \<open>The controllers' servers keep the contract of the harness, so it starts, and all servers are connected.\<close>

interpretation sc_server: cluster_server StartShardCtrler sc_rf
  by unfold_locales (simp add: StartShardCtrler_def)

lemma sc_make_config_total:
  assumes "inj_on (nth_name rnd) {..<n * n}"
  shows "\<exists>cfg. sc_make_config rnd meths rfmeths w n unreliable now = Inr cfg \<and> all_connected cfg"
proof -
  let ?c0 = "new_ctrler_config w n now"
  have "sc_StartServer rnd meths rfmeths = start_server rnd StartShardCtrler ''ShardCtrler'' meths rfmeths"
    by (simp add: fun_eq_iff sc_StartServer_def)
  moreover have "ready sc_rf rnd n 0 ?c0" by (simp add: ready_def named_def new_ctrler_config_def MakeNetwork_def)
  ultimately obtain c1 where c1: "for_each (sc_StartServer rnd meths rfmeths) [0..<n] ?c0 = Inr c1" "ready sc_rf rnd n n c1"
    using sc_server.start_all [OF assms, of ?c0 "''ShardCtrler''" meths rfmeths] by auto
  then have "named (cl_n c1) c1" by (simp add: ready_def)
  from ConnectAll_connects [OF this] obtain c2 where c2: "ConnectAll c1 = Inr c2" "all_connected c2" by blast
  then have "all_connected (c2\<lparr>cl_net := Reliable (\<not> unreliable) (cl_net c2)\<rparr>)"
    by (simp add: all_connected_def named_net Reliable_def)
  with c1(1) c2(1) show ?thesis by (simp add: sc_make_config_def sc_ConnectAll_def)
qed

section \<open>The retry loop\<close>

text \<open>The \<open>k\<close>-th call of a run that starts with call \<open>t\<close>, and whether its answer ends the loop.\<close>

definition kth_reply :: "(nat \<Rightarrow> string \<Rightarrow> 'r option) \<Rightarrow> string list \<Rightarrow> nat \<Rightarrow> nat \<Rightarrow> 'r option" where
  "kth_reply call servers t k = call (t + k) (servers ! (k mod length servers))"

definition accepted_at :: "(nat \<Rightarrow> string \<Rightarrow> 'r option) \<Rightarrow> ('r \<Rightarrow> bool) \<Rightarrow> string list \<Rightarrow> nat \<Rightarrow> nat \<Rightarrow> bool" where
  "accepted_at call wrong servers t k \<longleftrightarrow> (\<exists>r. kth_reply call servers t k = Some r \<and> \<not> wrong r)"

lemma ask_round_first:
  assumes "k < length servers" "call (t + k) (servers ! k) = Some r" "\<not> wrong r"
    and "\<And>i r. i < k \<Longrightarrow> call (t + i) (servers ! i) = Some r \<Longrightarrow> wrong r"
  shows "ask_round call wrong servers t = (Some r, t + Suc k)"
  using assms
proof (induction servers arbitrary: t k)
  case (Cons s ss)
  show ?case
  proof (cases k)
    case 0
    then show ?thesis using Cons.prems by simp
  next
    case (Suc j)
    have "ask_round call wrong ss (Suc t) = (Some r, Suc t + Suc j)"
    proof (rule Cons.IH)
      show "\<And>i r. i < j \<Longrightarrow> call (Suc t + i) (ss ! i) = Some r \<Longrightarrow> wrong r"
        using Cons.prems(4) [of "Suc i" for i] Suc by simp
    qed (use Cons.prems Suc in simp_all)
    moreover have "case call t s of None \<Rightarrow> True | Some r \<Rightarrow> wrong r"
      using Cons.prems(4) [of 0] Suc by (simp split: option.split)
    ultimately show ?thesis using Suc by (auto split: option.splits)
  qed
qed simp

lemma ask_round_none:
  assumes "\<And>i r. i < length servers \<Longrightarrow> call (t + i) (servers ! i) = Some r \<Longrightarrow> wrong r"
  shows "ask_round call wrong servers t = (None, t + length servers)"
  using assms
proof (induction servers arbitrary: t)
  case (Cons s ss)
  have "ask_round call wrong ss (Suc t) = (None, Suc t + length ss)"
    using Cons.prems [of "Suc i" for i] by (intro Cons.IH) simp
  moreover have "case call t s of None \<Rightarrow> True | Some r \<Rightarrow> wrong r"
    using Cons.prems [of 0] by (simp split: option.split)
  ultimately show ?case by (auto split: option.splits)
qed simp

text \<open>The loop returns the first answer that is accepted.\<close>

lemma ask_all_first:
  assumes "kth_reply call servers t k = Some r" "\<not> wrong r" "\<And>i. i < k \<Longrightarrow> \<not> accepted_at call wrong servers t i" "servers \<noteq> []"
  shows "ask_all call wrong servers t = Some (r, t + Suc k)"
  using assms
proof (induction k arbitrary: t rule: less_induct)
  case (less k)
  let ?n = "length servers"
  show ?case
  proof (cases "k < ?n")
    case True
    have "ask_round call wrong servers t = (Some r, t + Suc k)"
    proof (rule ask_round_first)
      show "\<And>i r. i < k \<Longrightarrow> call (t + i) (servers ! i) = Some r \<Longrightarrow> wrong r"
        using less.prems(3) True by (auto simp: accepted_at_def kth_reply_def)
    qed (use less.prems True in \<open>simp_all add: kth_reply_def\<close>)
    then show ?thesis by (subst ask_all.simps) simp
  next
    case False
    have "ask_round call wrong servers t = (None, t + ?n)"
    proof (rule ask_round_none)
      show "wrong r'" if "i < ?n" "call (t + i) (servers ! i) = Some r'" for i r'
        using less.prems(3) [of i] False that by (auto simp: accepted_at_def kth_reply_def)
    qed
    moreover have shift: "kth_reply call servers (t + ?n) i = kth_reply call servers t (i + ?n)" for i
      by (simp add: kth_reply_def add.commute add.left_commute)
    have "ask_all call wrong servers (t + ?n) = Some (r, t + ?n + Suc (k - ?n))"
    proof (rule less.IH)
      show "k - ?n < k" using False less.prems(4) by (cases servers) auto
      show "kth_reply call servers (t + ?n) (k - ?n) = Some r" using less.prems(1) False by (simp add: shift)
      show "\<not> accepted_at call wrong servers (t + ?n) i" if "i < k - ?n" for i
        using less.prems(3) [of "i + ?n"] that by (simp add: accepted_at_def shift)
    qed (use less.prems in simp_all)
    ultimately show ?thesis using False by (subst ask_all.simps) simp
  qed
qed

text \<open>And a loop that returns has seen an accepted answer.\<close>

lemma ask_round_Some:
  assumes "ask_round call wrong servers t = (Some r, t')"
  shows "\<not> wrong r \<and> (\<exists>k < length servers. call (t + k) (servers ! k) = Some r)"
  using assms
proof (induction servers arbitrary: t)
  case (Cons s ss)
  consider r' where "call t s = Some r'" "\<not> wrong r'" | "ask_round call wrong ss (Suc t) = (Some r, t')"
    using Cons.prems by (auto split: option.splits if_splits)
  then show ?case
  proof cases
    case 1
    then show ?thesis using Cons.prems by (auto intro!: exI [of _ 0])
  next
    case 2
    from Cons.IH [OF this] obtain k where "\<not> wrong r" "k < length ss" "call (Suc t + k) (ss ! k) = Some r" by blast
    then show ?thesis by (intro conjI exI [of _ "Suc k"]) simp_all
  qed
qed simp

lemma ask_round_time: "ask_round call wrong servers t = (None, t') \<Longrightarrow> t' = t + length servers"
proof (induction servers arbitrary: t)
  case (Cons s ss)
  then have "ask_round call wrong ss (Suc t) = (None, t')" by (auto split: option.splits if_splits)
  with Cons.IH show ?case by fastforce
qed simp

lemma kth_reply_shift: "kth_reply call servers (t + length servers) i = kth_reply call servers t (i + length servers)"
  by (simp add: kth_reply_def add.commute add.left_commute)

lemma ask_all_accepted:
  assumes "ask_all call wrong servers t = Some y"
  shows "servers \<noteq> [] \<and> (\<exists>k. accepted_at call wrong servers t k)"
proof (rule ask_all.raw_induct [where P = "\<lambda>call wrong servers t y. servers \<noteq> [] \<and> (\<exists>k. accepted_at call wrong servers t k)", OF _ assms])
  fix ask :: "(nat \<Rightarrow> string \<Rightarrow> 'a option) \<Rightarrow> ('a \<Rightarrow> bool) \<Rightarrow> string list \<Rightarrow> nat \<Rightarrow> ('a \<times> nat) option" and call wrong servers t y
  assume 1: "\<And>call wrong servers t y. ask call wrong servers t = Some y \<Longrightarrow> servers \<noteq> [] \<and> (\<exists>k. accepted_at call wrong servers t k)"
    "(case ask_round call wrong servers t of (None, t') \<Rightarrow> ask call wrong servers t' | (Some reply, t') \<Rightarrow> Some (reply, t')) = Some y"
  obtain q t' where q: "ask_round call wrong servers t = (q, t')" by fastforce
  show "servers \<noteq> [] \<and> (\<exists>k. accepted_at call wrong servers t k)"
  proof (cases q)
    case (Some r)
    with ask_round_Some [of call wrong servers t r t'] q obtain k where
      k: "\<not> wrong r" "k < length servers" "call (t + k) (servers ! k) = Some r" by blast
    then have "accepted_at call wrong servers t k" unfolding accepted_at_def kth_reply_def by simp
    with k(2) show ?thesis by auto
  next
    case None
    with q 1(2) have "ask call wrong servers t' = Some y" by simp
    from 1(1) [OF this] have "servers \<noteq> [] \<and> (\<exists>k. accepted_at call wrong servers t' k)" .
    moreover have "t' = t + length servers" using q None ask_round_time by metis
    ultimately show ?thesis unfolding accepted_at_def by (auto simp: kth_reply_shift)
  qed
qed

lemma ask_all_iff:
  "ask_all call wrong servers t = Some (r, t') \<longleftrightarrow> servers \<noteq> [] \<and>
   (\<exists>k. t' = t + Suc k \<and> kth_reply call servers t k = Some r \<and> \<not> wrong r \<and> (\<forall>i < k. \<not> accepted_at call wrong servers t i))"
  (is "?L \<longleftrightarrow> ?R")
proof
  assume L: ?L
  let ?k = "LEAST k. accepted_at call wrong servers t k"
  from ask_all_accepted [OF L] have "servers \<noteq> []" "accepted_at call wrong servers t ?k" by (auto intro: LeastI)
  moreover have least: "\<not> accepted_at call wrong servers t i" if "i < ?k" for i using that by (rule not_less_Least)
  ultimately obtain r' where r': "kth_reply call servers t ?k = Some r'" "\<not> wrong r'" "servers \<noteq> []"
    unfolding accepted_at_def by blast
  have "ask_all call wrong servers t = Some (r', t + Suc ?k)" by (rule ask_all_first [OF r'(1,2) least r'(3)])
  with L have "r = r'" "t' = t + Suc ?k" by simp_all
  with r' least show ?R by blast
next
  assume ?R
  then obtain k where k: "t' = t + Suc k" "kth_reply call servers t k = Some r" "\<not> wrong r" "servers \<noteq> []"
    "\<And>i. i < k \<Longrightarrow> \<not> accepted_at call wrong servers t i" by blast
  show ?L unfolding k(1) by (rule ask_all_first [OF k(2,3,5,4)])
qed

section \<open>Properties\<close>

text \<open>C29. The clerk's query returns exactly when a call is answered by a server that is not a wrong leader, where
  the \<open>k\<close>-th call goes to server \<open>k mod n\<close>, and it returns the configuration of the first such answer. In
  particular it never returns when every answer is refused, or when the clerk has no servers.\<close>

theorem Query_returns_first_answer:
  fixes call ck num
  defines "reply \<equiv> \<lambda>k. call k (ck_servers ck ! (k mod length (ck_servers ck))) ''ShardCtrler.Query'' \<lparr>qa_Num = num\<rparr>"
  shows "Query call ck num 0 = Some (config, t) \<longleftrightarrow> ck_servers ck \<noteq> [] \<and>
    (\<exists>k r. t = Suc k \<and> reply k = Some r \<and> \<not> qr_WrongLeader r \<and> qr_Config r = config \<and>
       (\<forall>i < k. \<forall>r. reply i = Some r \<longrightarrow> qr_WrongLeader r))"
proof -
  let ?c = "\<lambda>t srv. call t srv ''ShardCtrler.Query'' \<lparr>qa_Num = num\<rparr>"
  have "Query call ck num 0 = Some (config, t) \<longleftrightarrow>
      (\<exists>r. ask_all ?c qr_WrongLeader (ck_servers ck) 0 = Some (r, t) \<and> qr_Config r = config)"
    by (auto simp: Query_def)
  then show ?thesis unfolding ask_all_iff by (auto simp: reply_def kth_reply_def accepted_at_def)
qed

definition ex_ctrler :: "nat \<Rightarrow> string \<Rightarrow> string \<Rightarrow> QueryArgs \<Rightarrow> QueryReply option" where
  "ex_ctrler t srv meth args =
     (if t = 0 then None
      else Some \<lparr>qr_WrongLeader = srv \<noteq> ''c2'', qr_Err = ''OK'', qr_Config = zero_Config\<lparr>cg_Num := 7\<rparr>\<rparr>)"

theorem Query_returns_first_answer_witness:
  "Query ex_ctrler (sc_MakeClerk [''c0'', ''c1'', ''c2'']) (-1) 0 = Some (zero_Config\<lparr>cg_Num := 7\<rparr>, 3)"
proof -
  have "(i < 2) = (i = 0 \<or> i = 1)" for i :: nat by linarith
  then show ?thesis
    unfolding Query_returns_first_answer by (auto simp: sc_MakeClerk_def ex_ctrler_def intro!: exI [of _ 2])
qed

end
