(* ===== verification/ShardKv.thy ===== *)
theory ShardKv
  imports ShardCtrler Strconv
begin

text \<open>
  The sharded key/value service (\<open>src/6.5840/src/shardkv\<close>): the clerk, which asks the group that owns a key's
  shard and the shard controller in turn, the server outline, and the test harness with its replica groups
  and controllers. Servers have names on the network here (\<open>servername\<close>, \<open>ctrlername\<close>).

  The clerk's RPCs go through ends that the harness makes for a server name; \<open>call t name\<close> is the outcome of
  the \<open>t\<close>-th of them, sent to the server of that name, and \<open>query\<close> the controller clerk's \<open>Query(-1)\<close>. As in
  theory ShardCtrler a loop that never ends is \<^term>\<open>None\<close>.
\<close>

section \<open>The clerk\<close>

definition key2shard :: "string \<Rightarrow> nat" where
  "key2shard key = (let shard = (if length key > 0 then of_char (key ! 0) else 0) in shard mod NShards)"

record GetArgs =
  ga_Key :: string

record GetReply =
  gr_Err :: string
  gr_Value :: string

record PutAppendArgs =
  pa_Key :: string
  pa_Value :: string
  pa_Op :: string

record PutAppendReply =
  pr_Err :: string

record ShardClerk =
  sk_sm :: Clerk
  sk_config :: Config

definition MakeShardClerk :: "string list \<Rightarrow> ShardClerk" where
  "MakeShardClerk ctrlers = \<lparr>sk_sm = sc_MakeClerk ctrlers, sk_config = zero_Config\<rparr>"

text \<open>The servers of a group in turn: \<open>good\<close> answers end the loop of the clerk, \<open>stale\<close> ones this round.\<close>

fun try_group ::
  "(nat \<Rightarrow> string \<Rightarrow> 'r option) \<Rightarrow> ('r \<Rightarrow> bool) \<Rightarrow> ('r \<Rightarrow> bool) \<Rightarrow> string list \<Rightarrow> nat \<Rightarrow> 'r option \<times> nat" where
  "try_group call good stale [] t = (None, t)"
| "try_group call good stale (srv # servers) t =
     (case call t srv of
        Some reply \<Rightarrow>
          if good reply then (Some reply, Suc t)
          else if stale reply then (None, Suc t)
          else try_group call good stale servers (Suc t)
      | None \<Rightarrow> try_group call good stale servers (Suc t))"

definition shard_round where
  "shard_round call good stale shard config t =
     (let gid = cg_Shards config ! shard in
      case cg_Groups config gid of
        Some servers \<Rightarrow> try_group call good stale servers t
      | None \<Rightarrow> (None, t))"

partial_function (option) shard_loop ::
  "(nat \<Rightarrow> string \<Rightarrow> 'r option) \<Rightarrow> ('r \<Rightarrow> bool) \<Rightarrow> ('r \<Rightarrow> bool) \<Rightarrow> (nat \<Rightarrow> (Config \<times> nat) option) \<Rightarrow> nat \<Rightarrow>
   Config \<Rightarrow> nat \<Rightarrow> ('r \<times> Config \<times> nat) option" where
  "shard_loop call good stale query shard config t =
     (case shard_round call good stale shard config t of
        (Some reply, t') \<Rightarrow> Some (reply, config, t')
      | (None, t') \<Rightarrow> do { (config', t'') \<leftarrow> query t'; shard_loop call good stale query shard config' t'' })"

declare shard_loop.simps [code]

definition Get where
  "Get call query ck key t =
     (let args = \<lparr>ga_Key = key\<rparr> in
      map_option (\<lambda>(reply, config, t'). (gr_Value reply, ck\<lparr>sk_config := config\<rparr>, t'))
        (shard_loop (\<lambda>t srv. call t srv ''ShardKV.Get'' args)
           (\<lambda>reply. gr_Err reply = ''OK'' \<or> gr_Err reply = ''ErrNoKey'') (\<lambda>reply. gr_Err reply = ''ErrWrongGroup'')
           query (key2shard key) (sk_config ck) t))"

definition PutAppend where
  "PutAppend call query ck key val opn t =
     (let args = \<lparr>pa_Key = key, pa_Value = val, pa_Op = opn\<rparr> in
      map_option (\<lambda>(reply, config, t'). (ck\<lparr>sk_config := config\<rparr>, t'))
        (shard_loop (\<lambda>t srv. call t srv ''ShardKV.PutAppend'' args)
           (\<lambda>reply. pr_Err reply = ''OK'') (\<lambda>reply. pr_Err reply = ''ErrWrongGroup'')
           query (key2shard key) (sk_config ck) t))"

definition Put where
  "Put call query ck key val t = PutAppend call query ck key val ''Put'' t"

definition Append where
  "Append call query ck key val t = PutAppend call query ck key val ''Append'' t"

section \<open>The server\<close>

record ShardKV =
  sv_me :: nat
  sv_rf :: nat
  sv_gid :: int
  sv_ctrlers :: "string list"
  sv_maxraftstate :: int

definition ShardKV_Kill :: "ShardKV \<Rightarrow> ShardKV" where
  "ShardKV_Kill kv = kv"


section \<open>Names\<close>

definition ctrlername :: "nat \<Rightarrow> string" where
  "ctrlername i = ''ctrler'' @ Itoa (int i)"

definition servername :: "int \<Rightarrow> nat \<Rightarrow> string" where
  "servername gid i = ''server-'' @ Itoa gid @ ''-'' @ Itoa (int i)"

section \<open>The harness\<close>

record group =
  gg_gid :: int
  gg_servers :: "nat option list"
  gg_saved :: "nat option list"
  gg_endnames :: "string list option list"
  gg_mendnames :: "string list option list"

record 'w skv_config =
  sh_net :: "(string, string, 'w) Network"
  sh_start :: nat
  sh_failed :: bool
  sh_nctrlers :: nat
  sh_ctrlerservers :: "nat option list"
  sh_mck :: Clerk
  sh_ngroups :: nat
  sh_n :: nat
  sh_groups :: "group list"
  sh_clerks :: "nat \<rightharpoonup> string list"
  sh_nextClientId :: int
  sh_maxraftstate :: int
  sh_pers :: "Persister list"
  sh_raftobjs :: "Raft list"
  sh_kvobjs :: "ShardKV list"
  sh_ctrlobjs :: "ShardCtrler list"
  sh_clerkobjs :: "ShardClerk list"
  sh_rand :: nat

definition skv_checkTimeout :: "nat \<Rightarrow> 'w skv_config \<Rightarrow> 'w skv_config result" where
  "skv_checkTimeout now cfg = (if \<not> sh_failed cfg \<and> now - sh_start cfg > 120 * 1000 then Inl Fatal else Inr cfg)"

definition checklogs :: "'w skv_config \<Rightarrow> 'w skv_config result" where
  "checklogs cfg =
     for_each (\<lambda>gi. for_each (\<lambda>i cfg.
         result_bind (get_at (sh_groups cfg) gi) (\<lambda>gg.
         result_bind (get_at (gg_saved gg) i) (\<lambda>sv.
         result_bind (deref sv) (\<lambda>a.
         result_bind (get_at (sh_pers cfg) a) (\<lambda>ps.
           let raft = RaftStateSize ps; snap = slice_len (ReadSnapshot ps) in
           if sh_maxraftstate cfg \<ge> 0 \<and> int raft > 8 * sh_maxraftstate cfg then Inl Fatal
           else if sh_maxraftstate cfg < 0 \<and> snap > 0 then Inl Fatal
           else Inr cfg)))))
       [0..<sh_n cfg]) [0..<sh_ngroups cfg] cfg"

text \<open>New enabled ends to the servers \<open>to 0\<close>, \<open>to 1\<close>, ...: their names and the harness.\<close>

definition draw_ends ::
  "(nat \<Rightarrow> nat \<Rightarrow> uint8) \<Rightarrow> nat \<Rightarrow> (nat \<Rightarrow> string) \<Rightarrow> 'w skv_config \<Rightarrow> (string list \<times> 'w skv_config) result" where
  "draw_ends rnd k to cfg =
     (let names = new_names rnd (sh_rand cfg) k in
      result_bind (open_ends True to names (sh_net cfg)) (\<lambda>rn.
        Inr (names, cfg\<lparr>sh_net := rn, sh_rand := sh_rand cfg + k\<rparr>)))"

text \<open>The function that clerks and servers get to reach a server by its name.\<close>

definition make_end ::
  "(nat \<Rightarrow> nat \<Rightarrow> uint8) \<Rightarrow> string \<Rightarrow> 'w skv_config \<Rightarrow> (string \<times> 'w skv_config) result" where
  "make_end rnd name cfg =
     result_bind (draw_ends rnd 1 (\<lambda>_. name) cfg) (\<lambda>(names, cfg). Inr (names ! 0, cfg))"


definition skv_deleteClient :: "nat \<Rightarrow> 'w skv_config \<Rightarrow> string list \<times> 'w skv_config" where
  "skv_deleteClient ck cfg =
     (case sh_clerks cfg ck of None \<Rightarrow> [] | Some v \<Rightarrow> v, cfg\<lparr>sh_clerks := (sh_clerks cfg)(ck := None)\<rparr>)"

definition disable_names :: "string list \<Rightarrow> 'w skv_config \<Rightarrow> 'w skv_config" where
  "disable_names names cfg = cfg\<lparr>sh_net := fold (\<lambda>name rn. Enable name False rn) names (sh_net cfg)\<rparr>"

definition set_group :: "nat \<Rightarrow> group \<Rightarrow> 'w skv_config \<Rightarrow> 'w skv_config" where
  "set_group gi gg cfg = cfg\<lparr>sh_groups := (sh_groups cfg)[gi := gg]\<rparr>"

definition isolate :: "group \<Rightarrow> nat \<Rightarrow> 'w skv_config \<Rightarrow> 'w skv_config result" where
  "isolate gg i cfg =
     result_bind (for_each (\<lambda>j cfg.
         result_bind (get_at (gg_endnames gg) i) (\<lambda>names.
         result_bind (deref names) (\<lambda>names.
         result_bind (get_at names j) (\<lambda>name.
           Inr (cfg\<lparr>sh_net := Enable name False (sh_net cfg)\<rparr>)))))
       [0..<length (gg_servers gg)] cfg) (\<lambda>cfg.
     result_bind (get_at (gg_mendnames gg) i) (\<lambda>names.
       Inr (disable_names (case names of None \<Rightarrow> [] | Some ns \<Rightarrow> ns) cfg)))"

definition skv_copy_persister :: "nat \<Rightarrow> nat \<Rightarrow> 'w skv_config \<Rightarrow> 'w skv_config result" where
  "skv_copy_persister gi i cfg =
     result_bind (get_at (sh_groups cfg) gi) (\<lambda>gg.
     result_bind (get_at (gg_saved gg) i) (\<lambda>sv.
       case sv of
         None \<Rightarrow> Inr cfg
       | Some a \<Rightarrow> result_bind (get_at (sh_pers cfg) a) (\<lambda>ps.
           Inr (set_group gi (gg\<lparr>gg_saved := (gg_saved gg)[i := Some (length (sh_pers cfg))]\<rparr>)
             (cfg\<lparr>sh_pers := sh_pers cfg @ [Persister_Copy ps]\<rparr>)))))"

definition kill_shardkv :: "nat \<Rightarrow> 'w skv_config \<Rightarrow> 'w skv_config result" where
  "kill_shardkv a cfg =
     result_bind (get_at (sh_kvobjs cfg) a) (\<lambda>kv.
     result_bind (get_at (sh_raftobjs cfg) (sv_rf kv)) (\<lambda>rf.
       Inr (cfg\<lparr>sh_kvobjs := (sh_kvobjs cfg)[a := ShardKV_Kill kv],
                sh_raftobjs := (sh_raftobjs cfg)[sv_rf kv := Raft_Kill rf]\<rparr>)))"

definition skv_ShutdownServer :: "nat \<Rightarrow> nat \<Rightarrow> 'w skv_config \<Rightarrow> 'w skv_config result" where
  "skv_ShutdownServer gi i cfg =
     result_bind (get_at (sh_groups cfg) gi) (\<lambda>gg.
     result_bind (isolate gg i cfg) (\<lambda>cfg.
     result_bind (skv_copy_persister gi i (cfg\<lparr>sh_net := DeleteServer (servername (gg_gid gg) i) (sh_net cfg)\<rparr>)) (\<lambda>cfg.
     result_bind (get_at (sh_groups cfg) gi) (\<lambda>gg.
     result_bind (get_at (gg_servers gg) i) (\<lambda>kv.
       case kv of
         None \<Rightarrow> Inr cfg
       | Some a \<Rightarrow> result_bind (kill_shardkv a cfg) (\<lambda>cfg.
           Inr (set_group gi (gg\<lparr>gg_servers := (gg_servers gg)[i := None]\<rparr>) cfg)))))))"

definition ShutdownGroup :: "nat \<Rightarrow> 'w skv_config \<Rightarrow> 'w skv_config result" where
  "ShutdownGroup gi cfg = for_each (skv_ShutdownServer gi) [0..<sh_n cfg] cfg"







definition group_map :: "nat list \<Rightarrow> 'w skv_config \<Rightarrow> (int \<rightharpoonup> string list) result" where
  "group_map gis cfg =
     for_each (\<lambda>g m.
         result_bind (get_at (sh_groups cfg) g) (\<lambda>gg.
           Inr (m(gg_gid gg \<mapsto> map (servername (gg_gid gg)) [0..<sh_n cfg])))) gis Map.empty"

definition joinm where
  "joinm call gis cfg t = result_bind (group_map gis cfg) (\<lambda>m. Inr (Join call (sh_mck cfg) m t))"

definition join where
  "join call gi cfg t = joinm call [gi] cfg t"

definition group_ids :: "nat list \<Rightarrow> 'w skv_config \<Rightarrow> int list result" where
  "group_ids gis cfg =
     for_each (\<lambda>g gids. result_bind (get_at (sh_groups cfg) g) (\<lambda>gg. Inr (gids @ [gg_gid gg]))) gis []"

definition leavem where
  "leavem call gis cfg t = result_bind (group_ids gis cfg) (\<lambda>gids. Inr (Leave call (sh_mck cfg) gids t))"

definition leave where
  "leave call gi cfg t = leavem call [gi] cfg t"

definition skv_cleanup :: "nat \<Rightarrow> 'w skv_config \<Rightarrow> 'w skv_config result" where
  "skv_cleanup now cfg =
     result_bind (for_each ShutdownGroup [0..<sh_ngroups cfg] cfg) (\<lambda>cfg.
     result_bind (for_each (\<lambda>i cfg.
         result_bind (get_at (sh_ctrlerservers cfg) i) (\<lambda>sv.
         result_bind (deref sv) (\<lambda>a.
         result_bind (get_at (sh_ctrlobjs cfg) a) (\<lambda>sc.
         result_bind (get_at (sh_raftobjs cfg) (sc_rf sc)) (\<lambda>rf.
           Inr (cfg\<lparr>sh_raftobjs := (sh_raftobjs cfg)[sc_rf sc := Raft_Kill rf]\<rparr>))))))
       [0..<sh_nctrlers cfg] cfg) (\<lambda>cfg.
     result_bind (Cleanup (sh_net cfg)) (\<lambda>rn.
       skv_checkTimeout now (cfg\<lparr>sh_net := rn\<rparr>))))"





section \<open>Distinct names\<close>

lemma servername_inj:
  assumes "0 \<le> gid" "0 \<le> gid'" "servername gid i = servername gid' i'"
  shows "gid = gid' \<and> i = i'"
proof -
  let ?d = "\<lambda>c. c \<noteq> CHR ''-''"
  have split: "takeWhile ?d (decimal a @ CHR ''-'' # decimal b) = decimal a"
    "dropWhile ?d (decimal a @ CHR ''-'' # decimal b) = CHR ''-'' # decimal b" for a b
    using no_dash [of a] by (auto simp: takeWhile_append dropWhile_append)
  have e: "decimal (nat gid) @ CHR ''-'' # decimal i = decimal (nat gid') @ CHR ''-'' # decimal i'"
    using assms by (simp add: servername_def Itoa_def)
  have "decimal (nat gid) = decimal (nat gid')" using arg_cong [OF e, of "takeWhile ?d"] by (simp only: split)
  moreover have "decimal i = decimal i'" using arg_cong [OF e, of "dropWhile ?d"] by (simp only: split list.inject)
  ultimately show ?thesis using assms(1,2) by (simp add: decimal_inj)
qed

section \<open>The number of servers\<close>










section \<open>The loop of the clerk\<close>

text \<open>The answer that ends a round: the first that is good or stale, if it is good.\<close>

definition skipped :: "(nat \<Rightarrow> string \<Rightarrow> 'r option) \<Rightarrow> ('r \<Rightarrow> bool) \<Rightarrow> ('r \<Rightarrow> bool) \<Rightarrow> string list \<Rightarrow> nat \<Rightarrow> nat \<Rightarrow> bool" where
  "skipped call good stale servers t i \<longleftrightarrow> (\<forall>r. call (t + i) (servers ! i) = Some r \<longrightarrow> \<not> good r \<and> \<not> stale r)"

definition answers_at where
  "answers_at call good stale servers t r t' si \<longleftrightarrow>
     call (t + si) (servers ! si) = Some r \<and> good r \<and> t' = t + Suc si \<and> (\<forall>i < si. skipped call good stale servers t i)"

lemma answers_at_Suc:
  "answers_at call good stale (s # ss) t r t' (Suc si) \<longleftrightarrow>
   skipped call good stale (s # ss) t 0 \<and> answers_at call good stale ss (Suc t) r t' si"
proof -
  have "skipped call good stale (s # ss) t (Suc i) \<longleftrightarrow> skipped call good stale ss (Suc t) i" for i
    by (simp add: skipped_def)
  then show ?thesis unfolding answers_at_def All_less_Suc2 by auto
qed

lemma try_group_Some_iff:
  "try_group call good stale servers t = (Some r, t') \<longleftrightarrow>
   (\<exists>si < length servers. answers_at call good stale servers t r t' si)"
proof (induction servers arbitrary: t)
  case (Cons s ss)
  have 0: "answers_at call good stale (s # ss) t r t' 0 \<longleftrightarrow> call t s = Some r \<and> good r \<and> t' = Suc t"
    by (simp add: answers_at_def)
  have ex: "(\<exists>si < length (s # ss). answers_at call good stale (s # ss) t r t' si) \<longleftrightarrow>
      call t s = Some r \<and> good r \<and> t' = Suc t \<or>
      skipped call good stale (s # ss) t 0 \<and> try_group call good stale ss (Suc t) = (Some r, t')"
    unfolding length_Cons Ex_less_Suc2 answers_at_Suc 0 Cons.IH by blast
  show ?case unfolding ex by (cases "call t s") (auto simp: skipped_def)
qed simp

text \<open>The configuration and the time at the start of the \<open>j\<close>-th round, if it is reached.\<close>

fun nth_round where
  "nth_round call good stale query shard config t 0 = Some (config, t)"
| "nth_round call good stale query shard config t (Suc j) =
     (case shard_round call good stale shard config t of
        (Some reply, t') \<Rightarrow> None
      | (None, t') \<Rightarrow> do { (config', t'') \<leftarrow> query t'; nth_round call good stale query shard config' t'' j })"

lemma shard_loop_reached:
  assumes "nth_round call good stale query shard config t j = Some (c, t1)" "shard_round call good stale shard c t1 = (Some r, t')"
  shows "shard_loop call good stale query shard config t = Some (r, c, t')"
  using assms(1)
proof (induction j arbitrary: config t)
  case 0
  then show ?case using assms(2) by (subst shard_loop.simps) simp
next
  case (Suc j)
  then obtain t0 config' t'' where "shard_round call good stale shard config t = (None, t0)" "query t0 = Some (config', t'')"
    "nth_round call good stale query shard config' t'' j = Some (c, t1)"
    by (auto split: prod.splits option.splits bind_splits)
  with Suc.IH show ?case by (subst shard_loop.simps) simp
qed

lemma shard_loop_rounds:
  assumes "shard_loop call good stale query shard config t = Some y"
  shows "\<exists>j c t1 r t'. y = (r, c, t') \<and> nth_round call good stale query shard config t j = Some (c, t1) \<and>
    shard_round call good stale shard c t1 = (Some r, t')"
proof (rule shard_loop.raw_induct [where P = "\<lambda>call good stale query shard config t y. \<exists>j c t1 r t'. y = (r, c, t') \<and>
    nth_round call good stale query shard config t j = Some (c, t1) \<and> shard_round call good stale shard c t1 = (Some r, t')", OF _ assms], goal_cases)
  case (1 loop call good stale query shard config t y)
  obtain q t0 where q: "shard_round call good stale shard config t = (q, t0)" by fastforce
  show ?case
  proof (cases q)
    case (Some r)
    with 1(2) q have "y = (r, config, t0)" by simp
    with q Some show ?thesis by (intro exI [of _ "0 :: nat"]) simp
  next
    case None
    with 1(2) q obtain config' t'' where "query t0 = Some (config', t'')" "loop call good stale query shard config' t'' = Some y"
      by (auto split: bind_splits)
    with 1(1) [of call good stale query shard config' t'' y] obtain j c t1 r t' where
      "y = (r, c, t')" "nth_round call good stale query shard config' t'' j = Some (c, t1)"
      "shard_round call good stale shard c t1 = (Some r, t')" by blast
    with q None \<open>query t0 = _\<close> show ?thesis by (intro exI [of _ "Suc j"]) auto
  qed
qed

lemma shard_loop_iff:
  "shard_loop call good stale query shard config t = Some (r, c, t') \<longleftrightarrow>
   (\<exists>j t1. nth_round call good stale query shard config t j = Some (c, t1) \<and> shard_round call good stale shard c t1 = (Some r, t'))"
  (is "?L \<longleftrightarrow> ?R")
proof
  show ?R if ?L using shard_loop_rounds [OF that] by blast
qed (auto intro: shard_loop_reached)

lemma shard_round_iff:
  "shard_round call good stale shard c t1 = (Some r, t') \<longleftrightarrow>
   (\<exists>servers si. cg_Groups c (cg_Shards c ! shard) = Some servers \<and> si < length servers \<and> answers_at call good stale servers t1 r t' si)"
  by (auto simp: shard_round_def Let_def try_group_Some_iff split: option.split)

section \<open>Properties\<close>

text \<open>C30. A clerk's \<open>Get\<close> returns a value exactly when in some round (each round asks the group that owns the key's
  shard in the configuration the controller gave last) a server of that group answers with it, OK or with no
  such key, after answers of the group's earlier servers that neither are such nor say that the group is
  wrong; the clerk then keeps that configuration.\<close>

theorem Get_asks_owner:
  fixes call query ck key t
  defines "rpc \<equiv> \<lambda>t srv. call t srv ''ShardKV.Get'' \<lparr>ga_Key = key\<rparr>"
    and "good \<equiv> \<lambda>r. gr_Err r = ''OK'' \<or> gr_Err r = ''ErrNoKey''" and "stale \<equiv> \<lambda>r. gr_Err r = ''ErrWrongGroup''"
  shows "Get call query ck key t = Some (v, ck', t') \<longleftrightarrow>
    (\<exists>j config t1 servers si r. nth_round rpc good stale query (key2shard key) (sk_config ck) t j = Some (config, t1) \<and>
       cg_Groups config (cg_Shards config ! key2shard key) = Some servers \<and> si < length servers \<and>
       rpc (t1 + si) (servers ! si) = Some r \<and> good r \<and> v = gr_Value r \<and>
       ck' = ck\<lparr>sk_config := config\<rparr> \<and> t' = t1 + Suc si \<and>
       (\<forall>i < si. \<forall>r. rpc (t1 + i) (servers ! i) = Some r \<longrightarrow> \<not> good r \<and> \<not> stale r))"
proof -
  have "Get call query ck key t = Some (v, ck', t') \<longleftrightarrow>
      (\<exists>r config. shard_loop rpc good stale query (key2shard key) (sk_config ck) t = Some (r, config, t') \<and>
         v = gr_Value r \<and> ck' = ck\<lparr>sk_config := config\<rparr>)"
    by (auto simp: Get_def Let_def rpc_def good_def stale_def)
  also have "\<dots> \<longleftrightarrow> (\<exists>r config j t1 servers si. v = gr_Value r \<and> ck' = ck\<lparr>sk_config := config\<rparr> \<and>
      nth_round rpc good stale query (key2shard key) (sk_config ck) t j = Some (config, t1) \<and>
      cg_Groups config (cg_Shards config ! key2shard key) = Some servers \<and> si < length servers \<and>
      answers_at rpc good stale servers t1 r t' si)"
    unfolding shard_loop_iff shard_round_iff by blast
  finally show ?thesis unfolding answers_at_def skipped_def by blast
qed

definition ex_shards :: Config where
  "ex_shards = \<lparr>cg_Num = 1, cg_Shards = replicate NShards 100, cg_Groups = [100 \<mapsto> [''server-100-0'', ''server-100-1'']]\<rparr>"

definition ex_group :: "nat \<Rightarrow> string \<Rightarrow> string \<Rightarrow> GetArgs \<Rightarrow> GetReply option" where
  "ex_group t srv meth args =
     (if srv = ''server-100-1'' then Some \<lparr>gr_Err = ''OK'', gr_Value = ga_Key args @ ''!''\<rparr>
      else Some \<lparr>gr_Err = ''ErrWrongLeader'', gr_Value = ''''\<rparr>)"

theorem Get_asks_owner_witness:
  "Get ex_group (\<lambda>t. Some (ex_shards, t)) (MakeShardClerk []) ''k'' 0 =
     Some (''k!'', (MakeShardClerk [])\<lparr>sk_config := ex_shards\<rparr>, 2)"
  unfolding Get_asks_owner
  by (rule exI [of _ 1], rule exI [of _ ex_shards], rule exI [of _ 0], rule exI [of _ "[''server-100-0'', ''server-100-1'']"],
      rule exI [of _ 1], rule exI [of _ "\<lparr>gr_Err = ''OK'', gr_Value = ''k!''\<rparr>"])
    (simp add: shard_round_def MakeShardClerk_def zero_Config_def ex_shards_def ex_group_def key2shard_def NShards_def)

text \<open>C31. The servers of the groups and the controllers have different names on the network.\<close>

theorem server_names_distinct:
  assumes "0 \<le> gid" "0 \<le> gid'"
  shows "(servername gid i = servername gid' i' \<longleftrightarrow> gid = gid' \<and> i = i') \<and> (ctrlername k = ctrlername k' \<longleftrightarrow> k = k') \<and>
    servername gid i \<noteq> ctrlername k"
proof -
  have "ctrlername k = ctrlername k' \<longleftrightarrow> k = k'" by (simp add: ctrlername_def Itoa_def decimal_inj)
  moreover have "servername gid i \<noteq> ctrlername k" by (simp add: servername_def ctrlername_def)
  ultimately show ?thesis using servername_inj [OF assms] by blast
qed

theorem server_names_distinct_witness: "servername 1 11 \<noteq> servername 11 1 \<and> servername 100 0 \<noteq> ctrlername 0"
  using server_names_distinct [of 1 11 11 1 0 0] server_names_distinct [of 100 100 0 0 0 0] by simp



end
