(* ===== verification/Gnet.thy ===== *)
theory Gnet
  imports Prelude Strconv "HOL-Library.AList"
begin

text \<open>
  The TCP server \<open>src/go-server\<close>: messages and their packets (\<open>gnet/msg.go\<close>, \<open>gnet/msg_serializer.go\<close>), routes and
  the worker pool (\<open>gnet/route.go\<close>, \<open>gnet/req.go\<close>, \<open>gnet/req_handler.go\<close>), connections (\<open>gnet/conn.go\<close>), the
  connection manager with its lock (\<open>gnet/conn_man.go\<close>), the server (\<open>gnet/server.go\<close>), the configuration
  (\<open>global/global.go\<close>) and the application of \<open>main.go\<close>.

  What a socket delivers is the list of bytes that arrives before the end of the stream. A handler acts on the
  connection of its request, so a route holds functions on connections. Connections live at addresses of a
  heap. An operation that may wait for ever returns an option: \<^term>\<open>None\<close> is a goroutine that never goes on.
\<close>

section \<open>Configuration\<close>

record conf =
  gc_Name :: string
  gc_Ver :: string
  gc_HostIp :: string
  gc_Port :: int
  gc_MaxConnNum :: nat
  gc_MaxPacketSize :: uint32
  gc_WorkerPoolSize :: uint32
  gc_ReqChanLen :: uint32
  gc_UseMsgSerializer :: bool

definition default_conf :: conf where
  "default_conf =
     \<lparr>gc_Name = ''Proxy'', gc_Ver = ''1.0'', gc_HostIp = ''0.0.0.0'', gc_Port = 8080, gc_MaxConnNum = 1024,
      gc_MaxPacketSize = 4096, gc_WorkerPoolSize = 10, gc_ReqChanLen = 1024, gc_UseMsgSerializer = True\<rparr>"

section \<open>Messages and packets\<close>

record Msg =
  msg_Len :: uint32
  msg_Id :: uint32
  msg_Data :: bytes

definition NewMsg :: "uint32 \<Rightarrow> bytes \<Rightarrow> Msg" where
  "NewMsg ident data = \<lparr>msg_Len = of_nat (length data), msg_Id = ident, msg_Data = data\<rparr>"

definition Msg_GetLen :: "Msg \<Rightarrow> uint32" where
  "Msg_GetLen msg = msg_Len msg"

definition Msg_GetId :: "Msg \<Rightarrow> uint32" where
  "Msg_GetId msg = msg_Id msg"

definition Msg_GetData :: "Msg \<Rightarrow> bytes" where
  "Msg_GetData msg = msg_Data msg"

definition Msg_SetLen :: "uint32 \<Rightarrow> Msg \<Rightarrow> Msg" where
  "Msg_SetLen len msg = msg\<lparr>msg_Len := len\<rparr>"

definition Msg_SetId :: "uint32 \<Rightarrow> Msg \<Rightarrow> Msg" where
  "Msg_SetId ident msg = msg\<lparr>msg_Id := ident\<rparr>"

definition Msg_SetData :: "bytes \<Rightarrow> Msg \<Rightarrow> Msg" where
  "Msg_SetData data msg = msg\<lparr>msg_Data := data\<rparr>"

lemmas Msg_methods = Msg_GetLen_def Msg_GetId_def Msg_GetData_def Msg_SetLen_def Msg_SetId_def Msg_SetData_def

text \<open>\<open>encoding/binary\<close> with \<open>LittleEndian\<close>.\<close>

definition put_u32 :: "uint32 \<Rightarrow> bytes" where
  "put_u32 w = [ucast w, ucast (drop_bit 8 w), ucast (drop_bit 16 w), ucast (drop_bit 24 w)]"

definition get_u32 :: "bytes \<Rightarrow> uint32" where
  "get_u32 b = ucast (b ! 0) OR push_bit 8 (ucast (b ! 1)) OR push_bit 16 (ucast (b ! 2)) OR push_bit 24 (ucast (b ! 3))"

text \<open>\<open>binary.Read\<close> of a \<open>uint32\<close>: the number and the rest of the reader.\<close>

definition read_u32 :: "bytes \<Rightarrow> (uint32 \<times> bytes) option" where
  "read_u32 r = (if length r < 4 then None else Some (get_u32 (take 4 r), drop 4 r))"

datatype unpack_error = ReadError | PacketOverflow uint32

definition GetHeadLen :: uint32 where
  "GetHeadLen = 8"

definition Pack :: "Msg \<Rightarrow> bytes" where
  "Pack msg = put_u32 (Msg_GetLen msg) @ put_u32 (Msg_GetId msg) @ Msg_GetData msg"

definition Unpack :: "conf \<Rightarrow> bytes \<Rightarrow> unpack_error + Msg" where
  "Unpack cf packet =
     (case read_u32 packet of
        None \<Rightarrow> Inl ReadError
      | Some (len, reader) \<Rightarrow>
          (case read_u32 reader of
             None \<Rightarrow> Inl ReadError
           | Some (ident, reader) \<Rightarrow>
               if len > gc_MaxPacketSize cf then Inl (PacketOverflow len)
               else Inr \<lparr>msg_Len = len, msg_Id = ident, msg_Data = []\<rparr>))"

section \<open>Connections\<close>

record Conn =
  cn_Id :: uint32
  cn_isClosed :: bool
  cn_propDict :: "string \<rightharpoonup> string"
  cn_sent :: "bytes list"
  cn_signals :: nat
  cn_socketClosed :: bool
  cn_chansClosed :: bool

definition new_conn :: "uint32 \<Rightarrow> Conn" where
  "new_conn ident =
     \<lparr>cn_Id = ident, cn_isClosed = False, cn_propDict = Map.empty, cn_sent = [], cn_signals = 0, cn_socketClosed = False,
      cn_chansClosed = False\<rparr>"

definition Conn_GetId :: "Conn \<Rightarrow> uint32" where
  "Conn_GetId conn = cn_Id conn"

text \<open>The error, if any, and the connection; the writer gets the packets of \<open>cn_sent\<close> in their order.\<close>

definition SendPacket :: "uint32 \<Rightarrow> bytes \<Rightarrow> Conn \<Rightarrow> string option \<times> Conn" where
  "SendPacket msgId msgData conn =
     (if cn_isClosed conn then (Some (''connection Id='' @ decimal (unat msgId) @ '' closed''), conn)
      else let msg = NewMsg msgId msgData; packet = Pack msg in
        (None, conn\<lparr>cn_sent := cn_sent conn @ [packet]\<rparr>))"

definition SetProp :: "string \<Rightarrow> string \<Rightarrow> Conn \<Rightarrow> Conn" where
  "SetProp key val conn = conn\<lparr>cn_propDict := (cn_propDict conn)(key \<mapsto> val)\<rparr>"

definition GetProp :: "string \<Rightarrow> Conn \<Rightarrow> string option" where
  "GetProp key conn = cn_propDict conn key"

definition DelProp :: "string \<Rightarrow> Conn \<Rightarrow> Conn" where
  "DelProp key conn = conn\<lparr>cn_propDict := (cn_propDict conn)(key := None)\<rparr>"

text \<open>\<open>io.ReadFull\<close>: the bytes and what is left of the stream.\<close>

definition ReadFull :: "nat \<Rightarrow> bytes \<Rightarrow> (bytes \<times> bytes) option" where
  "ReadFull n stream = (if length stream < n then None else Some (take n stream, drop n stream))"

text \<open>One turn of the reader: a message with its data and the rest of the stream, or the end of the loop.\<close>

definition read_msg :: "conf \<Rightarrow> bytes \<Rightarrow> (Msg \<times> bytes) option" where
  "read_msg cf stream =
     (case ReadFull (unat GetHeadLen) stream of
        None \<Rightarrow> None
      | Some (packetHead, stream) \<Rightarrow>
          (case Unpack cf packetHead of
             Inl err \<Rightarrow> None
           | Inr msg \<Rightarrow>
               if Msg_GetLen msg > 0 then
                 (case ReadFull (unat (Msg_GetLen msg)) stream of
                    None \<Rightarrow> None
                  | Some (data, stream) \<Rightarrow> Some (Msg_SetData data msg, stream))
               else Some (Msg_SetData [] msg, stream)))"

lemma read_msg_shorter: "read_msg cf stream = Some (msg, rest) \<Longrightarrow> length rest < length stream"
  by (auto simp: read_msg_def ReadFull_def GetHeadLen_def split: if_splits option.splits sum.splits)

text \<open>The messages of the requests that the reader makes, in their order.\<close>

function StartReader :: "conf \<Rightarrow> bytes \<Rightarrow> Msg list" where
  "StartReader cf stream =
     (case read_msg cf stream of
        None \<Rightarrow> []
      | Some (msg, stream) \<Rightarrow> msg # StartReader cf stream)"
  by pat_completeness auto
termination
  by (relation "measure (\<lambda>(cf, stream). length stream)") (auto dest: read_msg_shorter)

declare StartReader.simps [simp del]

text \<open>Without the serializer every read of the socket is a message with identifier 0.\<close>

definition raw_reader :: "conf \<Rightarrow> bytes list \<Rightarrow> Msg list" where
  "raw_reader cf reads =
     map (\<lambda>data. let data = take (unat (gc_MaxPacketSize cf)) data in
       Msg_SetData data (Msg_SetId 0 (Msg_SetLen (of_nat (length data)) \<lparr>msg_Len = 0, msg_Id = 0, msg_Data = []\<rparr>))) reads"

text \<open>What the writer puts into the socket: packet after packet, until a write fails.\<close>

fun StartWriter :: "(bytes \<Rightarrow> bool) \<Rightarrow> bytes list \<Rightarrow> bytes" where
  "StartWriter write [] = []"
| "StartWriter write (packet # packets) = (if write packet then packet @ StartWriter write packets else [])"

section \<open>Routes and workers\<close>

record 'c route =
  PreHandler :: "Msg \<Rightarrow> 'c \<Rightarrow> 'c"
  MsgHandler :: "Msg \<Rightarrow> 'c \<Rightarrow> 'c"
  PostHandler :: "Msg \<Rightarrow> 'c \<Rightarrow> 'c"

definition BaseRoute :: "'c route" where
  "BaseRoute = \<lparr>PreHandler = (\<lambda>req conn. conn), MsgHandler = (\<lambda>req conn. conn), PostHandler = (\<lambda>req conn. conn)\<rparr>"

text \<open>A request names its connection by its identifier.\<close>

record Req =
  req_Conn :: uint32
  req_Msg :: Msg

definition GetMsgLen :: "Req \<Rightarrow> uint32" where
  "GetMsgLen req = Msg_GetLen (req_Msg req)"

definition GetMsgId :: "Req \<Rightarrow> uint32" where
  "GetMsgId req = Msg_GetId (req_Msg req)"

definition GetMsgData :: "Req \<Rightarrow> bytes" where
  "GetMsgData req = Msg_GetData (req_Msg req)"

record 'c ReqHandler =
  rh_BindMap :: "uint32 \<rightharpoonup> 'c route"
  rh_ReqChanArr :: "Req list option list"
  rh_WorkerPoolSize :: uint32

definition NewReqHandler :: "conf \<Rightarrow> 'c ReqHandler" where
  "NewReqHandler cf =
     \<lparr>rh_BindMap = Map.empty, rh_ReqChanArr = replicate (unat (gc_WorkerPoolSize cf)) None,
      rh_WorkerPoolSize = gc_WorkerPoolSize cf\<rparr>"

definition BindRoute :: "uint32 \<Rightarrow> 'c route \<Rightarrow> 'c ReqHandler \<Rightarrow> 'c ReqHandler" where
  "BindRoute msgId route rh =
     (if rh_BindMap rh msgId \<noteq> None then rh else rh\<lparr>rh_BindMap := (rh_BindMap rh)(msgId \<mapsto> route)\<rparr>)"

definition UseRoute :: "'c ReqHandler \<Rightarrow> Req \<Rightarrow> 'c \<Rightarrow> 'c" where
  "UseRoute rh req conn =
     (case rh_BindMap rh (GetMsgId req) of
        None \<Rightarrow> conn
      | Some route \<Rightarrow>
          PostHandler route (req_Msg req) (MsgHandler route (req_Msg req) (PreHandler route (req_Msg req) conn)))"

definition StartWorkerPool :: "'c ReqHandler \<Rightarrow> 'c ReqHandler" where
  "StartWorkerPool rh =
     rh\<lparr>rh_ReqChanArr := fold (\<lambda>i arr. arr[i := Some []]) [0..<unat (rh_WorkerPoolSize rh)] (rh_ReqChanArr rh)\<rparr>"

text \<open>A send to a channel that is nil or full does not go on.\<close>

definition PushToReqChan :: "conf \<Rightarrow> Req \<Rightarrow> 'c ReqHandler \<Rightarrow> 'c ReqHandler option result" where
  "PushToReqChan cf req rh =
     (if rh_WorkerPoolSize rh = 0 then Inl Panic
      else let workerId = unat (req_Conn req mod rh_WorkerPoolSize rh) in
        result_bind (get_at (rh_ReqChanArr rh) workerId) (\<lambda>ch.
          case ch of
            None \<Rightarrow> Inr None
          | Some reqs \<Rightarrow>
              if length reqs < unat (gc_ReqChanLen cf)
              then Inr (Some (rh\<lparr>rh_ReqChanArr := (rh_ReqChanArr rh)[workerId := Some (reqs @ [req])]\<rparr>))
              else Inr None))"

text \<open>A worker on the requests that it receives, all of one connection.\<close>

definition StartWorker :: "'c ReqHandler \<Rightarrow> Req list \<Rightarrow> 'c \<Rightarrow> 'c" where
  "StartWorker rh reqs conn = fold (UseRoute rh) reqs conn"

section \<open>The connection manager\<close>

record ConnMan =
  cm_connDict :: "(uint32 \<times> nat) list"
  cm_locked :: bool

definition NewConnMan :: ConnMan where
  "NewConnMan = \<lparr>cm_connDict = [], cm_locked = False\<rparr>"

text \<open>\<open>rwLock.Lock\<close>: the lock is not reentrant.\<close>

definition cm_Lock :: "ConnMan \<Rightarrow> ConnMan option" where
  "cm_Lock cm = (if cm_locked cm then None else Some (cm\<lparr>cm_locked := True\<rparr>))"

definition cm_Unlock :: "ConnMan \<Rightarrow> ConnMan" where
  "cm_Unlock cm = cm\<lparr>cm_locked := False\<rparr>"

definition AddConn :: "uint32 \<Rightarrow> nat \<Rightarrow> ConnMan \<Rightarrow> ConnMan option" where
  "AddConn ident a cm = do { cm \<leftarrow> cm_Lock cm; Some (cm_Unlock (cm\<lparr>cm_connDict := AList.update ident a (cm_connDict cm)\<rparr>)) }"

definition DelConn :: "uint32 \<Rightarrow> ConnMan \<Rightarrow> ConnMan option" where
  "DelConn ident cm = do { cm \<leftarrow> cm_Lock cm; Some (cm_Unlock (cm\<lparr>cm_connDict := AList.delete ident (cm_connDict cm)\<rparr>)) }"

text \<open>The read lock waits for a writer; \<^term>\<open>Some None\<close> is the error that there is no such connection.\<close>

definition GetConnById :: "uint32 \<Rightarrow> ConnMan \<Rightarrow> nat option option" where
  "GetConnById ident cm = (if cm_locked cm then None else Some (map_of (cm_connDict cm) ident))"

definition GetConnNum :: "ConnMan \<Rightarrow> nat" where
  "GetConnNum cm = length (cm_connDict cm)"

section \<open>The server\<close>

record GnetServer =
  gs_conf :: conf
  gs_man :: ConnMan
  gs_handler :: "Conn ReqHandler"
  gs_AfterConnStart :: "(Conn \<Rightarrow> Conn) option"
  gs_BeforeConnStop :: "(Conn \<Rightarrow> Conn) option"
  gs_conns :: "Conn list"
  gs_connId :: uint32

definition NewServer :: "conf \<Rightarrow> GnetServer" where
  "NewServer cf =
     \<lparr>gs_conf = cf, gs_man = NewConnMan, gs_handler = NewReqHandler cf, gs_AfterConnStart = None,
      gs_BeforeConnStop = None, gs_conns = [], gs_connId = 0\<rparr>"

definition Server_BindRoute :: "uint32 \<Rightarrow> Conn route \<Rightarrow> GnetServer \<Rightarrow> GnetServer" where
  "Server_BindRoute msgId route gs = gs\<lparr>gs_handler := BindRoute msgId route (gs_handler gs)\<rparr>"

definition UseAfterConnStart :: "(Conn \<Rightarrow> Conn) \<Rightarrow> GnetServer \<Rightarrow> GnetServer" where
  "UseAfterConnStart hook gs = gs\<lparr>gs_AfterConnStart := Some hook\<rparr>"

definition DoAfterConnStart :: "GnetServer \<Rightarrow> Conn \<Rightarrow> Conn" where
  "DoAfterConnStart gs conn = (case gs_AfterConnStart gs of None \<Rightarrow> conn | Some hook \<Rightarrow> hook conn)"

definition UseBeforeConnStop :: "(Conn \<Rightarrow> Conn) \<Rightarrow> GnetServer \<Rightarrow> GnetServer" where
  "UseBeforeConnStop hook gs = gs\<lparr>gs_BeforeConnStop := Some hook\<rparr>"

definition DoBeforeConnStop :: "GnetServer \<Rightarrow> Conn \<Rightarrow> Conn" where
  "DoBeforeConnStop gs conn = (case gs_BeforeConnStop gs of None \<Rightarrow> conn | Some hook \<Rightarrow> hook conn)"

definition NewConn :: "uint32 \<Rightarrow> GnetServer \<Rightarrow> (nat \<times> GnetServer) option" where
  "NewConn ident gs =
     (let a = length (gs_conns gs) in
      do { cm \<leftarrow> AddConn ident a (gs_man gs);
           Some (a, gs\<lparr>gs_conns := gs_conns gs @ [new_conn ident], gs_man := cm\<rparr>) })"

definition Conn_Start :: "nat \<Rightarrow> GnetServer \<Rightarrow> GnetServer" where
  "Conn_Start a gs = gs\<lparr>gs_conns := (gs_conns gs)[a := DoAfterConnStart gs (gs_conns gs ! a)]\<rparr>"

definition Conn_Stop :: "nat \<Rightarrow> GnetServer \<Rightarrow> GnetServer option" where
  "Conn_Stop a gs =
     (let conn = gs_conns gs ! a in
      if cn_isClosed conn then Some gs
      else
        let conn = DoBeforeConnStop gs (conn\<lparr>cn_isClosed := True\<rparr>);
            conn = conn\<lparr>cn_socketClosed := True, cn_signals := cn_signals conn + 1\<rparr>;
            gs = gs\<lparr>gs_conns := (gs_conns gs)[a := conn]\<rparr> in
        do { cm \<leftarrow> DelConn (Conn_GetId conn) (gs_man gs);
             Some (gs\<lparr>gs_man := cm, gs_conns := (gs_conns gs)[a := conn\<lparr>cn_chansClosed := True\<rparr>]\<rparr>) })"

text \<open>One connection request at the listener: the new connection, if there is room for it.\<close>

definition accept_conn :: "GnetServer \<Rightarrow> GnetServer option" where
  "accept_conn gs =
     (if GetConnNum (gs_man gs) \<ge> gc_MaxConnNum (gs_conf gs) then Some gs
      else do { (a, gs) \<leftarrow> NewConn (gs_connId gs) gs; Some (Conn_Start a (gs\<lparr>gs_connId := gs_connId gs + 1\<rparr>)) })"

text \<open>The loop of \<open>DelAllConn\<close> over the entries of the map, in the order in which the range statement gives them.\<close>

fun DelAllConn_loop :: "(uint32 \<times> nat) list \<Rightarrow> GnetServer \<Rightarrow> GnetServer option" where
  "DelAllConn_loop [] gs = Some gs"
| "DelAllConn_loop ((ident, a) # entries) gs =
     do { gs \<leftarrow> Conn_Stop a gs;
          DelAllConn_loop entries (gs\<lparr>gs_man := (gs_man gs)\<lparr>cm_connDict := AList.delete ident (cm_connDict (gs_man gs))\<rparr>\<rparr>) }"

definition DelAllConn :: "((uint32 \<times> nat) list \<Rightarrow> (uint32 \<times> nat) list) \<Rightarrow> GnetServer \<Rightarrow> GnetServer option" where
  "DelAllConn perm gs =
     do { cm \<leftarrow> cm_Lock (gs_man gs);
          gs \<leftarrow> DelAllConn_loop (perm (cm_connDict cm)) (gs\<lparr>gs_man := cm\<rparr>);
          Some (gs\<lparr>gs_man := cm_Unlock (gs_man gs)\<rparr>) }"

definition Server_Stop :: "((uint32 \<times> nat) list \<Rightarrow> (uint32 \<times> nat) list) \<Rightarrow> GnetServer \<Rightarrow> GnetServer option" where
  "Server_Stop perm gs = DelAllConn perm gs"

section \<open>The application\<close>

definition bytes_of :: "string \<Rightarrow> bytes" where
  "bytes_of s = map of_char s"

definition PingRoute :: "Conn route" where
  "PingRoute = BaseRoute\<lparr>MsgHandler := (\<lambda>req conn. snd (SendPacket 200 (bytes_of ''ping'') conn))\<rparr>"

definition EchoRoute :: "Conn route" where
  "EchoRoute = BaseRoute\<lparr>MsgHandler := (\<lambda>req conn. snd (SendPacket 201 (bytes_of ''echo'') conn))\<rparr>"

definition afterConnStart :: "Conn \<Rightarrow> Conn" where
  "afterConnStart conn =
     (let conn = snd (SendPacket 200 (bytes_of (''Starting connection ID = '' @ decimal (unat (Conn_GetId conn)))) conn);
          conn = SetProp ''Username'' ''Tiancheng'' conn in
      SetProp ''Homepage'' ''https://161043261.github.io/'' conn)"

text \<open>The hook only prints what \<open>GetProp\<close> returns.\<close>

definition beforeConnStop :: "Conn \<Rightarrow> Conn" where
  "beforeConnStop conn = conn"

definition main_server :: "conf \<Rightarrow> GnetServer" where
  "main_server cf =
     (let server = NewServer cf;
          server = UseAfterConnStart afterConnStart server;
          server = UseBeforeConnStop beforeConnStop server;
          server = Server_BindRoute 0 PingRoute server;
          server = Server_BindRoute 1 EchoRoute server in
      server\<lparr>gs_handler := StartWorkerPool (gs_handler server)\<rparr>)"

end
