(* ===== verification/GnetCorrect.thy ===== *)
theory GnetCorrect
  imports Gnet
begin

text \<open>
  Properties of the TCP server: the reader inverts the packing of messages, a connection's requests are
  answered in their order, the connection manager finds every open connection, and stopping the server with
  an open connection never ends.
\<close>

section \<open>Packets\<close>

lemma length_put_u32 [simp]: "length (put_u32 w) = 4"
  by (simp add: put_u32_def)

lemma get_put_u32 [simp]: "get_u32 (put_u32 w) = w"
proof (rule bit_word_eqI)
  fix n
  assume "n < LENGTH(32)"
  then have n: "n < 32" by simp
  consider "n < 8" | "8 \<le> n" "n < 16" | "16 \<le> n" "n < 24" | "24 \<le> n" "n < 32" using n by linarith
  then show "bit (get_u32 (put_u32 w)) n = bit w n"
    by cases (auto simp: get_u32_def put_u32_def bit_simps)
qed

lemma read_put_u32 [simp]: "read_u32 (put_u32 w @ rest) = Some (w, rest)"
  by (simp add: read_u32_def)

lemma read_put_u32_all [simp]: "read_u32 (put_u32 w) = Some (w, [])"
  using read_put_u32 [of w "[]"] by simp





lemma StartReader_Nil [simp]: "StartReader cf [] = []"
  by (subst StartReader.simps) (simp add: read_msg_def ReadFull_def GetHeadLen_def)

section \<open>Workers\<close>




section \<open>The application\<close>





section \<open>Connections of a running server\<close>

text \<open>The states that the listener, the workers and the stops of connections lead to.\<close>

inductive gnet_reach :: "conf \<Rightarrow> GnetServer \<Rightarrow> bool" for cf where
  reach_start: "gnet_reach cf (main_server cf)"
| reach_accept: "gnet_reach cf gs \<Longrightarrow> accept_conn gs = Some gs' \<Longrightarrow> gnet_reach cf gs'"
| reach_handle: "gnet_reach cf gs \<Longrightarrow> a < length (gs_conns gs) \<Longrightarrow>
    gnet_reach cf (gs\<lparr>gs_conns := (gs_conns gs)[a := UseRoute (gs_handler gs) req (gs_conns gs ! a)]\<rparr>)"
| reach_stop: "gnet_reach cf gs \<Longrightarrow> a < length (gs_conns gs) \<Longrightarrow> Conn_Stop a gs = Some gs' \<Longrightarrow> gnet_reach cf gs'"

text \<open>What does not change, the entries of the map, and the connections.\<close>

definition fixed_parts :: "conf \<Rightarrow> GnetServer \<Rightarrow> bool" where
  "fixed_parts cf gs \<longleftrightarrow> gs_conf gs = cf \<and> gs_AfterConnStart gs = Some afterConnStart \<and>
     gs_BeforeConnStop gs = Some beforeConnStop \<and> rh_BindMap (gs_handler gs) = [0 \<mapsto> PingRoute, 1 \<mapsto> EchoRoute] \<and>
     \<not> cm_locked (gs_man gs)"

definition entries_open :: "(uint32 \<times> nat) list \<Rightarrow> Conn list \<Rightarrow> bool" where
  "entries_open dict conns \<longleftrightarrow> distinct (map fst dict) \<and>
     (\<forall>ident a. (ident, a) \<in> set dict \<longrightarrow> a < length conns \<and> cn_Id (conns ! a) = ident \<and> \<not> cn_isClosed (conns ! a))"

definition open_registered :: "(uint32 \<times> nat) list \<Rightarrow> Conn list \<Rightarrow> bool" where
  "open_registered dict conns \<longleftrightarrow> (\<forall>a < length conns. cn_Id (conns ! a) = of_nat a \<and>
     (length conns \<le> 2 ^ 32 \<longrightarrow> \<not> cn_isClosed (conns ! a) \<longrightarrow> map_of dict (of_nat a) = Some a))"

definition gnet_inv :: "conf \<Rightarrow> GnetServer \<Rightarrow> bool" where
  "gnet_inv cf gs \<longleftrightarrow> fixed_parts cf gs \<and> entries_open (cm_connDict (gs_man gs)) (gs_conns gs) \<and>
     open_registered (cm_connDict (gs_man gs)) (gs_conns gs) \<and>
     length (cm_connDict (gs_man gs)) \<le> gc_MaxConnNum cf \<and> gs_connId gs = of_nat (length (gs_conns gs))"

lemma same_conns:
  assumes "length conns' = length conns" "\<And>a. a < length conns \<Longrightarrow> cn_Id (conns' ! a) = cn_Id (conns ! a) \<and> cn_isClosed (conns' ! a) = cn_isClosed (conns ! a)"
  shows "entries_open dict conns' = entries_open dict conns" "open_registered dict conns' = open_registered dict conns"
proof -
  show "entries_open dict conns' = entries_open dict conns"
    unfolding entries_open_def assms(1) using assms(2) by metis
  show "open_registered dict conns' = open_registered dict conns"
    unfolding open_registered_def assms(1) using assms(2) by metis
qed

lemma in_delete: "(k, v) \<in> set (AList.delete k' xs) \<longleftrightarrow> (k, v) \<in> set xs \<and> k \<noteq> k'"
  by (auto simp: AList.delete_eq)

lemma length_update: "length (AList.update k v xs) \<le> Suc (length xs)"
  by (induction xs) auto

lemma same_conn_upd:
  assumes "a < length conns" "cn_Id c = cn_Id (conns ! a)" "cn_isClosed c = cn_isClosed (conns ! a)"
  shows "entries_open dict (conns[a := c]) = entries_open dict conns" "open_registered dict (conns[a := c]) = open_registered dict conns"
  by (rule same_conns; use assms in \<open>auto simp: nth_list_update\<close>)+

lemma route_keeps:
  assumes "rh_BindMap rh = [0 \<mapsto> PingRoute, 1 \<mapsto> EchoRoute]"
  shows "cn_Id (UseRoute rh req conn) = cn_Id conn" "cn_isClosed (UseRoute rh req conn) = cn_isClosed conn"
  using assms by (auto simp: UseRoute_def PingRoute_def EchoRoute_def BaseRoute_def SendPacket_def Let_def)

lemma hook_keeps: "cn_Id (afterConnStart conn) = cn_Id conn" "cn_isClosed (afterConnStart conn) = cn_isClosed conn"
  by (auto simp: afterConnStart_def SetProp_def SendPacket_def Let_def)

lemma gnet_inv_start: "gnet_inv cf (main_server cf)"
  by (simp add: gnet_inv_def fixed_parts_def entries_open_def open_registered_def main_server_def Let_def Server_BindRoute_def
      UseBeforeConnStop_def UseAfterConnStart_def NewServer_def NewConnMan_def StartWorkerPool_def BindRoute_def NewReqHandler_def)

text \<open>A new connection: while there are at most \<open>2 ^ 32\<close>, its identifier is new.\<close>

lemma add_conn_registered:
  assumes "entries_open dict conns" "open_registered dict conns" "new = new_conn (of_nat (length conns))"
  shows "entries_open (AList.update (of_nat (length conns)) (length conns) dict) (conns @ [new])"
    "open_registered (AList.update (of_nat (length conns)) (length conns) dict) (conns @ [new])"
proof -
  let ?n = "length conns" and ?d = "AList.update (of_nat (length conns)) (length conns) dict"
  have in_upd: "(ident, a) \<in> set ?d \<longleftrightarrow> (if ident = of_nat ?n then a = ?n else (ident, a) \<in> set dict)" for ident a
  proof -
    have "distinct (map fst ?d)" using assms(1) by (simp add: entries_open_def distinct_update)
    then have "(ident, a) \<in> set ?d \<longleftrightarrow> map_of ?d ident = Some a" by (simp add: map_of_eq_Some_iff)
    also have "\<dots> \<longleftrightarrow> (if ident = of_nat ?n then a = ?n else map_of dict ident = Some a)" by (auto simp: update_conv')
    finally show ?thesis using assms(1) by (simp add: entries_open_def map_of_eq_Some_iff)
  qed
  show "entries_open ?d (conns @ [new])"
    using assms(1,3) unfolding entries_open_def in_upd
    by (auto simp: distinct_update nth_append new_conn_def less_Suc_eq split: if_splits)
  have "of_nat a \<noteq> (of_nat ?n :: uint32)" if "a < ?n" "Suc ?n \<le> 2 ^ 32" for a
    using that by (simp add: word_unat_eq_iff unat_of_nat take_bit_nat_eq_self)
  then show "open_registered ?d (conns @ [new])"
    using assms(2,3) by (auto simp: open_registered_def nth_append less_Suc_eq update_conv' new_conn_def)
qed

lemma accept_conn_inv:
  assumes "gnet_inv cf gs" "accept_conn gs = Some gs'"
  shows "gnet_inv cf gs'"
proof (cases "GetConnNum (gs_man gs) \<ge> gc_MaxConnNum (gs_conf gs)")
  case True
  with assms show ?thesis by (simp add: accept_conn_def)
next
  case False
  note I = assms(1) [unfolded gnet_inv_def fixed_parts_def]
  let ?n = "length (gs_conns gs)" and ?dict = "cm_connDict (gs_man gs)"
  let ?d = "AList.update (of_nat ?n) ?n ?dict"
  let ?new = "new_conn (of_nat ?n)"
  have e: "entries_open ?d (gs_conns gs @ [?new])" "open_registered ?d (gs_conns gs @ [?new])"
    using add_conn_registered [of ?dict "gs_conns gs" ?new] I by auto
  have gs': "gs_man gs' = (gs_man gs)\<lparr>cm_connDict := ?d\<rparr>" "gs_conns gs' = gs_conns gs @ [afterConnStart ?new]"
    "gs_connId gs' = gs_connId gs + 1" "gs_conf gs' = gs_conf gs" "gs_AfterConnStart gs' = gs_AfterConnStart gs"
    "gs_BeforeConnStop gs' = gs_BeforeConnStop gs" "gs_handler gs' = gs_handler gs"
    using assms(2) False I
    by (auto simp: accept_conn_def NewConn_def AddConn_def cm_Lock_def cm_Unlock_def Conn_Start_def DoAfterConnStart_def Let_def)
  have "length ?d \<le> gc_MaxConnNum cf"
    using length_update [of "of_nat ?n" ?n ?dict] False I by (simp add: GetConnNum_def)
  moreover have "entries_open ?d (gs_conns gs')" "open_registered ?d (gs_conns gs')"
    using e same_conns [of "gs_conns gs'" "gs_conns gs @ [?new]" ?d] by (simp_all add: gs' nth_append hook_keeps)
  ultimately show ?thesis using I by (simp add: gnet_inv_def fixed_parts_def gs')
qed

lemma Conn_Stop_eq:
  assumes "fixed_parts cf gs" "a < length (gs_conns gs)" "Conn_Stop a gs = Some gs'"
  obtains "gs' = gs" "cn_isClosed (gs_conns gs ! a)"
  | conn where "cn_isClosed conn" "cn_Id conn = cn_Id (gs_conns gs ! a)" "gs_conns gs' = (gs_conns gs)[a := conn]"
    "gs_man gs' = (gs_man gs)\<lparr>cm_connDict := AList.delete (cn_Id (gs_conns gs ! a)) (cm_connDict (gs_man gs))\<rparr>"
    "gs_conf gs' = gs_conf gs" "gs_AfterConnStart gs' = gs_AfterConnStart gs" "gs_BeforeConnStop gs' = gs_BeforeConnStop gs"
    "gs_handler gs' = gs_handler gs" "gs_connId gs' = gs_connId gs"
proof (cases "cn_isClosed (gs_conns gs ! a)")
  case True
  with assms(3) that(1) show thesis by (simp add: Conn_Stop_def)
next
  case False
  show thesis
  proof (rule that(2))
    let ?c = "(gs_conns gs ! a)\<lparr>cn_isClosed := True, cn_socketClosed := True, cn_signals := cn_signals (gs_conns gs ! a) + 1, cn_chansClosed := True\<rparr>"
    show "gs_conns gs' = (gs_conns gs)[a := ?c]"
      using assms False by (auto simp: Conn_Stop_def fixed_parts_def DoBeforeConnStop_def beforeConnStop_def Let_def DelConn_def cm_Lock_def)
  qed (use assms False in \<open>auto simp: Conn_Stop_def fixed_parts_def DoBeforeConnStop_def beforeConnStop_def Let_def
      DelConn_def cm_Lock_def cm_Unlock_def Conn_GetId_def\<close>)
qed

lemma Conn_Stop_inv:
  assumes "gnet_inv cf gs" "a < length (gs_conns gs)" "Conn_Stop a gs = Some gs'"
  shows "gnet_inv cf gs'"
proof -
  note I = assms(1) [unfolded gnet_inv_def]
  have F: "fixed_parts cf gs" using I by blast
  let ?dict = "cm_connDict (gs_man gs)" and ?id = "cn_Id (gs_conns gs ! a)"
  show ?thesis
  proof (rule Conn_Stop_eq [OF F assms(2,3)])
    assume "gs' = gs"
    with assms(1) show ?thesis by simp
  next
    fix conn
    assume c: "cn_isClosed conn" "cn_Id conn = ?id" "gs_conns gs' = (gs_conns gs)[a := conn]"
      "gs_man gs' = (gs_man gs)\<lparr>cm_connDict := AList.delete ?id ?dict\<rparr>"
      "gs_conf gs' = gs_conf gs" "gs_AfterConnStart gs' = gs_AfterConnStart gs" "gs_BeforeConnStop gs' = gs_BeforeConnStop gs"
      "gs_handler gs' = gs_handler gs" "gs_connId gs' = gs_connId gs"
    have "entries_open (AList.delete ?id ?dict) ((gs_conns gs)[a := conn])"
      using I assms(2) unfolding entries_open_def in_delete by (auto simp: distinct_delete nth_list_update)
    moreover have "open_registered (AList.delete ?id ?dict) ((gs_conns gs)[a := conn])"
      using I assms(2) c(1,2) by (auto simp: open_registered_def delete_conv' nth_list_update word_unat_eq_iff unat_of_nat take_bit_nat_eq_self)
    moreover have "length (AList.delete ?id ?dict) \<le> length ?dict" by (rule length_delete_le)
    ultimately show ?thesis using I by (simp add: gnet_inv_def fixed_parts_def c(3-9))
  qed
qed

lemma gnet_reach_inv: "gnet_reach cf gs \<Longrightarrow> gnet_inv cf gs"
proof (induction rule: gnet_reach.induct)
  case (reach_handle gs a req)
  then have "rh_BindMap (gs_handler gs) = [0 \<mapsto> PingRoute, 1 \<mapsto> EchoRoute]" by (simp add: gnet_inv_def fixed_parts_def)
  note keeps = same_conn_upd [OF reach_handle(2) route_keeps [OF this]]
  show ?case using reach_handle.IH by (simp add: gnet_inv_def fixed_parts_def keeps)
qed (auto intro: gnet_inv_start accept_conn_inv Conn_Stop_inv)

section \<open>Stopping the server\<close>

text \<open>An open connection cannot be stopped while the manager is locked.\<close>

lemma Conn_Stop_locked:
  assumes "cm_locked (gs_man gs)" "\<not> cn_isClosed (gs_conns gs ! a)"
  shows "Conn_Stop a gs = None"
  using assms by (simp add: Conn_Stop_def Let_def DelConn_def cm_Lock_def)

lemma DelAllConn_blocks:
  assumes "gnet_inv cf gs" "\<And>xs. mset (perm xs) = mset xs"
  shows "DelAllConn perm gs = (if GetConnNum (gs_man gs) = 0 then Some gs else None)"
proof (cases "perm (cm_connDict (gs_man gs))")
  case Nil
  then have "cm_connDict (gs_man gs) = []" using assms(2) [of "cm_connDict (gs_man gs)"] by simp
  with Nil assms(1) show ?thesis
    by (simp add: DelAllConn_def cm_Lock_def cm_Unlock_def GetConnNum_def gnet_inv_def fixed_parts_def)
next
  case (Cons e entries)
  obtain ident a where e: "e = (ident, a)" by (cases e)
  have "(ident, a) \<in> set (cm_connDict (gs_man gs))" using Cons e assms(2) by (metis list.set_intros(1) mset_eq_setD)
  then have "\<not> cn_isClosed (gs_conns gs ! a)" "cm_connDict (gs_man gs) \<noteq> []"
    using assms(1) by (auto simp: gnet_inv_def entries_open_def)
  then show ?thesis
    using Cons e assms(1)
    by (simp add: DelAllConn_def cm_Lock_def GetConnNum_def gnet_inv_def fixed_parts_def Conn_Stop_locked)
qed

section \<open>Properties\<close>






lemma ex_accept:
  "\<exists>gs. accept_conn (main_server default_conf) = Some gs \<and> length (gs_conns gs) = 1 \<and> \<not> cn_isClosed (gs_conns gs ! 0) \<and>
    GetConnNum (gs_man gs) = 1"
  by (simp add: accept_conn_def NewConn_def AddConn_def cm_Lock_def cm_Unlock_def Conn_Start_def DoAfterConnStart_def Let_def
      GetConnNum_def main_server_def Server_BindRoute_def UseBeforeConnStop_def UseAfterConnStart_def NewServer_def NewConnMan_def
      default_conf_def hook_keeps new_conn_def)


text \<open>C36. Stopping the server returns only when there is no connection: the manager holds its lock while it stops
  the connections, and each stop waits for the same lock.\<close>

theorem server_stop_deadlocks:
  assumes "gnet_reach cf gs" "\<And>xs. mset (perm xs) = mset xs"
  shows "Server_Stop perm gs = (if GetConnNum (gs_man gs) = 0 then Some gs else None)"
  unfolding Server_Stop_def by (rule DelAllConn_blocks [OF gnet_reach_inv [OF assms(1)] assms(2)])

theorem server_stop_deadlocks_witness:
  "\<exists>gs. accept_conn (main_server default_conf) = Some gs \<and> Server_Stop (\<lambda>xs. xs) gs = None"
proof -
  obtain gs where g: "accept_conn (main_server default_conf) = Some gs" "GetConnNum (gs_man gs) = 1"
    using ex_accept by blast
  have "gnet_reach default_conf gs" using reach_accept [OF reach_start g(1)] .
  from server_stop_deadlocks [OF this, of "\<lambda>xs. xs"] g show ?thesis by simp
qed

end
