(* ===== verification/Utf8.thy ===== *)
theory Utf8
  imports Prelude
begin

text \<open>
  Runes of Go strings: \<open>utf8.DecodeRuneInString\<close>, the classes \<open>unicode.IsUpper\<close> and \<open>unicode.IsLetter\<close>, and
  \<open>strings.FieldsFunc\<close>, which splits a string at the runes of a class. A string is the list of its bytes.
\<close>

definition rune_error :: nat where
  "rune_error = 65533"

text \<open>The lead byte of a rune gives its length and the range of its second byte.\<close>

definition lead :: "nat \<Rightarrow> nat \<times> nat \<times> nat" where
  "lead b =
     (if 194 \<le> b \<and> b \<le> 223 then (2, 128, 191)
      else if b = 224 then (3, 160, 191)
      else if b = 237 then (3, 128, 159)
      else if 225 \<le> b \<and> b \<le> 239 then (3, 128, 191)
      else if b = 240 then (4, 144, 191)
      else if 241 \<le> b \<and> b \<le> 243 then (4, 128, 191)
      else if b = 244 then (4, 128, 143)
      else (0, 0, 0))"

definition tail_byte :: "nat \<Rightarrow> bool" where
  "tail_byte b \<longleftrightarrow> 128 \<le> b \<and> b \<le> 191"

text \<open>The rune at the front of some bytes and its width; a byte that starts no rune is an error of width 1.\<close>

definition decode_bytes :: "nat list \<Rightarrow> nat \<times> nat" where
  "decode_bytes bs =
     (case bs of
        [] \<Rightarrow> (rune_error, 0)
      | p # _ \<Rightarrow>
          if p < 128 then (p, 1)
          else
            (case lead p of
               (sz, lo, hi) \<Rightarrow>
                 if sz = 0 \<or> length bs < sz \<or> bs ! 1 < lo \<or> hi < bs ! 1 then (rune_error, 1)
                 else if sz = 2 then ((p mod 32) * 64 + bs ! 1 mod 64, 2)
                 else if \<not> tail_byte (bs ! 2) then (rune_error, 1)
                 else if sz = 3 then ((p mod 16) * 4096 + (bs ! 1 mod 64) * 64 + bs ! 2 mod 64, 3)
                 else if \<not> tail_byte (bs ! 3) then (rune_error, 1)
                 else ((p mod 8) * 262144 + (bs ! 1 mod 64) * 4096 + (bs ! 2 mod 64) * 64 + bs ! 3 mod 64, 4)))"

definition DecodeRuneInString :: "string \<Rightarrow> nat \<times> nat" where
  "DecodeRuneInString s = decode_bytes (map of_char s)"

text \<open>Latin-1 is decided here; the tables of the runes above it are parameters.\<close>

definition IsUpper :: "(nat \<Rightarrow> bool) \<Rightarrow> nat \<Rightarrow> bool" where
  "IsUpper table r \<longleftrightarrow>
     (if r \<le> 255 then 65 \<le> r \<and> r \<le> 90 \<or> 192 \<le> r \<and> r \<le> 222 \<and> r \<noteq> 215 else table r)"

definition IsLetter :: "(nat \<Rightarrow> bool) \<Rightarrow> nat \<Rightarrow> bool" where
  "IsLetter table r \<longleftrightarrow>
     (if r \<le> 255
      then 65 \<le> r \<and> r \<le> 90 \<or> 97 \<le> r \<and> r \<le> 122 \<or> r \<in> {170, 181, 186} \<or> 192 \<le> r \<and> r \<noteq> 215 \<and> r \<noteq> 247
      else table r)"

lemma decode_width: "s \<noteq> [] \<Longrightarrow> 0 < snd (DecodeRuneInString s)"
  by (cases s) (auto simp: DecodeRuneInString_def decode_bytes_def split: prod.split)

lemma decode_shorter: "s \<noteq> [] \<Longrightarrow> (r, n) = DecodeRuneInString s \<Longrightarrow> length s - n < length s"
  using decode_width [of s] by (metis snd_conv length_greater_0_conv diff_less)

section \<open>Splitting at runes\<close>

text \<open>The field being read is empty between fields.\<close>

definition end_field :: "string \<Rightarrow> string list" where
  "end_field cur = (if cur = [] then [] else [cur])"

function fields_loop :: "(nat \<Rightarrow> bool) \<Rightarrow> string \<Rightarrow> string \<Rightarrow> string list" where
  "fields_loop f s cur =
     (if s = [] then end_field cur
      else
        case DecodeRuneInString s of
          (r, n) \<Rightarrow>
            if f r then end_field cur @ fields_loop f (drop n s) []
            else fields_loop f (drop n s) (cur @ take n s))"
  by pat_completeness auto

termination
  by (relation "measure (\<lambda>(_, s, _). length s)") (auto intro: decode_shorter)

declare fields_loop.simps [simp del]

definition FieldsFunc :: "string \<Rightarrow> (nat \<Rightarrow> bool) \<Rightarrow> string list" where
  "FieldsFunc s f = fields_loop f s []"

lemma fields_loop_nonempty: "[] \<notin> set (fields_loop f s cur)"
proof (induction f s cur rule: fields_loop.induct)
  case (1 f s cur)
  then show ?case
    by (subst fields_loop.simps) (auto simp: end_field_def split: prod.split)
qed

text \<open>No field is empty.\<close>

lemma FieldsFunc_nonempty: "[] \<notin> set (FieldsFunc s f)"
  by (simp add: FieldsFunc_def fields_loop_nonempty)

end
