(* ===== verification/Labgob.thy ===== *)
theory Labgob
  imports Utf8
begin

text \<open>
  The wrapper \<open>labgob\<close> around Go's gob encoder (\<open>labgob/labgob.go\<close>). Before it encodes or decodes a value
  it walks over the type of the value and warns about fields that do not start with a capital letter, which
  gob silently leaves out; before it decodes it also warns about a target that is not in its zero state.

  A \<open>reflect.Type\<close> is a number; the kinds and names of the types of the program are a table, so that a type
  may refer to itself. A pointer is an address of a heap of values. The walk over types is a partial function:
  \<^term>\<open>None\<close> is a walk that does not end. The gob encoder and decoder are parameters. The mutex around
  the counter and the map is left out: one goroutine is modelled.
\<close>

section \<open>Field names\<close>

definition capital :: "(nat \<Rightarrow> bool) \<Rightarrow> string \<Rightarrow> bool" where
  "capital table name \<longleftrightarrow> IsUpper table (fst (DecodeRuneInString name))"

section \<open>Types\<close>

type_synonym rtype = nat

record StructField =
  fieldName :: string
  fieldType :: rtype

datatype kind =
    StructK "StructField list"
  | SliceK rtype
  | ArrayK rtype
  | PtrK rtype
  | MapK rtype rtype
  | OtherK

record typetab =
  typeName :: "rtype \<Rightarrow> string"
  typeKind :: "rtype \<Rightarrow> kind"

text \<open>The package variables \<open>errorCount\<close> and \<open>checked\<close>, and what was printed.\<close>

record Labgob =
  errorCount :: int
  checked :: "(rtype \<Rightarrow> bool) option"
  printed :: "string list"

definition labgob_init :: Labgob where
  "labgob_init = \<lparr>errorCount = 0, checked = None, printed = []\<rparr>"

definition lower_msg :: "string \<Rightarrow> string \<Rightarrow> string" where
  "lower_msg f t =
     ''labgob error: lower-case field '' @ f @ '' of '' @ t @
     '' in RPC or persist/snapshot will break your Raft'' @ [CHR 0x0A]"

text \<open>The warning for one field of a struct.\<close>

definition warn_field :: "(nat \<Rightarrow> bool) \<Rightarrow> typetab \<Rightarrow> rtype \<Rightarrow> StructField \<Rightarrow> Labgob \<Rightarrow> Labgob" where
  "warn_field table T t f s =
     (if capital table (fieldName f) then s
      else s\<lparr>printed := printed s @ [lower_msg (fieldName f) (typeName T t)], errorCount := errorCount s + 1\<rparr>)"

text \<open>A loop whose body may not end.\<close>

fun fold_opt :: "('a \<Rightarrow> 's \<Rightarrow> 's option) \<Rightarrow> 'a list \<Rightarrow> 's \<Rightarrow> 's option" where
  "fold_opt f [] s = Some s"
| "fold_opt f (x # xs) s = Option.bind (f x s) (fold_opt f xs)"

lemma fold_opt_mono [partial_function_mono]:
  assumes "\<And>x s. mono_option (\<lambda>f. B f x s)"
  shows "mono_option (\<lambda>f. fold_opt (B f) xs s)"
proof (induction xs arbitrary: s)
  case Nil
  show ?case by (simp add: option.const_mono)
next
  case (Cons x xs)
  show ?case
    unfolding fold_opt.simps by (rule bind_mono [OF assms]) (rule Cons.IH)
qed

definition seen :: "Labgob \<Rightarrow> rtype \<Rightarrow> bool" where
  "seen s = (case checked s of None \<Rightarrow> \<lambda>_. False | Some m \<Rightarrow> m)"

partial_function (option) checkType :: "(nat \<Rightarrow> bool) \<Rightarrow> typetab \<Rightarrow> rtype \<Rightarrow> Labgob \<Rightarrow> Labgob option" where
  "checkType table T t s =
     (if seen s t then Some (s\<lparr>checked := Some (seen s)\<rparr>)
      else
        let s = s\<lparr>checked := Some ((seen s)(t := True))\<rparr> in
        case typeKind T t of
          StructK fs \<Rightarrow> fold_opt (\<lambda>f s. checkType table T (fieldType f) (warn_field table T t f s)) fs s
        | SliceK e \<Rightarrow> checkType table T e s
        | ArrayK e \<Rightarrow> checkType table T e s
        | PtrK e \<Rightarrow> checkType table T e s
        | MapK k e \<Rightarrow> Option.bind (checkType table T e s) (checkType table T k)
        | OtherK \<Rightarrow> Some s)"

text \<open>\<open>checkType\<close> and \<open>checkValue\<close>: \<open>reflect.TypeOf(nil)\<close> is nil, and its \<open>Kind\<close> panics.\<close>

definition checkValue :: "(nat \<Rightarrow> bool) \<Rightarrow> typetab \<Rightarrow> rtype option \<Rightarrow> Labgob \<Rightarrow> Labgob result option" where
  "checkValue table T v s =
     (case v of None \<Rightarrow> Some (Inl Panic) | Some t \<Rightarrow> map_option Inr (checkType table T t s))"

section \<open>Values\<close>

datatype basic =
    BoolB bool
  | IntB int
  | UintB nat
  | Float32B "32 word"
  | Float64B "64 word"
  | StringB string

text \<open>\<open>DeepEqual\<close> with the zero value of the type; a float is zero whatever its sign bit.\<close>

fun is_zero :: "basic \<Rightarrow> bool" where
  "is_zero (BoolB b) \<longleftrightarrow> \<not> b"
| "is_zero (IntB i) \<longleftrightarrow> i = 0"
| "is_zero (UintB n) \<longleftrightarrow> n = 0"
| "is_zero (Float32B w) \<longleftrightarrow> w = 0 \<or> w = 0x80000000"
| "is_zero (Float64B w) \<longleftrightarrow> w = 0 \<or> w = 0x8000000000000000"
| "is_zero (StringB s) \<longleftrightarrow> s = []"

text \<open>A field of a struct value: its name, whether it is embedded, its value. A pointer is nil or an address.\<close>

datatype gval =
    StructV "(string \<times> bool \<times> gval) list"
  | PtrV "nat option"
  | BasicV string basic
  | OtherV

text \<open>
  The read-only flags of a \<open>reflect.Value\<close>: a value reached through a field that is not exported may not be
  turned into an interface. An embedded field passes the flag to its own value only.
\<close>

record roflags =
  stickyRO :: bool
  embedRO :: bool

definition field_flags :: "(nat \<Rightarrow> bool) \<Rightarrow> roflags \<Rightarrow> string \<Rightarrow> bool \<Rightarrow> roflags" where
  "field_flags table fl name embedded =
     \<lparr>stickyRO = stickyRO fl \<or> \<not> capital table name \<and> \<not> embedded,
      embedRO = \<not> capital table name \<and> embedded\<rparr>"

definition default_msg :: "string \<Rightarrow> string" where
  "default_msg what =
     ''labgob warning: Decoding into a non-default variable/field '' @ what @ '' may not work'' @ [CHR 0x0A]"

definition warn_default :: "string \<Rightarrow> string \<Rightarrow> Labgob \<Rightarrow> Labgob" where
  "warn_default name tname s =
     (let what = (if name = '''' then tname else name);
          s = (if errorCount s < 1 then s\<lparr>printed := printed s @ [default_msg what]\<rparr> else s)
      in s\<lparr>errorCount := errorCount s + 1\<rparr>)"

definition sub_name :: "string \<Rightarrow> string \<Rightarrow> string" where
  "sub_name name f = (if name = '''' then f else name @ ''.'' @ f)"

function checkDefault1 ::
  "(nat \<Rightarrow> bool) \<Rightarrow> (nat \<Rightarrow> gval) \<Rightarrow> roflags \<Rightarrow> gval \<Rightarrow> nat \<Rightarrow> string \<Rightarrow> Labgob \<Rightarrow> Labgob result" where
  "checkDefault1 table h fl v depth name s =
     (if depth > 3 then Inr s
      else
        case v of
          StructV fs \<Rightarrow>
            for_each
              (\<lambda>(f, embedded, vv).
                 checkDefault1 table h (field_flags table fl f embedded) vv (depth + 1) (sub_name name f))
              fs s
        | PtrV None \<Rightarrow> Inr s
        | PtrV (Some a) \<Rightarrow> checkDefault1 table h fl (h a) (depth + 1) name s
        | BasicV tname b \<Rightarrow>
            if stickyRO fl \<or> embedRO fl then Inl Panic
            else if is_zero b then Inr s
            else Inr (warn_default name tname s)
        | OtherV \<Rightarrow> Inr s)"
  by pat_completeness auto

termination
  by (relation "measure (\<lambda>(_, _, _, _, depth, _). 4 - depth)") auto

declare checkDefault1.simps [simp del]

definition checkDefault :: "(nat \<Rightarrow> bool) \<Rightarrow> (nat \<Rightarrow> gval) \<Rightarrow> gval option \<Rightarrow> Labgob \<Rightarrow> Labgob result" where
  "checkDefault table h v s =
     (case v of
        None \<Rightarrow> Inr s
      | Some v \<Rightarrow> checkDefault1 table h \<lparr>stickyRO = False, embedRO = False\<rparr> v 1 '''' s)"

section \<open>Encoder and decoder\<close>

text \<open>An \<open>interface{}\<close>: nil, or a type with a value of it. \<open>gob\<close> is the wrapped coder, an argument below.\<close>

type_synonym go_iface = "(rtype \<times> gval) option"

record 'g LabEncoder =
  enc_gob :: 'g

record 'g LabDecoder =
  dec_gob :: 'g

definition NewEncoder :: "('w \<Rightarrow> 'g) \<Rightarrow> 'w \<Rightarrow> 'g LabEncoder" where
  "NewEncoder gob_NewEncoder w = \<lparr>enc_gob = gob_NewEncoder w\<rparr>"

definition NewDecoder :: "('r \<Rightarrow> 'g) \<Rightarrow> 'r \<Rightarrow> 'g LabDecoder" where
  "NewDecoder gob_NewDecoder r = \<lparr>dec_gob = gob_NewDecoder r\<rparr>"

text \<open>Each operation gives the error of gob, the coder afterwards and the package variables.\<close>

definition Encode ::
  "(nat \<Rightarrow> bool) \<Rightarrow> typetab \<Rightarrow> (go_iface \<Rightarrow> 'g \<Rightarrow> string option \<times> 'g) \<Rightarrow> go_iface \<Rightarrow> 'g LabEncoder \<Rightarrow> Labgob
    \<Rightarrow> (string option \<times> 'g LabEncoder \<times> Labgob) result option" where
  "Encode table T gob_Encode e enc s =
     Option.bind (checkValue table T (map_option fst e) s)
       (\<lambda>r. Some (result_bind r (\<lambda>s.
          case gob_Encode e (enc_gob enc) of (err, g) \<Rightarrow> Inr (err, enc\<lparr>enc_gob := g\<rparr>, s))))"

text \<open>\<open>EncodeValue\<close>: \<open>value.Interface()\<close> panics for the zero \<open>reflect.Value\<close>, here \<^term>\<open>None\<close>.\<close>

definition EncodeValue ::
  "(nat \<Rightarrow> bool) \<Rightarrow> typetab \<Rightarrow> (go_iface \<Rightarrow> 'g \<Rightarrow> string option \<times> 'g) \<Rightarrow> go_iface option \<Rightarrow> 'g LabEncoder \<Rightarrow> Labgob
    \<Rightarrow> (string option \<times> 'g LabEncoder \<times> Labgob) result option" where
  "EncodeValue table T gob_EncodeValue v enc s =
     (case v of
        None \<Rightarrow> Some (Inl Panic)
      | Some e \<Rightarrow>
          Option.bind (checkValue table T (map_option fst e) s)
            (\<lambda>r. Some (result_bind r (\<lambda>s.
               case gob_EncodeValue e (enc_gob enc) of (err, g) \<Rightarrow> Inr (err, enc\<lparr>enc_gob := g\<rparr>, s)))))"

text \<open>\<open>Decode\<close> stores into the heap of the values.\<close>

definition Decode ::
  "(nat \<Rightarrow> bool) \<Rightarrow> typetab \<Rightarrow> (go_iface \<Rightarrow> 'g \<Rightarrow> (nat \<Rightarrow> gval) \<Rightarrow> string option \<times> 'g \<times> (nat \<Rightarrow> gval)) \<Rightarrow> go_iface
    \<Rightarrow> 'g LabDecoder \<Rightarrow> (nat \<Rightarrow> gval) \<Rightarrow> Labgob
    \<Rightarrow> (string option \<times> 'g LabDecoder \<times> (nat \<Rightarrow> gval) \<times> Labgob) result option" where
  "Decode table T gob_Decode e dec h s =
     Option.bind (checkValue table T (map_option fst e) s)
       (\<lambda>r. Some (result_bind r (\<lambda>s.
          result_bind (checkDefault table h (map_option snd e) s) (\<lambda>s.
            case gob_Decode e (dec_gob dec) h of (err, g, h) \<Rightarrow> Inr (err, dec\<lparr>dec_gob := g\<rparr>, h, s)))))"

definition Register ::
  "(nat \<Rightarrow> bool) \<Rightarrow> typetab \<Rightarrow> (go_iface \<Rightarrow> 'r \<Rightarrow> 'r) \<Rightarrow> go_iface \<Rightarrow> 'r \<Rightarrow> Labgob \<Rightarrow> ('r \<times> Labgob) result option" where
  "Register table T gob_Register e reg s =
     Option.bind (checkValue table T (map_option fst e) s)
       (\<lambda>r. Some (result_bind r (\<lambda>s. Inr (gob_Register e reg, s))))"

definition RegisterName ::
  "(nat \<Rightarrow> bool) \<Rightarrow> typetab \<Rightarrow> (string \<Rightarrow> go_iface \<Rightarrow> 'r \<Rightarrow> 'r) \<Rightarrow> string \<Rightarrow> go_iface \<Rightarrow> 'r \<Rightarrow> Labgob
    \<Rightarrow> ('r \<times> Labgob) result option" where
  "RegisterName table T gob_RegisterName name e reg s =
     Option.bind (checkValue table T (map_option fst e) s)
       (\<lambda>r. Some (result_bind r (\<lambda>s. Inr (gob_RegisterName name e reg, s))))"

section \<open>The walk over types\<close>

text \<open>The types a type mentions, the types reached from it, and its fields that do not start with a capital.\<close>

fun mentions :: "kind \<Rightarrow> rtype set" where
  "mentions (StructK fs) = fieldType ` set fs"
| "mentions (SliceK e) = {e}"
| "mentions (ArrayK e) = {e}"
| "mentions (PtrK e) = {e}"
| "mentions (MapK k e) = {k, e}"
| "mentions OtherK = {}"

definition type_rel :: "typetab \<Rightarrow> (rtype \<times> rtype) set" where
  "type_rel T = {(t, u). u \<in> mentions (typeKind T t)}"

definition reached :: "typetab \<Rightarrow> rtype \<Rightarrow> rtype set" where
  "reached T t = (type_rel T)\<^sup>* `` {t}"

fun lower_fields :: "(nat \<Rightarrow> bool) \<Rightarrow> kind \<Rightarrow> nat" where
  "lower_fields table (StructK fs) = length (filter (\<lambda>f. \<not> capital table (fieldName f)) fs)"
| "lower_fields table _ = 0"

abbreviation done_types :: "Labgob \<Rightarrow> rtype set" where
  "done_types s \<equiv> Collect (seen s)"

text \<open>
  What a part of the walk does that starts from the types \<open>X\<close> and warns about \<open>k\<close> fields on its own: it marks
  the types \<open>X\<close> and new types only, all reached from \<open>X\<close>, leaves no new type with an unmarked one it mentions,
  and counts and prints one warning for each lower-case field of the new types.
\<close>

definition walked :: "(nat \<Rightarrow> bool) \<Rightarrow> typetab \<Rightarrow> rtype set \<Rightarrow> nat \<Rightarrow> Labgob \<Rightarrow> Labgob \<Rightarrow> bool" where
  "walked table T X k s s' \<longleftrightarrow>
     done_types s \<subseteq> done_types s' \<and> X \<subseteq> done_types s' \<and>
     done_types s' - done_types s \<subseteq> (type_rel T)\<^sup>* `` X \<and> finite (done_types s' - done_types s) \<and>
     (\<forall>u \<in> done_types s' - done_types s. mentions (typeKind T u) \<subseteq> done_types s') \<and>
     (\<exists>n. n = k + (\<Sum>u \<in> done_types s' - done_types s. lower_fields table (typeKind T u)) \<and>
        errorCount s' = errorCount s + int n \<and> length (printed s') = length (printed s) + n)"

lemma walked_refl: "X \<subseteq> done_types s \<Longrightarrow> walked table T X 0 s s"
  by (simp add: walked_def)

lemma walked_trans:
  assumes "walked table T X k s s'" "walked table T Y l s' s''"
  shows "walked table T (X \<union> Y) (k + l) s s''"
proof -
  define A where "A = done_types s' - done_types s"
  define B where "B = done_types s'' - done_types s'"
  have sub: "done_types s \<subseteq> done_types s'" "done_types s' \<subseteq> done_types s''"
    and fin: "finite A" "finite B"
    using assms unfolding walked_def A_def B_def by blast+
  have AB: "done_types s'' - done_types s = A \<union> B" "A \<inter> B = {}"
    using sub unfolding A_def B_def by blast+
  let ?L = "\<lambda>u. lower_fields table (typeKind T u)"
  have sum: "sum ?L (A \<union> B) = sum ?L A + sum ?L B"
    by (rule sum.union_disjoint [OF fin AB(2)])
  have c1: "errorCount s' = errorCount s + int (k + sum ?L A) \<and>
      length (printed s') = length (printed s) + (k + sum ?L A)"
    using assms(1) unfolding walked_def A_def by blast
  have c2: "errorCount s'' = errorCount s' + int (l + sum ?L B) \<and>
      length (printed s'') = length (printed s') + (l + sum ?L B)"
    using assms(2) unfolding walked_def B_def by blast
  have 1: "A \<union> B \<subseteq> (type_rel T)\<^sup>* `` (X \<union> Y)"
    using assms unfolding walked_def A_def B_def by blast
  have 2: "\<forall>u \<in> A \<union> B. mentions (typeKind T u) \<subseteq> done_types s''"
    using assms sub unfolding walked_def A_def B_def by blast
  have 3: "X \<union> Y \<subseteq> done_types s''"
    using assms sub unfolding walked_def by blast
  show ?thesis
    unfolding walked_def AB(1) using sub fin 1 2 3 c1 c2 sum by auto
qed

text \<open>Marking a type and then walking all it mentions walks the type.\<close>

lemma walked_mark:
  assumes "\<not> seen s t" "s1 = s\<lparr>checked := Some ((seen s)(t := True))\<rparr>"
    and "walked table T (mentions (typeKind T t)) (lower_fields table (typeKind T t)) s1 s'"
  shows "walked table T {t} 0 s s'"
proof -
  have s1: "done_types s1 = insert t (done_types s)" "errorCount s1 = errorCount s" "printed s1 = printed s"
    using assms(2) by (auto simp: seen_def)
  define A where "A = done_types s' - done_types s1"
  have tA: "t \<notin> A" unfolding A_def s1 by blast
  have sub: "insert t (done_types s) \<subseteq> done_types s'"
    and fin: "finite A"
    using assms(3) unfolding walked_def s1 A_def by blast+
  have d: "done_types s' - done_types s = insert t A"
    using sub assms(1) unfolding A_def s1 by blast
  have step: "u \<in> (type_rel T)\<^sup>* `` {t}" if "u \<in> (type_rel T)\<^sup>* `` mentions (typeKind T t)" for u
    using that by (auto simp: type_rel_def intro: converse_rtrancl_into_rtrancl)
  have r: "insert t A \<subseteq> (type_rel T)\<^sup>* `` {t}"
    using assms(3) step unfolding walked_def A_def by blast
  have m: "\<forall>u \<in> insert t A. mentions (typeKind T u) \<subseteq> done_types s'"
    using assms(3) unfolding walked_def A_def by blast
  let ?L = "\<lambda>u. lower_fields table (typeKind T u)"
  have sum: "sum ?L (insert t A) = ?L t + sum ?L A"
    using fin tA by simp
  have "errorCount s' = errorCount s + int (?L t + sum ?L A) \<and>
      length (printed s') = length (printed s) + (?L t + sum ?L A)"
    using assms(3) unfolding walked_def A_def s1 by blast
  then show ?thesis
    unfolding walked_def d using sub fin r m sum by simp
qed

lemma walked_warn: "walked table T {} (if capital table (fieldName f) then 0 else 1) s (warn_field table T t f s)"
  by (auto simp: walked_def warn_field_def seen_def)

text \<open>The loop over the fields of a struct, when the walk ends from each of their types.\<close>

lemma walk_fields:
  assumes "\<And>e s. e \<in> U \<Longrightarrow> V \<subseteq> done_types s \<Longrightarrow> \<exists>s'. checkType table T e s = Some s' \<and> walked table T {e} 0 s s'"
    and "fieldType ` set fs \<subseteq> U" "V \<subseteq> done_types s"
  shows "\<exists>s'. fold_opt (\<lambda>f s. checkType table T (fieldType f) (warn_field table T t f s)) fs s = Some s' \<and>
    walked table T (fieldType ` set fs) (length (filter (\<lambda>f. \<not> capital table (fieldName f)) fs)) s s'"
  using assms(2,3)
proof (induction fs arbitrary: s)
  case Nil
  show ?case by (simp add: walked_refl)
next
  case (Cons f fs)
  define s1 where "s1 = warn_field table T t f s"
  define k where "k = (if capital table (fieldName f) then 0 else 1 :: nat)"
  have w1: "walked table T {} k s s1" unfolding s1_def k_def by (rule walked_warn)
  then have V1: "V \<subseteq> done_types s1" using Cons.prems(2) unfolding walked_def by blast
  obtain s2 where s2: "checkType table T (fieldType f) s1 = Some s2" "walked table T {fieldType f} 0 s1 s2"
    using assms(1) [OF _ V1, of "fieldType f"] Cons.prems(1) by auto
  then have V2: "V \<subseteq> done_types s2" using V1 unfolding walked_def by blast
  obtain s3 where s3: "fold_opt (\<lambda>f s. checkType table T (fieldType f) (warn_field table T t f s)) fs s2 = Some s3"
      "walked table T (fieldType ` set fs) (length (filter (\<lambda>f. \<not> capital table (fieldName f)) fs)) s2 s3"
    using Cons.IH [OF _ V2] Cons.prems(1) by auto
  have "walked table T (({} \<union> {fieldType f}) \<union> fieldType ` set fs)
      ((k + 0) + length (filter (\<lambda>f. \<not> capital table (fieldName f)) fs)) s s3"
    by (rule walked_trans [OF walked_trans [OF w1 s2(2)] s3(2)])
  then have "walked table T (fieldType ` set (f # fs)) (length (filter (\<lambda>f. \<not> capital table (fieldName f)) (f # fs))) s s3"
    by (simp add: k_def split: if_splits)
  moreover have "fold_opt (\<lambda>f s. checkType table T (fieldType f) (warn_field table T t f s)) (f # fs) s = Some s3"
    using s2(1) s3(1) by (simp add: s1_def)
  ultimately show ?case by blast
qed

text \<open>With finitely many types the walk ends.\<close>

lemma checkType_walks:
  assumes "finite U" "\<And>u. u \<in> U \<Longrightarrow> mentions (typeKind T u) \<subseteq> U"
  shows "t \<in> U \<Longrightarrow> \<exists>s'. checkType table T t s = Some s' \<and> walked table T {t} 0 s s'"
proof (induction "card (U - done_types s)" arbitrary: t s rule: less_induct)
  case less
  show ?case
  proof (cases "seen s t")
    case True
    then have "checkType table T t s = Some (s\<lparr>checked := Some (seen s)\<rparr>)"
      by (subst checkType.simps) simp
    moreover have "walked table T {t} 0 s (s\<lparr>checked := Some (seen s)\<rparr>)"
      using True by (simp add: walked_def seen_def)
    ultimately show ?thesis by blast
  next
    case False
    define s1 where "s1 = s\<lparr>checked := Some ((seen s)(t := True))\<rparr>"
    define V where "V = insert t (done_types s)"
    have d1: "done_types s1 = V" by (auto simp: s1_def V_def seen_def)
    have IH: "\<exists>s'. checkType table T e r = Some s' \<and> walked table T {e} 0 r s'"
      if "e \<in> U" "V \<subseteq> done_types r" for e r
    proof (rule less.hyps [OF _ that(1)])
      have "U - done_types r \<subset> U - done_types s" using that(2) less.prems False unfolding V_def by blast
      then show "card (U - done_types r) < card (U - done_types s)" using assms(1) by (simp add: psubset_card_mono)
    qed
    have sub: "mentions (typeKind T t) \<subseteq> U" by (rule assms(2) [OF less.prems])
    have "\<exists>s'. checkType table T t s = Some s' \<and>
      walked table T (mentions (typeKind T t)) (lower_fields table (typeKind T t)) s1 s'"
    proof (cases "typeKind T t")
      case (StructK fs)
      then have ct: "checkType table T t s =
          fold_opt (\<lambda>f s. checkType table T (fieldType f) (warn_field table T t f s)) fs s1"
        using False by (subst checkType.simps) (simp add: s1_def)
      show ?thesis
        unfolding ct using walk_fields [OF IH, where fs = fs and s = s1 and t = t] sub StructK d1 by simp
    next
      case (MapK k e)
      then have ct: "checkType table T t s = Option.bind (checkType table T e s1) (checkType table T k)"
        using False by (subst checkType.simps) (simp add: s1_def)
      obtain s2 where s2: "checkType table T e s1 = Some s2" "walked table T {e} 0 s1 s2"
        using IH [of e s1] sub MapK d1 by auto
      then have "V \<subseteq> done_types s2" unfolding walked_def d1 by blast
      then obtain s3 where s3: "checkType table T k s2 = Some s3" "walked table T {k} 0 s2 s3"
        using IH [of k s2] sub MapK by auto
      have "walked table T ({e} \<union> {k}) (0 + 0) s1 s3" by (rule walked_trans [OF s2(2) s3(2)])
      then show ?thesis
        unfolding ct using s2(1) s3(1) MapK by (simp add: insert_commute)
    next
      case OtherK
      then have "checkType table T t s = Some s1"
        using False by (subst checkType.simps) (simp add: s1_def)
      then show ?thesis using OtherK by (simp add: walked_refl)
    qed (use IH [of _ s1] sub d1 False in \<open>subst checkType.simps, simp add: s1_def\<close>)+
    then show ?thesis
      using walked_mark [OF False s1_def] by blast
  qed
qed

text \<open>Between calls the marked types mention marked types only.\<close>

definition settled :: "typetab \<Rightarrow> Labgob \<Rightarrow> bool" where
  "settled T s \<longleftrightarrow> (\<forall>u \<in> done_types s. mentions (typeKind T u) \<subseteq> done_types s)"

lemma settled_init: "settled T labgob_init"
  by (simp add: settled_def seen_def labgob_init_def)

lemma settled_reached:
  assumes "settled T s" "seen s t"
  shows "reached T t \<subseteq> done_types s"
proof
  fix u
  assume "u \<in> reached T t"
  then have "(t, u) \<in> (type_rel T)\<^sup>*" by (simp add: reached_def)
  then show "u \<in> done_types s"
    using assms by induction (auto simp: settled_def type_rel_def)
qed

lemma reached_closed: "u \<in> reached T t \<Longrightarrow> mentions (typeKind T u) \<subseteq> reached T t"
  by (auto simp: reached_def type_rel_def intro: rtrancl_into_rtrancl)

lemma reached_self: "t \<in> reached T t"
  by (simp add: reached_def)

text \<open>A second look at a type that was walked changes nothing.\<close>

lemma checkType_again: "seen s t \<Longrightarrow> checked s = Some m \<Longrightarrow> checkType table T t s = Some s"
  by (subst checkType.simps) (simp add: seen_def)

lemma seen_checked: "seen s t \<Longrightarrow> checked s = Some (seen s)"
  by (auto simp: seen_def split: option.splits)

lemma walked_settled:
  assumes "walked table T {t} 0 s s'" "settled T s"
  shows "settled T s'" "done_types s' = done_types s \<union> reached T t"
proof -
  show st: "settled T s'"
    using assms unfolding walked_def settled_def by blast
  have "seen s' t" using assms(1) unfolding walked_def by blast
  then have "reached T t \<subseteq> done_types s'" by (rule settled_reached [OF st])
  then show "done_types s' = done_types s \<union> reached T t"
    using assms(1) unfolding walked_def reached_def by blast
qed

section \<open>Decoding\<close>

text \<open>The check of the target panics or returns, it never exits the program.\<close>

lemma checkDefault1_not_fatal: "checkDefault1 table h fl v depth name s \<noteq> Inl Fatal"
proof (induction table h fl v depth name s rule: checkDefault1.induct)
  case (1 table h fl v depth name s)
  show ?case
  proof (cases "depth > 3")
    case True
    then show ?thesis by (simp add: checkDefault1.simps)
  next
    case False
    have *: "for_each (\<lambda>(f, embedded, vv).
        checkDefault1 table h (field_flags table fl f embedded) vv (depth + 1) (sub_name name f)) fs r \<noteq> Inl Fatal"
      if "\<And>x r. x \<in> set fs \<Longrightarrow> (case x of (f, embedded, vv) \<Rightarrow>
        checkDefault1 table h (field_flags table fl f embedded) vv (depth + 1) (sub_name name f)) r \<noteq> Inl Fatal" for fs r
      using that
    proof (induction fs arbitrary: r)
      case (Cons x fs)
      show ?case
      proof (cases "(case x of (f, embedded, vv) \<Rightarrow>
          checkDefault1 table h (field_flags table fl f embedded) vv (depth + 1) (sub_name name f)) r")
        case (Inl c)
        with Cons.prems [of x r] show ?thesis by simp
      next
        case (Inr r')
        with Cons show ?thesis by simp
      qed
    qed simp
    from 1 False * show ?thesis
      by (subst checkDefault1.simps) (auto split: gval.split option.split)
  qed
qed

lemma for_each_panics:
  assumes "x \<in> set xs" "\<And>s. f x s = Inl Panic" "\<And>y s. y \<in> set xs \<Longrightarrow> f y s \<noteq> Inl Fatal"
  shows "for_each f xs s = Inl Panic"
  using assms(1,3)
proof (induction xs arbitrary: s)
  case (Cons y ys)
  show ?case
  proof (cases "f y s")
    case (Inl c)
    with Cons.prems(2) [of y s] show ?thesis by (cases c) auto
  next
    case (Inr s')
    with assms(2) [of s] have "x \<noteq> y" by auto
    with Cons Inr show ?thesis by simp
  qed
qed simp

text \<open>
  A target with a number, string or boolean in a lower-case field panics before it is decoded: the check asks
  \<open>reflect\<close> for the value of a field that is not exported.
\<close>

lemma decode_lower_field_panics:
  assumes "h a = StructV fs" "(f, False, BasicV tn b) \<in> set fs" "\<not> capital table f"
  shows "checkDefault table h (Some (PtrV (Some a))) s = Inl Panic"
proof -
  let ?fl = "\<lparr>stickyRO = False, embedRO = False\<rparr>"
  have "for_each (\<lambda>(f, embedded, vv). checkDefault1 table h (field_flags table ?fl f embedded) vv (2 + 1) (sub_name '''' f)) fs s
      = Inl Panic"
  proof (rule for_each_panics [OF assms(2)])
    fix r
    show "(case (f, False, BasicV tn b) of (f, embedded, vv) \<Rightarrow>
        checkDefault1 table h (field_flags table ?fl f embedded) vv (2 + 1) (sub_name '''' f)) r = Inl Panic"
      using assms(3) by (simp add: checkDefault1.simps field_flags_def)
  qed (auto simp: checkDefault1_not_fatal)
  then have "checkDefault1 table h ?fl (StructV fs) 2 '''' s = Inl Panic"
    by (subst checkDefault1.simps) simp
  then show ?thesis
    using assms(1) unfolding checkDefault_def
    by (subst checkDefault1.simps) (simp add: numeral_2_eq_2)
qed

section \<open>Properties\<close>

text \<open>C37. Checking a value of a type warns about everything it should, once. Where the types reached from it are
  finitely many, recursive ones included, the walk ends. Afterwards exactly these types and the ones checked
  before are marked, and the counter and the output have grown by one for each lower-case field of a struct
  type that is reached and was not checked before. Checking the type again changes nothing.
\<close>

theorem checkValue_warns_once:
  assumes "finite (reached T t)" "settled T s"
  shows "\<exists>s'. checkValue table T (Some t) s = Some (Inr s') \<and> settled T s' \<and>
    done_types s' = done_types s \<union> reached T t \<and>
    errorCount s' = errorCount s + int (\<Sum>u \<in> reached T t - done_types s. lower_fields table (typeKind T u)) \<and>
    length (printed s') =
      length (printed s) + (\<Sum>u \<in> reached T t - done_types s. lower_fields table (typeKind T u)) \<and>
    checkValue table T (Some t) s' = Some (Inr s')"
proof -
  obtain s' where s': "checkType table T t s = Some s'" "walked table T {t} 0 s s'"
    using checkType_walks [OF assms(1) reached_closed reached_self] by blast
  note st = walked_settled [OF s'(2) assms(2)]
  have new: "done_types s' - done_types s = reached T t - done_types s"
    using st(2) by blast
  have "seen s' t" using st(2) reached_self by blast
  then have "checkType table T t s' = Some s'" using checkType_again seen_checked by blast
  moreover have "errorCount s' = errorCount s + int (\<Sum>u \<in> reached T t - done_types s. lower_fields table (typeKind T u)) \<and>
      length (printed s') =
        length (printed s) + (\<Sum>u \<in> reached T t - done_types s. lower_fields table (typeKind T u))"
    using s'(2) unfolding walked_def new by auto
  ultimately show ?thesis
    using s'(1) st by (auto simp: checkValue_def)
qed

text \<open>The witness: a list cell \<open>struct {Next *cell; val int}\<close>, which refers to itself.\<close>

definition ex_types :: typetab where
  "ex_types =
     \<lparr>typeName = (\<lambda>_. ''cell''),
      typeKind = (\<lambda>t.
        if t = 0 then StructK [\<lparr>fieldName = ''Next'', fieldType = 1\<rparr>, \<lparr>fieldName = ''val'', fieldType = 2\<rparr>]
        else if t = 1 then PtrK 0
        else OtherK)\<rparr>"

lemma ex_types_rel: "type_rel ex_types = {(0, 1), (0, 2), (1, 0)}"
  by (auto simp: type_rel_def ex_types_def split: if_splits)

lemma ex_types_reached: "reached ex_types 0 = {0, 1, 2}"
proof
  have "u \<in> {0, 1, 2}" if "(0, u) \<in> (type_rel ex_types)\<^sup>*" for u
    using that by induction (auto simp: ex_types_rel)
  then show "reached ex_types 0 \<subseteq> {0, 1, 2}" by (auto simp: reached_def)
  show "{0, 1, 2} \<subseteq> reached ex_types 0"
    using ex_types_rel by (auto simp: reached_def intro: r_into_rtrancl)
qed

theorem checkValue_warns_once_witness:
  "\<exists>s'. checkValue (\<lambda>_. False) ex_types (Some 0) labgob_init = Some (Inr s') \<and> errorCount s' = 1 \<and>
     done_types s' = {0, 1, 2} \<and> checkValue (\<lambda>_. False) ex_types (Some 0) s' = Some (Inr s')"
proof -
  have cap: "capital (\<lambda>_. False) ''Next''" "\<not> capital (\<lambda>_. False) ''val''"
    by (simp_all add: capital_def IsUpper_def DecodeRuneInString_def decode_bytes_def)
  have fin: "finite (reached ex_types 0)" by (simp add: ex_types_reached)
  have "done_types labgob_init = {}" by (simp add: seen_def labgob_init_def)
  moreover have "(\<Sum>u \<in> {0, 1, 2 :: nat}. lower_fields (\<lambda>_. False) (typeKind ex_types u)) = 1"
    using cap by (simp add: ex_types_def)
  moreover have "errorCount labgob_init = 0" by (simp add: labgob_init_def)
  moreover obtain s' where "checkValue (\<lambda>_. False) ex_types (Some 0) labgob_init = Some (Inr s')"
      "done_types s' = done_types labgob_init \<union> {0, 1, 2}"
      "errorCount s' = errorCount labgob_init +
        int (\<Sum>u \<in> {0, 1, 2} - done_types labgob_init. lower_fields (\<lambda>_. False) (typeKind ex_types u))"
      "checkValue (\<lambda>_. False) ex_types (Some 0) s' = Some (Inr s')"
    using checkValue_warns_once [OF fin settled_init, of "\<lambda>_. False"] unfolding ex_types_reached by blast
  ultimately show ?thesis
    by (intro exI [of _ s'] conjI) (simp_all only: Un_empty_left Diff_empty of_nat_1 add_0)
qed

end
