(* ===== verification/MapReduce.thy ===== *)
theory MapReduce
  imports GoSort Strconv Utf8 "HOL-Library.Char_ord" "HOL-Library.List_Lexorder"
begin

text \<open>
  MapReduce: the sequential program \<open>main/mrsequential.go\<close>, the skeleton of the distributed one (\<open>mr/\<close>,
  \<open>main/mrworker.go\<close>, \<open>main/mrcoordinator.go\<close>) and the applications of \<open>mrapps/\<close>.

  An application is a pair of functions that may change a world \<open>'w\<close> (files, random numbers) and may stop the
  program. Files, plugins and the operating system are arguments. \<open>sort.Sort\<close> is the parameter \<open>srt\<close>, of which
  only the laws of the locale \<open>sorting\<close> are used: equal keys may come out in any order. Strings are compared
  byte by byte, as in Go.
\<close>

section \<open>Data\<close>

record KeyValue =
  Key :: string
  Value :: string

text \<open>The methods of \<open>ByKey\<close>.\<close>

definition key_less :: "KeyValue \<Rightarrow> KeyValue \<Rightarrow> bool" where
  "key_less a b \<longleftrightarrow> Key a < Key b"

definition ByKey_Len :: "KeyValue list \<Rightarrow> nat" where
  "ByKey_Len a = length a"

definition ByKey_Swap :: "KeyValue list \<Rightarrow> nat \<Rightarrow> nat \<Rightarrow> KeyValue list result" where
  "ByKey_Swap a i j =
     result_bind (get_at a j) (\<lambda>x. result_bind (get_at a i) (\<lambda>y.
       result_bind (set_at a i x) (\<lambda>a. set_at a j y)))"

definition ByKey_Less :: "KeyValue list \<Rightarrow> nat \<Rightarrow> nat \<Rightarrow> bool result" where
  "ByKey_Less a i j =
     result_bind (get_at a i) (\<lambda>x. result_bind (get_at a j) (\<lambda>y. Inr (key_less x y)))"

text \<open>\<open>ihash\<close>: FNV-1a on 32 bits without the top bit.\<close>

definition fnv32a :: "string \<Rightarrow> uint32" where
  "fnv32a s = foldl (\<lambda>h c. (h XOR of_nat (of_char c)) * 16777619) 2166136261 s"

definition ihash :: "string \<Rightarrow> int" where
  "ihash key = uint (fnv32a key AND 0x7FFFFFFF)"

section \<open>Plugins\<close>

type_synonym 'w mapper = "string \<Rightarrow> string \<Rightarrow> 'w \<Rightarrow> (KeyValue list \<times> 'w) result"
type_synonym 'w reducer = "string \<Rightarrow> string list \<Rightarrow> 'w \<Rightarrow> (string \<times> 'w) result"

text \<open>A symbol of a plugin, with its type; a plugin file maps names to symbols.\<close>

datatype 'w plugin_symbol = MapSym "'w mapper" | ReduceSym "'w reducer" | OtherSym

type_synonym 'w plugins = "string \<Rightarrow> (string \<Rightarrow> 'w plugin_symbol option) option"

fun as_map :: "'w plugin_symbol \<Rightarrow> 'w mapper result" where
  "as_map (MapSym m) = Inr m"
| "as_map _ = Inl Panic"

fun as_reduce :: "'w plugin_symbol \<Rightarrow> 'w reducer result" where
  "as_reduce (ReduceSym r) = Inr r"
| "as_reduce _ = Inl Panic"

definition or_fatal :: "'a option \<Rightarrow> 'a result" where
  "or_fatal x = (case x of None \<Rightarrow> Inl Fatal | Some a \<Rightarrow> Inr a)"

definition loadPlugin :: "'w plugins \<Rightarrow> string \<Rightarrow> ('w mapper \<times> 'w reducer) result" where
  "loadPlugin plugin_Open filename =
     result_bind (or_fatal (plugin_Open filename)) (\<lambda>p.
     result_bind (or_fatal (p ''Map'')) (\<lambda>xmapf.
     result_bind (as_map xmapf) (\<lambda>mapf.
     result_bind (or_fatal (p ''Reduce'')) (\<lambda>xreducef.
     result_bind (as_reduce xreducef) (\<lambda>reducef. Inr (mapf, reducef))))))"

section \<open>The sequential program\<close>

text \<open>The loop over the input files; a file that cannot be opened or read stops the program.\<close>

definition map_file ::
  "(string \<Rightarrow> string option) \<Rightarrow> 'w mapper \<Rightarrow> string \<Rightarrow> KeyValue list \<times> 'w \<Rightarrow> (KeyValue list \<times> 'w) result" where
  "map_file read_file mapf filename st =
     (case st of
        (intermediate, w) \<Rightarrow>
          result_bind (or_fatal (read_file filename)) (\<lambda>content.
          result_bind (mapf filename content w) (\<lambda>(kva, w). Inr (intermediate @ kva, w))))"

text \<open>The loops over the sorted pairs: \<open>j\<close> moves to the first pair with another key.\<close>

function scan_key :: "KeyValue list \<Rightarrow> nat \<Rightarrow> nat \<Rightarrow> nat" where
  "scan_key kvs i j = (if j < length kvs \<and> Key (kvs ! j) = Key (kvs ! i) then scan_key kvs i (j + 1) else j)"
  by pat_completeness auto

termination
  by (relation "measure (\<lambda>(kvs, i, j). length kvs - j)") auto

declare scan_key.simps [simp del]

lemma scan_key_takeWhile:
  "scan_key kvs i j = j + length (takeWhile (\<lambda>y. Key y = Key (kvs ! i)) (drop j kvs))"
proof (induction kvs i j rule: scan_key.induct)
  case (1 kvs i j)
  show ?case
  proof (cases "j < length kvs")
    case True
    then have "drop j kvs = kvs ! j # drop (j + 1) kvs" by (simp add: Cons_nth_drop_Suc)
    with 1 True show ?thesis by (subst scan_key.simps) simp
  next
    case False
    then show ?thesis by (subst scan_key.simps) simp
  qed
qed

definition out_line :: "string \<Rightarrow> string \<Rightarrow> string" where
  "out_line key output = key @ '' '' @ output @ [CHR 0x0A]"

function reduce_loop :: "'w reducer \<Rightarrow> KeyValue list \<Rightarrow> nat \<Rightarrow> string \<Rightarrow> 'w \<Rightarrow> (string \<times> 'w) result" where
  "reduce_loop reducef kvs i ofile w =
     (if i < length kvs then
        let j = scan_key kvs i (i + 1);
            values = map (\<lambda>k. Value (kvs ! k)) [i..<j]
        in result_bind (reducef (Key (kvs ! i)) values w)
             (\<lambda>p. reduce_loop reducef kvs j (ofile @ out_line (Key (kvs ! i)) (fst p)) (snd p))
      else Inr (ofile, w))"
  by pat_completeness auto

termination
  by (relation "measure (\<lambda>(_, kvs, i, _). length kvs - i)") (auto simp: scan_key_takeWhile)

declare reduce_loop.simps [simp del]

text \<open>\<open>main\<close> gives the contents of \<open>mr-out-0\<close>. A missing argument prints the usage and exits.\<close>

definition mrsequential ::
  "((KeyValue \<Rightarrow> KeyValue \<Rightarrow> bool) \<Rightarrow> KeyValue list \<Rightarrow> KeyValue list) \<Rightarrow> 'w plugins \<Rightarrow> (string \<Rightarrow> string option)
    \<Rightarrow> string list \<Rightarrow> 'w \<Rightarrow> (string \<times> 'w) result" where
  "mrsequential srt plugin_Open read_file args w =
     (if length args < 3 then Inl Fatal
      else
        result_bind (loadPlugin plugin_Open (args ! 1)) (\<lambda>(mapf, reducef).
        result_bind (for_each (map_file read_file mapf) (drop 2 args) ([], w)) (\<lambda>(intermediate, w).
        reduce_loop reducef (srt key_less intermediate) 0 '''' w)))"

section \<open>The distributed program\<close>

record ExampleArgs =
  X :: int

record ExampleReply =
  Y :: int

definition coordinatorSock :: "int \<Rightarrow> string" where
  "coordinatorSock uid = ''/var/tmp/5840-mr-'' @ Itoa uid"

definition Coordinator_Example :: "ExampleArgs \<Rightarrow> ExampleReply \<Rightarrow> ExampleReply" where
  "Coordinator_Example args reply = reply\<lparr>Y := X args + 1\<rparr>"

definition Coordinator_Done :: bool where
  "Coordinator_Done = False"

text \<open>
  \<open>server\<close>: removes the socket and listens on it. The address of the listener is logged before the error is
  looked at, so a failed \<open>Listen\<close> is a nil dereference. \<open>listen\<close> gives the world with the listener served.
\<close>

definition Coordinator_server :: "(string \<Rightarrow> 'w \<Rightarrow> 'w option) \<Rightarrow> (string \<Rightarrow> 'w \<Rightarrow> 'w) \<Rightarrow> int \<Rightarrow> 'w \<Rightarrow> 'w result" where
  "Coordinator_server listen os_Remove uid w =
     (let sockname = coordinatorSock uid in deref (listen sockname (os_Remove sockname w)))"

definition MakeCoordinator ::
  "(string \<Rightarrow> 'w \<Rightarrow> 'w option) \<Rightarrow> (string \<Rightarrow> 'w \<Rightarrow> 'w) \<Rightarrow> int \<Rightarrow> string list \<Rightarrow> int \<Rightarrow> 'w \<Rightarrow> 'w result" where
  "MakeCoordinator listen os_Remove uid files nReduce w = Coordinator_server listen os_Remove uid w"

text \<open>\<open>mrcoordinator\<close>: polls \<open>Done\<close> until it holds; \<^term>\<open>None\<close> is a run that does not end.\<close>

partial_function (option) poll_done :: "bool \<Rightarrow> unit option" where
  "poll_done d = (if d then Some () else poll_done Coordinator_Done)"

definition mrcoordinator ::
  "(string \<Rightarrow> 'w \<Rightarrow> 'w option) \<Rightarrow> (string \<Rightarrow> 'w \<Rightarrow> 'w) \<Rightarrow> int \<Rightarrow> string list \<Rightarrow> 'w \<Rightarrow> 'w result option" where
  "mrcoordinator listen os_Remove uid args w =
     (if length args < 2 then Some (Inl Fatal)
      else
        case MakeCoordinator listen os_Remove uid (drop 1 args) 10 w of
          Inl c \<Rightarrow> Some (Inl c)
        | Inr w \<Rightarrow> map_option (\<lambda>_. Inr w) (poll_done Coordinator_Done))"

text \<open>
  \<open>call\<close> dials the socket, which exits the program when it fails, and sends one request: the connection gives an
  error or fills the reply.
\<close>

definition mr_call ::
  "(string \<Rightarrow> (string \<Rightarrow> ExampleArgs \<Rightarrow> ExampleReply \<Rightarrow> ExampleReply option) option) \<Rightarrow> int \<Rightarrow> string
    \<Rightarrow> ExampleArgs \<Rightarrow> ExampleReply \<Rightarrow> (bool \<times> ExampleReply) result" where
  "mr_call dial uid rpcname args reply =
     result_bind (or_fatal (dial (coordinatorSock uid))) (\<lambda>client.
       case client rpcname args reply of
         Some reply \<Rightarrow> Inr (True, reply)
       | None \<Rightarrow> Inr (False, reply))"

text \<open>What \<open>CallExample\<close> prints.\<close>

definition CallExample ::
  "(string \<Rightarrow> (string \<Rightarrow> ExampleArgs \<Rightarrow> ExampleReply \<Rightarrow> ExampleReply option) option) \<Rightarrow> int \<Rightarrow> string result" where
  "CallExample dial uid =
     result_bind (mr_call dial uid ''Coordinator.Example'' \<lparr>X = 99\<rparr> \<lparr>Y = 0\<rparr>) (\<lambda>(ok, reply).
       Inr (if ok then ''reply.Y '' @ Itoa (Y reply) @ [CHR 0x0A] else ''call failed!'' @ [CHR 0x0A]))"

definition Worker ::
  "(string \<Rightarrow> (string \<Rightarrow> ExampleArgs \<Rightarrow> ExampleReply \<Rightarrow> ExampleReply option) option) \<Rightarrow> int \<Rightarrow> 'w mapper
    \<Rightarrow> 'w reducer \<Rightarrow> string result" where
  "Worker dial uid mapf reducef = CallExample dial uid"

definition mrworker ::
  "'w plugins \<Rightarrow> (string \<Rightarrow> (string \<Rightarrow> ExampleArgs \<Rightarrow> ExampleReply \<Rightarrow> ExampleReply option) option) \<Rightarrow> int
    \<Rightarrow> string list \<Rightarrow> string result" where
  "mrworker plugin_Open dial uid args =
     (if length args \<noteq> 2 then Inl Fatal
      else result_bind (loadPlugin plugin_Open (args ! 1)) (\<lambda>(mapf, reducef). Worker dial uid mapf reducef))"

end
