(* ===== verification/MrApps.thy ===== *)
theory MrApps
  imports MapReduce
begin

text \<open>
  The applications of \<open>mrapps/\<close>: word count, inverted index, and the pseudo-applications that the test script
  uses to watch the workers. The world holds what they see of the operating system: the names in the working
  directory, which process ids are alive, the numbers \<open>crypto/rand\<close> and \<open>math/rand\<close> will give, and the time
  spent sleeping. Then the correctness of the sequential program with them.
\<close>

record AppWorld =
  dir :: "string list"
  pid :: int
  alive :: "int \<Rightarrow> bool"
  rand_Int :: "nat \<Rightarrow> nat \<Rightarrow> nat"
  drawn :: nat
  slept :: nat
  jobs :: int
  write_ok :: "string \<Rightarrow> bool"
  read_ok :: bool
  remove_ok :: "string \<Rightarrow> bool"

section \<open>Strings\<close>

fun JoinStrings :: "string list \<Rightarrow> string \<Rightarrow> string" where
  "JoinStrings [] sep = ''''"
| "JoinStrings [x] sep = x"
| "JoinStrings (x # xs) sep = x @ sep @ JoinStrings xs sep"

definition HasPrefix :: "string \<Rightarrow> string \<Rightarrow> bool" where
  "HasPrefix s p \<longleftrightarrow> take (length p) s = p"

fun Contains :: "string \<Rightarrow> string \<Rightarrow> bool" where
  "Contains [] p \<longleftrightarrow> p = []"
| "Contains (c # s) p \<longleftrightarrow> HasPrefix (c # s) p \<or> Contains s p"

text \<open>\<open>sort.Strings\<close>: the order is total, so every sorting function gives this list.\<close>

definition sort_Strings :: "string list \<Rightarrow> string list" where
  "sort_Strings vs = sort vs"

section \<open>Word count\<close>

definition wc_words :: "(nat \<Rightarrow> bool) \<Rightarrow> string \<Rightarrow> string list" where
  "wc_words letters contents = FieldsFunc contents (\<lambda>r. \<not> IsLetter letters r)"

definition wc_Map :: "(nat \<Rightarrow> bool) \<Rightarrow> string \<Rightarrow> string \<Rightarrow> KeyValue list" where
  "wc_Map letters filename contents = map (\<lambda>w. \<lparr>Key = w, Value = ''1''\<rparr>) (wc_words letters contents)"

definition wc_Reduce :: "string \<Rightarrow> string list \<Rightarrow> string" where
  "wc_Reduce key vs = Itoa (int (length vs))"

section \<open>Index\<close>

text \<open>\<open>order\<close> is the order in which Go ranges over the map of the words.\<close>

definition indexer_Map :: "(nat \<Rightarrow> bool) \<Rightarrow> (string set \<Rightarrow> string list) \<Rightarrow> string \<Rightarrow> string \<Rightarrow> KeyValue list" where
  "indexer_Map letters order document contents =
     map (\<lambda>w. \<lparr>Key = w, Value = document\<rparr>) (order (set (wc_words letters contents)))"

definition indexer_Reduce :: "string \<Rightarrow> string list \<Rightarrow> string" where
  "indexer_Reduce key vs =
     (let vs = sort_Strings vs in Itoa (int (length vs)) @ '' '' @ JoinStrings vs '','')"

section \<open>Crashes\<close>

definition draw :: "nat \<Rightarrow> AppWorld \<Rightarrow> nat \<times> AppWorld" where
  "draw n w = (rand_Int w n (drawn w), w\<lparr>drawn := drawn w + 1\<rparr>)"

definition crash_maybeCrash :: "AppWorld \<Rightarrow> AppWorld result" where
  "crash_maybeCrash w =
     (case draw 1000 w of
        (rr, w) \<Rightarrow>
          if rr < 330 then Inl Fatal
          else if rr < 660 then
            (case draw (10 * 1000) w of (ms, w) \<Rightarrow> Inr (w\<lparr>slept := slept w + ms\<rparr>))
          else Inr w)"

definition crash_kva :: "string \<Rightarrow> string \<Rightarrow> KeyValue list" where
  "crash_kva filename contents =
     [\<lparr>Key = ''a'', Value = filename\<rparr>,
      \<lparr>Key = ''b'', Value = Itoa (int (length filename))\<rparr>,
      \<lparr>Key = ''c'', Value = Itoa (int (length contents))\<rparr>,
      \<lparr>Key = ''d'', Value = ''xyzzy''\<rparr>]"

definition join_sorted :: "string list \<Rightarrow> string" where
  "join_sorted vs = JoinStrings (sort_Strings vs) '' ''"

definition crash_Map :: "AppWorld mapper" where
  "crash_Map filename contents w = result_bind (crash_maybeCrash w) (\<lambda>w. Inr (crash_kva filename contents, w))"

definition crash_Reduce :: "AppWorld reducer" where
  "crash_Reduce key vs w = result_bind (crash_maybeCrash w) (\<lambda>w. Inr (join_sorted vs, w))"

definition nocrash_maybeCrash :: "AppWorld \<Rightarrow> AppWorld result" where
  "nocrash_maybeCrash w =
     (case draw 1000 w of (rr, w) \<Rightarrow> if False \<and> rr < 500 then Inl Fatal else Inr w)"

definition nocrash_Map :: "AppWorld mapper" where
  "nocrash_Map filename contents w = result_bind (nocrash_maybeCrash w) (\<lambda>w. Inr (crash_kva filename contents, w))"

definition nocrash_Reduce :: "AppWorld reducer" where
  "nocrash_Reduce key vs w = result_bind (nocrash_maybeCrash w) (\<lambda>w. Inr (join_sorted vs, w))"

definition early_exit_Map :: "AppWorld mapper" where
  "early_exit_Map filename contents w = Inr ([\<lparr>Key = filename, Value = ''1''\<rparr>], w)"

definition early_exit_Reduce :: "AppWorld reducer" where
  "early_exit_Reduce key vs w =
     (let w = (if Contains key ''sherlock'' \<or> Contains key ''tom'' then w\<lparr>slept := slept w + 3000\<rparr> else w)
      in Inr (Itoa (int (length vs)), w))"

section \<open>Files that show the workers\<close>

definition WriteFile :: "string \<Rightarrow> AppWorld \<Rightarrow> AppWorld result" where
  "WriteFile f w =
     (if write_ok w f then Inr (if f \<in> set (dir w) then w else w\<lparr>dir := dir w @ [f]\<rparr>) else Inl Panic)"

definition jobcount_Map :: "AppWorld mapper" where
  "jobcount_Map filename contents w =
     (let f = ''mr-worker-jobcount-'' @ Itoa (pid w) @ ''-'' @ Itoa (jobs w);
          w = w\<lparr>jobs := jobs w + 1\<rparr>
      in result_bind (WriteFile f w) (\<lambda>w.
           case draw 3000 w of
             (r, w) \<Rightarrow> Inr ([\<lparr>Key = ''a'', Value = ''x''\<rparr>], w\<lparr>slept := slept w + (2000 + r)\<rparr>)))"

definition jobcount_Reduce :: "AppWorld reducer" where
  "jobcount_Reduce key vs w =
     (if read_ok w
      then Inr (Itoa (int (length (filter (\<lambda>f. HasPrefix f ''mr-worker-jobcount'') (dir w)))), w)
      else Inl Panic)"

text \<open>
  \<open>nparallel\<close>, the same in \<open>mtiming.go\<close> and \<open>rtiming.go\<close>: counts the files of this phase whose process is alive.
  \<open>sscanf phase name\<close> is the number that \<open>fmt.Sscanf\<close> reads from the name with the pattern of the phase.
\<close>

definition nparallel :: "(string \<Rightarrow> string \<Rightarrow> int option) \<Rightarrow> string \<Rightarrow> AppWorld \<Rightarrow> (int \<times> AppWorld) result" where
  "nparallel sscanf phase w =
     (let myfilename = ''mr-worker-'' @ phase @ ''-'' @ Itoa (pid w) in
      result_bind (WriteFile myfilename w) (\<lambda>w.
        if \<not> read_ok w then Inl Panic
        else
          let names = take 1000000 (dir w);
              ret = int (length (filter (\<lambda>name. case sscanf phase name of None \<Rightarrow> False | Some xpid \<Rightarrow> alive w xpid) names));
              w = w\<lparr>slept := slept w + 1000\<rparr>
          in if remove_ok w myfilename
             then Inr (ret, w\<lparr>dir := filter (\<lambda>f. f \<noteq> myfilename) (dir w)\<rparr>)
             else Inl Panic))"

text \<open>\<open>fmt_ts\<close> prints the time of the call with one decimal.\<close>

definition mtiming_Map :: "(string \<Rightarrow> string \<Rightarrow> int option) \<Rightarrow> (AppWorld \<Rightarrow> string) \<Rightarrow> AppWorld mapper" where
  "mtiming_Map sscanf fmt_ts filename contents w =
     (let ts = fmt_ts w in
      result_bind (nparallel sscanf ''map'' w) (\<lambda>(n, w).
        Inr ([\<lparr>Key = ''times-'' @ Itoa (pid w), Value = ts\<rparr>,
              \<lparr>Key = ''parallel-'' @ Itoa (pid w), Value = Itoa n\<rparr>], w)))"

definition mtiming_Reduce :: "AppWorld reducer" where
  "mtiming_Reduce key vs w = Inr (join_sorted vs, w)"

definition rtiming_Map :: "AppWorld mapper" where
  "rtiming_Map filename contents w =
     Inr (map (\<lambda>c. \<lparr>Key = [c], Value = ''1''\<rparr>) ''abcdefghij'', w)"

definition rtiming_Reduce :: "(string \<Rightarrow> string \<Rightarrow> int option) \<Rightarrow> AppWorld reducer" where
  "rtiming_Reduce sscanf key vs w =
     result_bind (nparallel sscanf ''reduce'' w) (\<lambda>(n, w). Inr (Itoa n, w))"

section \<open>Grouping\<close>

text \<open>A function of Go that changes nothing and always returns, as a mapper or reducer.\<close>

definition pure_map :: "(string \<Rightarrow> string \<Rightarrow> KeyValue list) \<Rightarrow> 'w mapper" where
  "pure_map m filename contents w = Inr (m filename contents, w)"

definition pure_reduce :: "(string \<Rightarrow> string list \<Rightarrow> string) \<Rightarrow> 'w reducer" where
  "pure_reduce r key vs w = Inr (r key vs, w)"

text \<open>The runs of equal keys.\<close>

function groups :: "KeyValue list \<Rightarrow> (string \<times> string list) list" where
  "groups [] = []"
| "groups (x # xs) =
     (Key x, Value x # map Value (takeWhile (\<lambda>y. Key y = Key x) xs)) # groups (dropWhile (\<lambda>y. Key y = Key x) xs)"
  by pat_completeness auto

termination
  by (relation "measure length") (auto simp: length_dropWhile_le less_Suc_eq_le)

lemma map_nth_upt:
  assumes "i \<le> j" "j \<le> length xs"
  shows "map (\<lambda>k. f (xs ! k)) [i..<j] = map f (take (j - i) (drop i xs))"
  by (rule nth_equalityI) (use assms in auto)

lemma reduce_loop_pure:
  "reduce_loop (pure_reduce r) kvs i ofile w =
     Inr (ofile @ concat (map (\<lambda>(k, vs). out_line k (r k vs)) (groups (drop i kvs))), w)"
proof (induction "length kvs - i" arbitrary: i ofile rule: less_induct)
  case less
  show ?case
  proof (cases "i < length kvs")
    case True
    define same where "same = takeWhile (\<lambda>y. Key y = Key (kvs ! i)) (drop (i + 1) kvs)"
    define j where "j = scan_key kvs i (i + 1)"
    have dr: "drop i kvs = kvs ! i # drop (i + 1) kvs" using True by (simp add: Cons_nth_drop_Suc)
    have j: "j = i + 1 + length same" unfolding j_def same_def by (rule scan_key_takeWhile)
    have len: "length same \<le> length kvs - (i + 1)"
      unfolding same_def using length_takeWhile_le [of _ "drop (i + 1) kvs"] by simp
    then have jl: "j \<le> length kvs" using j True by simp
    have rest: "dropWhile (\<lambda>y. Key y = Key (kvs ! i)) (drop (i + 1) kvs) = drop j kvs"
      unfolding dropWhile_eq_drop j same_def by (simp add: add.commute)
    have tk: "take (j - i) (drop i kvs) = kvs ! i # same"
      unfolding dr j same_def using takeWhile_eq_take [of "\<lambda>y. Key y = Key (kvs ! i)" "drop (i + 1) kvs"] by simp
    have vals: "map (\<lambda>k. Value (kvs ! k)) [i..<j] = Value (kvs ! i) # map Value same"
      using map_nth_upt [of i j kvs Value] j jl tk by simp
    have IH: "reduce_loop (pure_reduce r) kvs j out' w =
        Inr (out' @ concat (map (\<lambda>(k, vs). out_line k (r k vs)) (groups (drop j kvs))), w)" for out'
      by (rule less.hyps) (use True j jl in linarith)
    have g: "groups (drop i kvs) = (Key (kvs ! i), Value (kvs ! i) # map Value same) # groups (drop j kvs)"
      using dr rest by (simp add: same_def)
    have "scan_key kvs i (Suc i) = j" by (simp add: j_def)
    then show ?thesis
      using True by (subst reduce_loop.simps) (simp add: Let_def pure_reduce_def g vals IH)
  next
    case False
    then show ?thesis by (subst reduce_loop.simps) simp
  qed
qed

text \<open>In a list sorted by key each key has one run, with all its values.\<close>

lemma groups_sorted:
  assumes "sorted (map Key kvs)"
  shows "groups kvs =
    map (\<lambda>k. (k, map Value (filter (\<lambda>y. Key y = k) kvs))) (sorted_list_of_set (Key ` set kvs))"
  using assms
proof (induction kvs rule: groups.induct)
  case (2 x xs)
  define rest where "rest = dropWhile (\<lambda>y. Key y = Key x) xs"
  define same where "same = takeWhile (\<lambda>y. Key y = Key x) xs"
  have xs: "xs = same @ rest" unfolding same_def rest_def by simp
  have same: "y \<in> set same \<Longrightarrow> Key y = Key x" for y unfolding same_def by (auto dest: set_takeWhileD)
  have sr: "sorted (map Key rest)" using 2(2) xs by (simp add: sorted_append)
  have gt: "Key x < Key y" if "y \<in> set rest" for y
  proof -
    have "rest \<noteq> []" using that by auto
    then have h: "Key (hd rest) \<noteq> Key x" unfolding rest_def by (rule hd_dropWhile)
    have "Key x \<le> Key (hd rest)" using 2(2) \<open>rest \<noteq> []\<close> xs by (cases rest) auto
    moreover have "Key (hd rest) \<le> Key y" using that sr by (cases rest) auto
    ultimately show ?thesis using h by simp
  qed
  have "filter (\<lambda>y. Key y = Key x) rest = []" using gt by (fastforce simp: filter_empty_conv)
  moreover have "filter (\<lambda>y. Key y = Key x) same = same" using same by (simp add: filter_id_conv)
  ultimately have fx: "filter (\<lambda>y. Key y = Key x) (x # xs) = x # same" by (simp add: xs)
  have fk: "filter (\<lambda>y. Key y = k) (x # xs) = filter (\<lambda>y. Key y = k) rest" if "k \<in> Key ` set rest" for k
    using that gt same by (fastforce simp: xs filter_empty_conv)
  have keys: "Key ` set (x # xs) = insert (Key x) (Key ` set rest)" using same by (auto simp: xs)
  have sl: "sorted_list_of_set (insert (Key x) (Key ` set rest)) = Key x # sorted_list_of_set (Key ` set rest)"
  proof -
    have "Key ` set rest - {Key x} = Key ` set rest" using gt by fastforce
    then show ?thesis using gt by (simp add: insort_is_Cons less_imp_le)
  qed
  have "groups rest = map (\<lambda>k. (k, map Value (filter (\<lambda>y. Key y = k) rest))) (sorted_list_of_set (Key ` set rest))"
    using 2(1) sr by (simp add: rest_def)
  moreover have "map (\<lambda>k. (k, map Value (filter (\<lambda>y. Key y = k) rest))) (sorted_list_of_set (Key ` set rest)) =
      map (\<lambda>k. (k, map Value (filter (\<lambda>y. Key y = k) (x # xs)))) (sorted_list_of_set (Key ` set rest))"
    by (rule map_cong [OF refl]) (use fk in simp)
  ultimately show ?case
    unfolding keys groups.simps sl rest_def [symmetric] same_def [symmetric] by (simp only: fx list.map)
qed simp

lemma strict_weak_key_less: "strict_weak key_less"
  unfolding key_less_def by (rule strict_weak_key)

lemma sorted_keys:
  assumes "sorting srt"
  shows "sorted (map Key (srt key_less kvs))"
  using sorting.sorted_srt [OF assms strict_weak_key_less, of kvs]
  by (auto simp: sorted_map key_less_def not_less elim: sorted_wrt_mono_rel [rotated])

text \<open>The loop over the files, when each can be read.\<close>

lemma map_files_pure:
  assumes "\<And>f. f \<in> set fs \<Longrightarrow> read_file f = Some (contents f)"
  shows "for_each (map_file read_file (pure_map m)) fs (kvs, w) =
    Inr (kvs @ concat (map (\<lambda>f. m f (contents f)) fs), w)"
  using assms by (induction fs arbitrary: kvs) (simp_all add: map_file_def or_fatal_def pure_map_def)

text \<open>
  The sequential program with functions that change nothing: one line for each key, in increasing order, with
  the reduction of all values of the key, in some order.
\<close>

lemma mrsequential_groups:
  assumes srt: "sorting srt" and args: "args = prog # lib # fs" "fs \<noteq> []"
    and plug: "loadPlugin plugin_Open lib = Inr (pure_map m, pure_reduce r)"
    and files: "\<And>f. f \<in> set fs \<Longrightarrow> read_file f = Some (contents f)"
    and kva: "kva = concat (map (\<lambda>f. m f (contents f)) fs)"
  shows "\<exists>vs. (\<forall>k. mset (vs k) = mset (map Value (filter (\<lambda>y. Key y = k) kva))) \<and>
    mrsequential srt plugin_Open read_file args w =
      Inr (concat (map (\<lambda>k. out_line k (r k (vs k))) (sorted_list_of_set (Key ` set kva))), w)"
proof -
  define kvs where "kvs = srt key_less kva"
  define vs where "vs = (\<lambda>k. map Value (filter (\<lambda>y. Key y = k) kvs))"
  have ms: "mset kvs = mset kva" unfolding kvs_def by (rule sorting.mset_srt [OF srt strict_weak_key_less])
  then have keys: "Key ` set kvs = Key ` set kva" by (metis set_mset_mset)
  have "mset (vs k) = mset (map Value (filter (\<lambda>y. Key y = k) kva))" for k
    unfolding vs_def by (simp add: ms)
  moreover have "groups kvs = map (\<lambda>k. (k, vs k)) (sorted_list_of_set (Key ` set kva))"
    unfolding vs_def keys [symmetric] kvs_def by (rule groups_sorted [OF sorted_keys [OF srt]])
  then have "reduce_loop (pure_reduce r) kvs 0 '''' w =
      Inr (concat (map (\<lambda>k. out_line k (r k (vs k))) (sorted_list_of_set (Key ` set kva))), w)"
    by (simp add: reduce_loop_pure o_def)
  moreover have "\<not> length args < 3" using args by (cases fs) auto
  then have "mrsequential srt plugin_Open read_file args w = reduce_loop (pure_reduce r) kvs 0 '''' w"
    using plug args map_files_pure [OF files, where kvs = "[]" and m = m and w = w]
    by (simp add: mrsequential_def kvs_def kva)
  ultimately show ?thesis by (intro exI [of _ vs]) simp
qed

text \<open>Reductions that sort their values do not depend on the order they come in.\<close>

lemma sort_Strings_mset: "mset vs = mset vs' \<Longrightarrow> sort_Strings vs = sort_Strings vs'"
  unfolding sort_Strings_def by (rule properties_for_sort) simp_all

lemma indexer_Reduce_mset: "mset vs = mset vs' \<Longrightarrow> indexer_Reduce k vs = indexer_Reduce k vs'"
  using sort_Strings_mset [of vs vs'] by (simp add: indexer_Reduce_def)

lemma join_sorted_mset: "mset vs = mset vs' \<Longrightarrow> join_sorted vs = join_sorted vs'"
  using sort_Strings_mset [of vs vs'] by (simp add: join_sorted_def)

lemma length_filter_count_list: "length (filter (\<lambda>y. y = k) xs) = count_list xs k"
  by (induction xs) auto

lemma filter_eq_distinct: "distinct xs \<Longrightarrow> filter (\<lambda>w. w = k) xs = (if k \<in> set xs then [k] else [])"
  by (induction xs) auto

text \<open>The index has one line for each word, with the documents that hold it, in increasing order.\<close>

lemma mrsequential_indexer:
  assumes srt: "sorting srt" and args: "args = prog # lib # fs" "fs \<noteq> []"
    and order: "\<And>A. finite A \<Longrightarrow> distinct (order A) \<and> set (order A) = A"
    and plug: "loadPlugin plugin_Open lib = Inr (pure_map (indexer_Map letters order), pure_reduce indexer_Reduce)"
    and files: "\<And>f. f \<in> set fs \<Longrightarrow> read_file f = Some (contents f)"
  shows "mrsequential srt plugin_Open read_file args w =
    Inr (concat (map (\<lambda>k. out_line k (indexer_Reduce k (filter (\<lambda>f. k \<in> set (wc_words letters (contents f))) fs)))
      (sorted_list_of_set (\<Union>f \<in> set fs. set (wc_words letters (contents f))))), w)"
proof -
  define kva where "kva = concat (map (\<lambda>f. indexer_Map letters order f (contents f)) fs)"
  have ord: "distinct (order (set xs))" "set (order (set xs)) = set xs" for xs :: "string list"
    using order by auto
  have keys: "Key ` set kva = (\<Union>f \<in> set fs. set (wc_words letters (contents f)))"
    by (auto simp: kva_def indexer_Map_def image_UN image_image ord)
  have one: "filter (\<lambda>w. w = k) (order (set ws)) = (if k \<in> set ws then [k] else [])" for k ws
    by (simp add: filter_eq_distinct ord)
  have vals: "map Value (filter (\<lambda>y. Key y = k) kva) = filter (\<lambda>f. k \<in> set (wc_words letters (contents f))) fs" for k
    unfolding kva_def by (induction fs) (simp_all add: indexer_Map_def filter_map o_def one)
  obtain vs where "\<And>k. mset (vs k) = mset (map Value (filter (\<lambda>y. Key y = k) kva))"
    "mrsequential srt plugin_Open read_file args w =
      Inr (concat (map (\<lambda>k. out_line k (indexer_Reduce k (vs k))) (sorted_list_of_set (Key ` set kva))), w)"
    using mrsequential_groups [OF srt args plug files kva_def] by blast
  moreover from this(1) have "indexer_Reduce k (vs k) =
      indexer_Reduce k (filter (\<lambda>f. k \<in> set (wc_words letters (contents f))) fs)" for k
    unfolding vals by (rule indexer_Reduce_mset)
  ultimately show ?thesis by (simp add: keys)
qed

section \<open>The skeleton of the distributed program\<close>

text \<open>The hash that chooses the reduce task is never negative and stays below $2^{31}$.\<close>

lemma ihash_range: "0 \<le> ihash key \<and> ihash key < 2 ^ 31"
proof -
  have "(0x7FFFFFFF :: uint32) = mask 31" by (simp add: mask_eq_exp_minus_1)
  then have "ihash key = uint (take_bit 31 (fnv32a key))" by (simp add: ihash_def take_bit_eq_mask)
  then show ?thesis using take_bit_int_less_exp [of 31 "uint (fnv32a key)"] by (simp add: unsigned_take_bit_eq)
qed

text \<open>A worker that reaches the coordinator prints the reply 100; the coordinator never exits by itself.\<close>

lemma CallExample_reply:
  assumes "dial (coordinatorSock uid) =
    Some (\<lambda>name args reply. if name = ''Coordinator.Example'' then Some (Coordinator_Example args reply) else None)"
  shows "CallExample dial uid = Inr (''reply.Y 100'' @ [CHR 0x0A])"
proof -
  have "Itoa 100 = ''100''" by code_simp
  with assms show ?thesis
    by (simp add: CallExample_def mr_call_def or_fatal_def Coordinator_Example_def)
qed

lemma poll_done_diverges: "poll_done d = Some u \<Longrightarrow> d"
proof -
  assume *: "poll_done d = Some u"
  have "d \<or> poll_done Coordinator_Done = Some u" using * by (subst (asm) poll_done.simps) (simp split: if_splits)
  moreover have "poll_done d' = Some u' \<Longrightarrow> d'" for d' u'
    by (rule poll_done.raw_induct [where P = "\<lambda>d _. d"]) (auto simp: Coordinator_Done_def split: if_splits)
  ultimately show d using Coordinator_Done_def by blast
qed

lemma mrcoordinator_runs_forever:
  assumes "2 \<le> length args" "MakeCoordinator listen os_Remove uid (drop 1 args) 10 w = Inr w'"
  shows "mrcoordinator listen os_Remove uid args w = None"
  using assms poll_done_diverges [of Coordinator_Done]
  by (cases "poll_done Coordinator_Done") (auto simp: mrcoordinator_def Coordinator_Done_def)

section \<open>Properties\<close>

text \<open>C38. The sequential program with the word-count application counts words. When every input file can be read,
  \<open>mr-out-0\<close> holds one line for each word of the files, in increasing order, with the number of times the word
  occurs in all the files together, whatever sorting function puts equal keys in whatever order.
\<close>

theorem mrsequential_counts_words:
  assumes "sorting srt" "args = prog # lib # fs" "fs \<noteq> []"
    and "loadPlugin plugin_Open lib = Inr (pure_map (wc_Map letters), pure_reduce wc_Reduce)"
    and "\<And>f. f \<in> set fs \<Longrightarrow> read_file f = Some (contents f)"
  shows "mrsequential srt plugin_Open read_file args w =
    Inr (concat (map (\<lambda>k. out_line k (Itoa (int (count_list (concat (map (\<lambda>f. wc_words letters (contents f)) fs)) k))))
      (sorted_list_of_set (\<Union>f \<in> set fs. set (wc_words letters (contents f))))), w)"
proof -
  define kva where "kva = concat (map (\<lambda>f. wc_Map letters f (contents f)) fs)"
  let ?words = "concat (map (\<lambda>f. wc_words letters (contents f)) fs)"
  have kva: "kva = map (\<lambda>w. \<lparr>Key = w, Value = ''1''\<rparr>) ?words"
    by (simp add: kva_def wc_Map_def map_concat o_def)
  have keys: "Key ` set kva = (\<Union>f \<in> set fs. set (wc_words letters (contents f)))"
    by (simp add: kva image_UN image_image)
  have len: "length (filter (\<lambda>y. Key y = k) kva) = count_list ?words k" for k
    unfolding kva by (simp add: filter_map o_def length_filter_count_list)
  obtain vs where vs: "\<And>k. mset (vs k) = mset (map Value (filter (\<lambda>y. Key y = k) kva))"
    "mrsequential srt plugin_Open read_file args w =
      Inr (concat (map (\<lambda>k. out_line k (wc_Reduce k (vs k))) (sorted_list_of_set (Key ` set kva))), w)"
    using mrsequential_groups [OF assms kva_def] by blast
  have "length (vs k) = count_list ?words k" for k
    using mset_eq_length [OF vs(1) [of k]] len by simp
  with vs(2) show ?thesis by (simp add: keys wc_Reduce_def)
qed

definition ex_wc_plugins :: "unit plugins" where
  "ex_wc_plugins f =
     Some (\<lambda>name. if name = ''Map'' then Some (MapSym (pure_map (wc_Map (\<lambda>_. False))))
                  else if name = ''Reduce'' then Some (ReduceSym (pure_reduce wc_Reduce)) else None)"

definition ex_text :: "string \<Rightarrow> string option" where
  "ex_text f = (if f = ''in'' then Some ''the cat, the dog'' else None)"

theorem mrsequential_counts_words_witness:
  "sorting (insertionSort :: (KeyValue \<Rightarrow> KeyValue \<Rightarrow> bool) \<Rightarrow> _) \<and>
   mrsequential insertionSort ex_wc_plugins ex_text [''mrsequential'', ''wc.so'', ''in''] () =
     Inr (''cat 1'' @ [CHR 0x0A] @ ''dog 1'' @ [CHR 0x0A] @ ''the 2'' @ [CHR 0x0A], ())"
proof -
  have words: "wc_words (\<lambda>_. False) ''the cat, the dog'' = [''the'', ''cat'', ''the'', ''dog'']" by code_simp
  have plug: "loadPlugin ex_wc_plugins ''wc.so'' = Inr (pure_map (wc_Map (\<lambda>_. False)), pure_reduce wc_Reduce)"
    by (simp add: loadPlugin_def ex_wc_plugins_def or_fatal_def)
  have "sorted_list_of_set {''the'', ''cat'', ''the'', ''dog''} = [''cat'', ''dog'', ''the'']" by code_simp
  moreover have "Itoa 1 = ''1''" "Itoa 2 = ''2''" by code_simp+
  moreover have "mrsequential insertionSort ex_wc_plugins ex_text [''mrsequential'', ''wc.so'', ''in''] () =
    Inr (concat (map (\<lambda>k. out_line k (Itoa (int (count_list
          (concat (map (\<lambda>f. wc_words (\<lambda>_. False) (the (ex_text f))) [''in''])) k))))
      (sorted_list_of_set (\<Union>f \<in> set [''in'']. set (wc_words (\<lambda>_. False) (the (ex_text f)))))), ())"
    by (rule mrsequential_counts_words [OF insertionSort_sorting refl _ plug]) (auto simp: ex_text_def)
  ultimately show ?thesis
    using insertionSort_sorting by (simp add: words ex_text_def out_line_def)
qed

end
