(* ===== verification/GoProj.thy ===== *)
theory GoProj
  imports Prelude Strconv
begin

text \<open>
  The web service \<open>go-proj\<close>: users kept in a database, login with a password, tokens kept in redis, and handlers
  behind a middleware that checks the token. The layers are those of the code: data and transfer objects,
  data access (\<open>dao\<close>), service, api, middleware and routes.

  The packages it calls (gorm, go-redis, jwt, bcrypt, viper, gin's binding) are not part of the repository. They
  are the fields of the record \<open>lib\<close>, functions on the state of the database and of redis; what is assumed
  of them is stated where it is used. Times are nanoseconds; durations are 64-bit words and wrap around, as
  \<open>time.Duration\<close> does. An error is a string, \<^term>\<open>None\<close> is nil.
\<close>

section \<open>Data objects\<close>

text \<open>\<open>data.User\<close>, with the primary key of \<open>gorm.Model\<close>; its time stamps are left out.\<close>

record User =
  ID :: uint64
  Username :: string
  Password :: string
  UName :: string
  Phone :: string
  Email :: string
  Avatar :: string

definition zero_user :: User where
  "zero_user = \<lparr>ID = 0, Username = '''', Password = '''', UName = '''', Phone = '''', Email = '''', Avatar = ''''\<rparr>"

record LoginDto =
  l_Username :: string
  l_Password :: string

record UserInsertDto =
  i_Id :: uint64
  i_Username :: string
  i_Password :: string
  i_Name :: string
  i_Phone :: string
  i_Email :: string
  i_Avatar :: string

record UserUpdateDto =
  u_Id :: uint64
  u_Username :: string
  u_Name :: string
  u_Phone :: string
  u_Email :: string

record IdDto =
  d_Id :: uint64

record PaginateDto =
  Curr :: int
  Limit :: int

definition insert_AssignToUser :: "UserInsertDto \<Rightarrow> User \<Rightarrow> User" where
  "insert_AssignToUser dto user =
     user\<lparr>Username := i_Username dto, Password := i_Password dto, UName := i_Name dto, Phone := i_Phone dto,
       Email := i_Email dto, Avatar := i_Avatar dto\<rparr>"

definition update_AssignToUser :: "UserUpdateDto \<Rightarrow> User \<Rightarrow> User" where
  "update_AssignToUser dto user =
     user\<lparr>ID := u_Id dto, Username := u_Username dto, UName := u_Name dto, Phone := u_Phone dto, Email := u_Email dto\<rparr>"

section \<open>The packages called\<close>

text \<open>The claims of a token; times of claims are in seconds.\<close>

record Payload =
  p_Id :: uint64
  p_Username :: string
  IssuedAt :: int
  Subject :: string
  ExpiresAt :: int

definition zero_payload :: Payload where
  "zero_payload = \<lparr>p_Id = 0, p_Username = '''', IssuedAt = 0, Subject = '''', ExpiresAt = 0\<rparr>"

record app_conf =
  paginate_curr :: int
  paginate_limit :: int
  redis_expire :: uint64
  jwt_expire :: uint64

text \<open>
  \<open>db_Create\<close> inserts a row and gives the user with its key; \<open>db_Update\<close> writes all fields of a row. \<open>bcrypt_Gen\<close>
  takes the number of hashes made so far, for its salt. \<open>rd_Set\<close>, \<open>rd_Get\<close>, \<open>rd_TTL\<close> and \<open>rd_Expire\<close> take the time.
\<close>

record ('db, 'rd) lib =
  db_Create :: "User \<Rightarrow> 'db \<Rightarrow> string option \<times> User \<times> 'db"
  db_Update :: "User \<Rightarrow> 'db \<Rightarrow> string option \<times> 'db"
  db_FirstByUsername :: "string \<Rightarrow> 'db \<Rightarrow> string + User"
  db_FirstById :: "uint64 \<Rightarrow> 'db \<Rightarrow> string + User"
  db_FindPage :: "int \<Rightarrow> int \<Rightarrow> 'db \<Rightarrow> string + User list"
  db_Count :: "'db \<Rightarrow> string + int"
  db_Delete :: "uint64 \<Rightarrow> 'db \<Rightarrow> string option \<times> 'db"
  rd_Set :: "int \<Rightarrow> string \<Rightarrow> string \<Rightarrow> uint64 \<Rightarrow> 'rd \<Rightarrow> string option \<times> 'rd"
  rd_Get :: "int \<Rightarrow> string \<Rightarrow> 'rd \<Rightarrow> string + string"
  rd_TTL :: "int \<Rightarrow> string \<Rightarrow> 'rd \<Rightarrow> string + int"
  rd_Expire :: "int \<Rightarrow> string \<Rightarrow> uint64 \<Rightarrow> 'rd \<Rightarrow> 'rd"
  bcrypt_Gen :: "nat \<Rightarrow> string \<Rightarrow> string + string"
  bcrypt_Compare :: "string \<Rightarrow> string \<Rightarrow> string option"
  jwt_Sign :: "string \<Rightarrow> Payload \<Rightarrow> string + string"
  jwt_Parse :: "string \<Rightarrow> int \<Rightarrow> string \<Rightarrow> string option \<times> Payload \<times> bool"
  json_LoginInfo :: "uint64 \<Rightarrow> string \<Rightarrow> string"
  settings :: app_conf

text \<open>The state of the process: the database and redis it talks to, the time, the hashes made so far.\<close>

record ('db, 'rd) world =
  database :: 'db
  redis :: 'rd
  now :: int
  hashes :: nat

section \<open>Utilities\<close>

text \<open>\<open>util/encrypt.go\<close>\<close>

definition Encrypt :: "('db, 'rd) lib \<Rightarrow> nat \<Rightarrow> string \<Rightarrow> string + string" where
  "Encrypt L n password =
     (case bcrypt_Gen L n password of Inl err \<Rightarrow> Inl err | Inr hashStr \<Rightarrow> Inr hashStr)"

definition IsEquivalent :: "('db, 'rd) lib \<Rightarrow> string \<Rightarrow> string \<Rightarrow> bool" where
  "IsEquivalent L hashStr password \<longleftrightarrow> bcrypt_Compare L hashStr password = None"

text \<open>
  \<open>util/jwt.go\<close>. The variable \<open>signingKey\<close> is set when the package is initialised, before \<open>ReadConf\<close> has read the
  settings: the configuration is empty then, and so is the key.
\<close>

definition signingKey :: string where
  "signingKey = ''''"

definition Second :: uint64 where
  "Second = 1000000000"

text \<open>\<open>jwt.NewNumericDate\<close> keeps whole seconds.\<close>

definition NumericDate :: "int \<Rightarrow> int" where
  "NumericDate t = t div 1000000000"

definition token_payload :: "('db, 'rd) lib \<Rightarrow> int \<Rightarrow> uint64 \<Rightarrow> string \<Rightarrow> Payload" where
  "token_payload L t ident username =
     (let expire = jwt_expire (settings L) * Second in
      \<lparr>p_Id = ident, p_Username = username, IssuedAt = NumericDate t, Subject = ''Token'',
       ExpiresAt = NumericDate (t + sint (expire * Second))\<rparr>)"

definition GenToken :: "('db, 'rd) lib \<Rightarrow> int \<Rightarrow> uint64 \<Rightarrow> string \<Rightarrow> string + string" where
  "GenToken L t ident username = jwt_Sign L signingKey (token_payload L t ident username)"

definition ParseToken :: "('db, 'rd) lib \<Rightarrow> int \<Rightarrow> string \<Rightarrow> Payload \<times> string option" where
  "ParseToken L t tokStr =
     (case jwt_Parse L signingKey t tokStr of
        (err, payload, valid) \<Rightarrow>
          if err = None \<and> \<not> valid then (payload, Some ''token invalid'') else (payload, err))"

text \<open>\<open>dto/common_dto.go\<close>: the methods set the defaults in the object.\<close>

definition GetPage :: "app_conf \<Rightarrow> PaginateDto \<Rightarrow> int \<times> PaginateDto" where
  "GetPage c dto =
     (let dto = (if Curr dto \<le> 0 then dto\<lparr>Curr := paginate_curr c\<rparr> else dto) in (Curr dto, dto))"

definition GetLimit :: "app_conf \<Rightarrow> PaginateDto \<Rightarrow> int \<times> PaginateDto" where
  "GetLimit c dto =
     (let dto = (if Limit dto \<le> 0 then dto\<lparr>Limit := paginate_limit c\<rparr> else dto) in (Limit dto, dto))"

text \<open>\<open>api/tag_validate.go\<close>: not empty, and \<open>admin\<close> is not at the front.\<close>

definition not_admin :: "string \<Rightarrow> bool" where
  "not_admin fieldName \<longleftrightarrow> fieldName \<noteq> '''' \<and> take 5 fieldName \<noteq> ''admin''"

section \<open>Data access\<close>

text \<open>The hook \<open>BeforeCreate\<close> replaces the password by its hash.\<close>

definition BeforeCreate :: "('db, 'rd) lib \<Rightarrow> nat \<Rightarrow> User \<Rightarrow> string option \<times> User" where
  "BeforeCreate L n user =
     (case Encrypt L n (Password user) of
        Inr hashStr \<Rightarrow> (None, user\<lparr>Password := hashStr\<rparr>)
      | Inl err \<Rightarrow> (Some err, user))"

text \<open>
  gorm's \<open>Save\<close>, as the comment in \<open>user_dao.go\<close> says: a value without primary key is created, which runs the
  hook, another one updates all fields.
\<close>

definition db_Save :: "('db, 'rd) lib \<Rightarrow> User \<Rightarrow> ('db, 'rd) world \<Rightarrow> string option \<times> User \<times> ('db, 'rd) world" where
  "db_Save L user w =
     (if ID user = 0 then
        (case BeforeCreate L (hashes w) user of
           (Some err, user) \<Rightarrow> (Some err, user, w\<lparr>hashes := hashes w + 1\<rparr>)
         | (None, user) \<Rightarrow>
             (case db_Create L user (database w) of
                (err, user, db) \<Rightarrow> (err, user, w\<lparr>hashes := hashes w + 1, database := db\<rparr>)))
      else
        (case db_Update L user (database w) of (err, db) \<Rightarrow> (err, user, w\<lparr>database := db\<rparr>)))"

definition dao_InsertUser ::
  "('db, 'rd) lib \<Rightarrow> UserInsertDto \<Rightarrow> ('db, 'rd) world \<Rightarrow> string option \<times> UserInsertDto \<times> ('db, 'rd) world" where
  "dao_InsertUser L dto w =
     (case db_Save L (insert_AssignToUser dto zero_user) w of
        (err, user, w) \<Rightarrow>
          if err = None then (None, dto\<lparr>i_Id := ID user, i_Password := ''''\<rparr>, w) else (err, dto, w))"

definition SelectUserByUsername :: "('db, 'rd) lib \<Rightarrow> string \<Rightarrow> ('db, 'rd) world \<Rightarrow> User \<times> string option" where
  "SelectUserByUsername L username w =
     (case db_FirstByUsername L username (database w) of
        Inl err \<Rightarrow> (zero_user, Some err)
      | Inr user \<Rightarrow> if ID user = 0 then (user, Some ''username doesn't exist'') else (user, None))"

definition dao_SelectUserById :: "('db, 'rd) lib \<Rightarrow> uint64 \<Rightarrow> ('db, 'rd) world \<Rightarrow> User \<times> string option" where
  "dao_SelectUserById L ident w =
     (case db_FirstById L ident (database w) of Inl err \<Rightarrow> (zero_user, Some err) | Inr user \<Rightarrow> (user, None))"

text \<open>The page: the offset is computed before \<open>GetLimit\<close> sets the default. Gives offset, limit and the object.\<close>

definition GetPaginateFunc :: "app_conf \<Rightarrow> PaginateDto \<Rightarrow> int \<times> int \<times> PaginateDto" where
  "GetPaginateFunc c dto =
     (case GetPage c dto of
        (page, dto) \<Rightarrow>
          let offset = (page - 1) * Limit dto in
          case GetLimit c dto of (limit, dto) \<Rightarrow> (offset, limit, dto))"

definition dao_SelectPaginatedUsers ::
  "('db, 'rd) lib \<Rightarrow> PaginateDto \<Rightarrow> ('db, 'rd) world \<Rightarrow> User list \<times> int \<times> string option \<times> PaginateDto" where
  "dao_SelectPaginatedUsers L dto w =
     (case GetPaginateFunc (settings L) dto of
        (offset, limit, dto) \<Rightarrow>
          (case db_FindPage L offset limit (database w) of
             Inl err \<Rightarrow> ([], 0, Some err, dto)
           | Inr userArr \<Rightarrow>
               (case db_Count L (database w) of
                  Inl err \<Rightarrow> (userArr, 0, Some err, dto)
                | Inr num \<Rightarrow> (userArr, num, None, dto))))"

definition dao_UpdateUser ::
  "('db, 'rd) lib \<Rightarrow> UserUpdateDto \<Rightarrow> ('db, 'rd) world \<Rightarrow> string option \<times> ('db, 'rd) world" where
  "dao_UpdateUser L dto w =
     (case dao_SelectUserById L (u_Id dto) w of
        (user, Some err) \<Rightarrow> (Some err, w)
      | (user, None) \<Rightarrow> (case db_Save L (update_AssignToUser dto user) w of (err, _, w) \<Rightarrow> (err, w)))"

definition dao_DeleteUserById ::
  "('db, 'rd) lib \<Rightarrow> uint64 \<Rightarrow> ('db, 'rd) world \<Rightarrow> User \<times> string option \<times> ('db, 'rd) world" where
  "dao_DeleteUserById L ident w =
     (case db_Delete L ident (database w) of (err, db) \<Rightarrow> (zero_user, err, w\<lparr>database := db\<rparr>))"

section \<open>Service\<close>

text \<open>The keys under which redis keeps the token and the login of a user: \<open>strconv.Itoa(int(id))\<close>.\<close>

definition token_key :: "uint64 \<Rightarrow> string" where
  "token_key ident = ''token'' @ Itoa (sint ident)"

definition user_key :: "uint64 \<Rightarrow> string" where
  "user_key ident = ''user'' @ Itoa (sint ident)"

definition redis_ttl :: "('db, 'rd) lib \<Rightarrow> uint64" where
  "redis_ttl L = redis_expire (settings L) * Second"

definition service_Login ::
  "('db, 'rd) lib \<Rightarrow> LoginDto \<Rightarrow> ('db, 'rd) world \<Rightarrow> User \<times> string \<times> string option \<times> ('db, 'rd) world" where
  "service_Login L dto w =
     (case SelectUserByUsername L (l_Username dto) w of
        (user, Some err) \<Rightarrow> (user, '''', Some err, w)
      | (user, None) \<Rightarrow>
          if \<not> IsEquivalent L (Password user) (l_Password dto) then (user, '''', Some ''password error'', w)
          else
            (case GenToken L (now w) (ID user) (Username user) of
               Inl err \<Rightarrow> (user, '''', Some err, w)
             | Inr token \<Rightarrow>
                 (case rd_Set L (now w) (token_key (ID user)) token (redis_ttl L) (redis w) of
                    (Some err, rd) \<Rightarrow> (user, token, Some err, w\<lparr>redis := rd\<rparr>)
                  | (None, rd) \<Rightarrow>
                      (case rd_Set L (now w) (user_key (ID user)) (json_LoginInfo L (ID user) (Username user))
                              (redis_ttl L) rd of
                         (err, rd) \<Rightarrow> (user, token, err, w\<lparr>redis := rd\<rparr>)))))"

definition service_InsertUser ::
  "('db, 'rd) lib \<Rightarrow> UserInsertDto \<Rightarrow> ('db, 'rd) world \<Rightarrow> string option \<times> UserInsertDto \<times> ('db, 'rd) world" where
  "service_InsertUser L dto w =
     (if snd (SelectUserByUsername L (i_Username dto) w) = None then (Some ''username exists'', dto, w)
      else dao_InsertUser L dto w)"

definition service_SelectUserById :: "('db, 'rd) lib \<Rightarrow> IdDto \<Rightarrow> ('db, 'rd) world \<Rightarrow> User \<times> string option" where
  "service_SelectUserById L dto w = dao_SelectUserById L (d_Id dto) w"

definition service_SelectPaginatedUsers ::
  "('db, 'rd) lib \<Rightarrow> PaginateDto \<Rightarrow> ('db, 'rd) world \<Rightarrow> User list \<times> int \<times> string option \<times> PaginateDto" where
  "service_SelectPaginatedUsers L dto w = dao_SelectPaginatedUsers L dto w"

definition service_UpdateUser ::
  "('db, 'rd) lib \<Rightarrow> UserUpdateDto \<Rightarrow> ('db, 'rd) world \<Rightarrow> string option \<times> ('db, 'rd) world" where
  "service_UpdateUser L dto w =
     (if u_Id dto \<le> 0 then (Some ''id invalid'', w) else dao_UpdateUser L dto w)"

definition service_DeleteUserById ::
  "('db, 'rd) lib \<Rightarrow> IdDto \<Rightarrow> ('db, 'rd) world \<Rightarrow> User \<times> string option \<times> ('db, 'rd) world" where
  "service_DeleteUserById L dto w = dao_DeleteUserById L (d_Id dto) w"

section \<open>Responses\<close>

text \<open>What the handlers put into the field \<open>Data\<close>.\<close>

datatype resp_data =
    LoginData string User
  | InsertData UserInsertDto
  | UserData User
  | PageData "User list" int

record Resp =
  Code :: int
  r_Msg :: string
  Data :: "resp_data option"

definition empty_resp :: Resp where
  "empty_resp = \<lparr>Code = 0, r_Msg = '''', Data = None\<rparr>"

definition IsEmpty :: "Resp \<Rightarrow> bool" where
  "IsEmpty resp \<longleftrightarrow> resp = empty_resp"

text \<open>\<open>ctx.AbortWithStatus\<close> and \<open>ctx.AbortWithStatusJSON\<close>.\<close>

datatype http_response = Status int | StatusJSON int Resp

definition resp_Ok :: "Resp \<Rightarrow> http_response" where
  "resp_Ok resp =
     (if IsEmpty resp then Status 200
      else
        let resp = (if Code resp < 200 \<or> Code resp \<ge> 300 then resp\<lparr>Code := 200\<rparr> else resp) in
        StatusJSON (Code resp) resp)"

definition resp_Err :: "Resp \<Rightarrow> http_response" where
  "resp_Err resp =
     (if IsEmpty resp then Status 400
      else
        let resp = (if Code resp < 400 \<or> Code resp \<ge> 500 then resp\<lparr>Code := 400\<rparr> else resp) in
        StatusJSON (Code resp) resp)"

definition err_msg :: "string \<Rightarrow> http_response" where
  "err_msg msg = resp_Err \<lparr>Code = 0, r_Msg = msg, Data = None\<rparr>"

definition ok_msg :: "resp_data option \<Rightarrow> string \<Rightarrow> http_response" where
  "ok_msg d msg = resp_Ok \<lparr>Code = 0, r_Msg = msg, Data = d\<rparr>"

section \<open>Handlers\<close>

text \<open>
  A handler starts from what gin's binding made of the request: an error, or the object. The binding enforces
  the tags: \<open>required\<close> fields are not zero, and \<open>not_admin\<close> holds of the user name at login.
\<close>

definition login_bound :: "LoginDto \<Rightarrow> bool" where
  "login_bound dto \<longleftrightarrow> l_Username dto \<noteq> '''' \<and> not_admin (l_Username dto) \<and> l_Password dto \<noteq> ''''"

definition insert_bound :: "UserInsertDto \<Rightarrow> bool" where
  "insert_bound dto \<longleftrightarrow> i_Username dto \<noteq> '''' \<and> i_Password dto \<noteq> ''''"

definition api_Login ::
  "('db, 'rd) lib \<Rightarrow> string + LoginDto \<Rightarrow> ('db, 'rd) world \<Rightarrow> http_response \<times> ('db, 'rd) world" where
  "api_Login L bound w =
     (case bound of
        Inl e \<Rightarrow> (err_msg e, w)
      | Inr dto \<Rightarrow>
          (case service_Login L dto w of
             (user, token, Some err, w) \<Rightarrow> (err_msg err, w)
           | (user, token, None, w) \<Rightarrow> (ok_msg (Some (LoginData token user)) ''User Login OK'', w)))"

text \<open>
  With an avatar the uploaded file is saved first: \<open>upload\<close> is the first error of reading the form, making a
  name and saving the file.
\<close>

definition api_InsertUser ::
  "('db, 'rd) lib \<Rightarrow> string + UserInsertDto \<Rightarrow> string option \<Rightarrow> ('db, 'rd) world
    \<Rightarrow> http_response \<times> ('db, 'rd) world" where
  "api_InsertUser L bound upload w =
     (case bound of
        Inl e \<Rightarrow> (err_msg e, w)
      | Inr dto \<Rightarrow>
          (case (if i_Avatar dto \<noteq> '''' then upload else None) of
             Some e \<Rightarrow> (err_msg e, w)
           | None \<Rightarrow>
               (case service_InsertUser L dto w of
                  (Some err, dto, w) \<Rightarrow> (err_msg err, w)
                | (None, dto, w) \<Rightarrow> (ok_msg (Some (InsertData dto)) ''Insert User OK'', w))))"

definition api_SelectUserById ::
  "('db, 'rd) lib \<Rightarrow> string + IdDto \<Rightarrow> ('db, 'rd) world \<Rightarrow> http_response \<times> ('db, 'rd) world" where
  "api_SelectUserById L bound w =
     (case bound of
        Inl e \<Rightarrow> (err_msg e, w)
      | Inr dto \<Rightarrow>
          (case service_SelectUserById L dto w of
             (user, Some err) \<Rightarrow> (err_msg err, w)
           | (user, None) \<Rightarrow> (ok_msg (Some (UserData user)) ''Select User By Id OK'', w)))"

definition api_SelectPaginatedUsers ::
  "('db, 'rd) lib \<Rightarrow> string + PaginateDto \<Rightarrow> ('db, 'rd) world \<Rightarrow> http_response \<times> ('db, 'rd) world" where
  "api_SelectPaginatedUsers L bound w =
     (case bound of
        Inl e \<Rightarrow> (err_msg e, w)
      | Inr dto \<Rightarrow>
          (case service_SelectPaginatedUsers L dto w of
             (userArr, num, Some err, _) \<Rightarrow> (err_msg err, w)
           | (userArr, num, None, _) \<Rightarrow> (ok_msg (Some (PageData userArr num)) ''Select Paginated Users OK'', w)))"

text \<open>The update binds the path first and then, on what that gave, the body.\<close>

definition api_UpdateUser ::
  "('db, 'rd) lib \<Rightarrow> string + UserUpdateDto \<Rightarrow> (UserUpdateDto \<Rightarrow> string + UserUpdateDto) \<Rightarrow> ('db, 'rd) world
    \<Rightarrow> http_response \<times> ('db, 'rd) world" where
  "api_UpdateUser L bound_uri bind_body w =
     (case bound_uri of
        Inl e \<Rightarrow> (err_msg e, w)
      | Inr dto \<Rightarrow>
          (case bind_body dto of
             Inl e \<Rightarrow> (err_msg e, w)
           | Inr dto \<Rightarrow>
               (case service_UpdateUser L dto w of
                  (Some err, w) \<Rightarrow> (err_msg err, w)
                | (None, w) \<Rightarrow> (ok_msg None ''Update User OK'', w))))"

definition api_DeleteUserById ::
  "('db, 'rd) lib \<Rightarrow> string + IdDto \<Rightarrow> ('db, 'rd) world \<Rightarrow> http_response \<times> ('db, 'rd) world" where
  "api_DeleteUserById L bound w =
     (case bound of
        Inl e \<Rightarrow> (err_msg e, w)
      | Inr dto \<Rightarrow>
          (case service_DeleteUserById L dto w of
             (user, Some err, w) \<Rightarrow> (err_msg err, w)
           | (user, None, w) \<Rightarrow> (ok_msg (Some (UserData user)) ''Delete User By Id OK'', w)))"

section \<open>The middleware\<close>

text \<open>\<open>Authorize\<close> answers the request itself, or lets it pass with the time to live of the token renewed.\<close>

datatype verdict = Abort http_response | Next

definition Authorize :: "('db, 'rd) lib \<Rightarrow> string \<Rightarrow> ('db, 'rd) world \<Rightarrow> verdict \<times> ('db, 'rd) world" where
  "Authorize L bearerToken w =
     (if bearerToken = '''' then (Abort (err_msg ''Token is empty''), w)
      else if take 7 bearerToken \<noteq> ''Bearer '' then
        (Abort (err_msg (''Token doesn't have prefix '' @ [CHR 0x27] @ ''Bearer '' @ [CHR 0x27])), w)
      else
        let token = drop 7 bearerToken in
        case ParseToken L (now w) token of
          (payload, Some err) \<Rightarrow> (Abort (err_msg err), w)
        | (payload, None) \<Rightarrow>
            let tokenId = token_key (p_Id payload) in
            (case rd_Get L (now w) tokenId (redis w) of
               Inl err \<Rightarrow> (Abort (err_msg err), w)
             | Inr oldToken \<Rightarrow>
                 if token \<noteq> oldToken then (Abort (err_msg ''Token doesn't match''), w)
                 else
                   (case rd_TTL L (now w) tokenId (redis w) of
                      Inl err \<Rightarrow> (Abort (err_msg ''Token not found''), w)
                    | Inr ttl \<Rightarrow>
                        if ttl \<le> 0 then (Abort (err_msg ''Token is expired''), w)
                        else (Next, w\<lparr>redis := rd_Expire L (now w) tokenId (redis_ttl L) (redis w)\<rparr>))))"

section \<open>Routes\<close>

text \<open>The handlers with what the binding gives them, and a request with its \<open>Authorization\<close> header.\<close>

datatype call =
    LoginCall "string + LoginDto"
  | SelectByIdCall "string + IdDto"
  | InsertCall "string + UserInsertDto" "string option"
  | PageCall "string + PaginateDto"
  | UpdateCall "string + UserUpdateDto" "UserUpdateDto \<Rightarrow> string + UserUpdateDto"
  | DeleteCall "string + IdDto"

record request =
  req_call :: call
  header_Authorization :: string

text \<open>\<open>UserRouteGroup\<close>: the method and path of each route; only login is in the public group.\<close>

fun route_of :: "call \<Rightarrow> string \<times> string" where
  "route_of (LoginCall _) = (''POST'', ''/api/v1/public/user/login'')"
| "route_of (SelectByIdCall _) = (''GET'', ''/api/v1/user/:id'')"
| "route_of (InsertCall _ _) = (''POST'', ''/api/v1/user'')"
| "route_of (PageCall _) = (''POST'', ''/api/v1/user/page'')"
| "route_of (UpdateCall _ _) = (''PUT'', ''/api/v1/user/:id'')"
| "route_of (DeleteCall _) = (''DELETE'', ''/api/v1/user/:id'')"

fun authorized_route :: "call \<Rightarrow> bool" where
  "authorized_route (LoginCall _) \<longleftrightarrow> False"
| "authorized_route _ \<longleftrightarrow> True"

fun handle_call :: "('db, 'rd) lib \<Rightarrow> call \<Rightarrow> ('db, 'rd) world \<Rightarrow> http_response \<times> ('db, 'rd) world" where
  "handle_call L (LoginCall b) w = api_Login L b w"
| "handle_call L (SelectByIdCall b) w = api_SelectUserById L b w"
| "handle_call L (InsertCall b u) w = api_InsertUser L b u w"
| "handle_call L (PageCall b) w = api_SelectPaginatedUsers L b w"
| "handle_call L (UpdateCall b c) w = api_UpdateUser L b c w"
| "handle_call L (DeleteCall b) w = api_DeleteUserById L b w"

definition serve_request :: "('db, 'rd) lib \<Rightarrow> request \<Rightarrow> ('db, 'rd) world \<Rightarrow> http_response \<times> ('db, 'rd) world" where
  "serve_request L req w =
     (if authorized_route (req_call req) then
        (case Authorize L (header_Authorization req) w of
           (Abort resp, w) \<Rightarrow> (resp, w)
         | (Next, w) \<Rightarrow> handle_call L (req_call req) w)
      else handle_call L (req_call req) w)"

text \<open>\<open>StartRouter\<close>: the address it serves on.\<close>

definition server_addr :: "string \<Rightarrow> string" where
  "server_addr port = '':'' @ (if port = '''' then ''8080'' else port)"

section \<open>Start\<close>

text \<open>\<open>conf\<close> and \<open>cmd\<close>: what can fail of the start, in its order; each failure panics.\<close>

definition ReadConf :: "string + 'c \<Rightarrow> 'c result" where
  "ReadConf in_config = (case in_config of Inl err \<Rightarrow> Inl Panic | Inr c \<Rightarrow> Inr c)"

definition ConnMysql :: "('c \<Rightarrow> string + 'db) \<Rightarrow> ('db \<Rightarrow> 'db) \<Rightarrow> 'c \<Rightarrow> string + 'db" where
  "ConnMysql gorm_Open autoMigrate c =
     (case gorm_Open c of Inl err \<Rightarrow> Inl err | Inr db \<Rightarrow> Inr (autoMigrate db))"

definition ConnRedis :: "('c \<Rightarrow> 'rd) \<Rightarrow> ('rd \<Rightarrow> string option) \<Rightarrow> 'c \<Rightarrow> string + 'rd" where
  "ConnRedis newClient ping c =
     (let redisCli = newClient c in case ping redisCli of Some err \<Rightarrow> Inl err | None \<Rightarrow> Inr redisCli)"

definition cmd_Start ::
  "string + 'c \<Rightarrow> ('c \<Rightarrow> string + 'db) \<Rightarrow> ('db \<Rightarrow> 'db) \<Rightarrow> ('c \<Rightarrow> 'rd) \<Rightarrow> ('rd \<Rightarrow> string option) \<Rightarrow> int
    \<Rightarrow> ('db, 'rd) world result" where
  "cmd_Start in_config gorm_Open autoMigrate newClient ping t =
     result_bind (ReadConf in_config) (\<lambda>c.
       case ConnMysql gorm_Open autoMigrate c of
         Inl err \<Rightarrow> Inl Panic
       | Inr db \<Rightarrow>
           (case ConnRedis newClient ping c of
              Inl err \<Rightarrow> Inl Panic
            | Inr rd \<Rightarrow> Inr \<lparr>database = db, redis = rd, now = t, hashes = 0\<rparr>))"

end
