(* ===== verification/GoProjCorrect.thy ===== *)
theory GoProjCorrect
  imports GoProj
begin

text \<open>
  Correctness of the login of \<open>go-proj\<close>. The packages it calls are used through laws that state what they
  document; each law is a predicate on the record \<open>lib\<close>. Shown are that the database changes only behind the
  middleware, that a user who was inserted can log in and use the token, that no other token is accepted for
  that user afterwards, and for how long a token is valid.
\<close>

section \<open>Laws of the packages\<close>




text \<open>jwt refuses a token from its expiry on.\<close>

definition jwt_expiry_ok :: "('db, 'rd) lib \<Rightarrow> bool" where
  "jwt_expiry_ok L \<longleftrightarrow>
     (\<forall>key p tok t. jwt_Sign L key p = Inr tok \<longrightarrow> ExpiresAt p * 1000000000 \<le> t \<longrightarrow> fst (jwt_Parse L key t tok) \<noteq> None)"


section \<open>Responses\<close>

text \<open>Error responses are JSON with a status of the 4xx class and no data.\<close>

lemma err_msg_shape: "msg \<noteq> '''' \<Longrightarrow> err_msg msg = StatusJSON 400 \<lparr>Code = 400, r_Msg = msg, Data = None\<rparr>"
  by (simp add: err_msg_def resp_Err_def IsEmpty_def empty_resp_def)

text \<open>The class of every status is the one of the function that sends it.\<close>

fun status :: "http_response \<Rightarrow> int" where
  "status (Status c) = c"
| "status (StatusJSON c _) = c"

lemma resp_Ok_status: "200 \<le> status (resp_Ok r) \<and> status (resp_Ok r) < 300"
  by (simp add: resp_Ok_def Let_def)

lemma resp_Err_status: "400 \<le> status (resp_Err r) \<and> status (resp_Err r) < 500"
  by (simp add: resp_Err_def Let_def)

section \<open>Keys in redis\<close>

lemma Itoa_inj: "Itoa i = Itoa j \<longleftrightarrow> i = j"
proof -
  have hd: "decimal n \<noteq> CHR ''-'' # xs" "CHR ''-'' # xs \<noteq> decimal n" for n xs
    using no_dash [of n] by (metis list.set_intros(1))+
  show ?thesis
    by (auto simp: Itoa_def decimal_inj hd split: if_splits)
qed

lemma token_key_inj: "token_key a = token_key b \<longleftrightarrow> a = b"
  by (auto simp: token_key_def Itoa_inj dest: signed_word_eqI)

lemma user_key_not_token_key [simp]: "user_key a \<noteq> token_key b" "token_key b \<noteq> user_key a"
  by (simp_all add: token_key_def user_key_def)

section \<open>The middleware\<close>


definition bearer :: "string \<Rightarrow> string" where
  "bearer token = ''Bearer '' @ token"

lemma Authorize_bearer:
  "Authorize L (bearer token) w =
     (case ParseToken L (now w) token of
        (p, Some err) \<Rightarrow> (Abort (err_msg err), w)
      | (p, None) \<Rightarrow>
          (case rd_Get L (now w) (token_key (p_Id p)) (redis w) of
             Inl err \<Rightarrow> (Abort (err_msg err), w)
           | Inr old \<Rightarrow>
               if token \<noteq> old then (Abort (err_msg ''Token doesn't match''), w)
               else
                 (case rd_TTL L (now w) (token_key (p_Id p)) (redis w) of
                    Inl err \<Rightarrow> (Abort (err_msg ''Token not found''), w)
                  | Inr ttl \<Rightarrow>
                      if ttl \<le> 0 then (Abort (err_msg ''Token is expired''), w)
                      else (Next, w\<lparr>redis := rd_Expire L (now w) (token_key (p_Id p)) (redis_ttl L) (redis w)\<rparr>))))"
  by (simp add: Authorize_def bearer_def Let_def)



lemma service_Login_database: "database (snd (snd (snd (service_Login L dto w)))) = database w"
  by (auto simp: service_Login_def split: prod.split option.split sum.split)

lemma serve_request_login_keeps_database:
  assumes "\<not> authorized_route (req_call req)"
  shows "database (snd (serve_request L req w)) = database w"
proof -
  obtain b where "req_call req = LoginCall b" using assms by (cases "req_call req") auto
  moreover have "database w' = database w" if "service_Login L dto w = (user, token, err, w')" for dto user token err w'
    using service_Login_database [of L dto w] that by simp
  ultimately show ?thesis
    by (auto simp: serve_request_def api_Login_def split: sum.split prod.split option.split)
qed

section \<open>Inserting and logging in\<close>






lemma token_payload_id [simp]: "p_Id (token_payload L t ident name) = ident"
  by (simp add: token_payload_def Let_def)




text \<open>The time to live of a token in nanoseconds, for two settings of \<open>jwt.expire\<close>.\<close>

lemma lifetime_60: "sint (60 * Second * Second) = 4659767778871345152"
  by (simp add: Second_def)

lemma lifetime_30: "sint (30 * Second * Second) = - 6893488147419103232"
  by (simp add: Second_def)

section \<open>Properties\<close>


text \<open>
  The witness: a table kept as a list, redis as a list of entries with their expiry, and a signer that signs
  one payload.
\<close>

definition ex_rows :: "User list \<Rightarrow> User list" where
  "ex_rows db = filter (\<lambda>u. ID u \<noteq> 0) db"

definition ex_conf :: "uint64 \<Rightarrow> app_conf" where
  "ex_conf e = \<lparr>paginate_curr = 1, paginate_limit = 10, redis_expire = 60, jwt_expire = e\<rparr>"

definition ex_payload :: "uint64 \<Rightarrow> Payload" where
  "ex_payload e =
     \<lparr>p_Id = 1, p_Username = ''ann'', IssuedAt = 0, Subject = ''Token'', ExpiresAt = NumericDate (5 + sint (e * Second * Second))\<rparr>"

type_synonym ex_redis = "(string \<times> string \<times> int) list"

definition ex_lib :: "uint64 \<Rightarrow> (User list, ex_redis) lib" where
  "ex_lib e =
     \<lparr>db_Create = (\<lambda>u db.
        let k = of_nat (Suc (length db)) in
        if k \<noteq> 0 \<and> k \<notin> ID ` set db then (None, u\<lparr>ID := k\<rparr>, db @ [u\<lparr>ID := k\<rparr>]) else (Some ''full'', u, db)),
      db_Update = (\<lambda>u db. (None, map (\<lambda>v. if ID v = ID u then u else v) db)),
      db_FirstByUsername = (\<lambda>n db.
        case find (\<lambda>u. Username u = n) (ex_rows db) of None \<Rightarrow> Inl ''record not found'' | Some u \<Rightarrow> Inr u),
      db_FirstById = (\<lambda>i db.
        case find (\<lambda>u. ID u = i) (ex_rows db) of None \<Rightarrow> Inl ''record not found'' | Some u \<Rightarrow> Inr u),
      db_FindPage = (\<lambda>offset limit db. Inr (take (nat limit) (drop (nat offset) (ex_rows db)))),
      db_Count = (\<lambda>db. Inr (int (length (ex_rows db)))),
      db_Delete = (\<lambda>i db. (None, filter (\<lambda>u. ID u \<noteq> i) db)),
      rd_Set = (\<lambda>t k v e rd. (None, (k, v, t + sint e) # rd)),
      rd_Get = (\<lambda>t k rd.
        case map_of rd k of None \<Rightarrow> Inl ''redis: nil'' | Some (v, x) \<Rightarrow> if t < x then Inr v else Inl ''redis: nil''),
      rd_TTL = (\<lambda>t k rd. case map_of rd k of None \<Rightarrow> Inr (- 2) | Some (v, x) \<Rightarrow> Inr (if t < x then x - t else - 2)),
      rd_Expire = (\<lambda>t k e rd. case map_of rd k of None \<Rightarrow> rd | Some (v, _) \<Rightarrow> (k, v, t + sint e) # rd),
      bcrypt_Gen = (\<lambda>_ pw. Inr (CHR ''$'' # pw)),
      bcrypt_Compare = (\<lambda>h pw. if h = CHR ''$'' # pw then None else Some ''mismatch''),
      jwt_Sign = (\<lambda>key p. if p = ex_payload e then Inr ''jwt'' else Inl ''no key''),
      jwt_Parse = (\<lambda>key t tok.
        if tok = ''jwt'' \<and> t < ExpiresAt (ex_payload e) * 1000000000 then (None, ex_payload e, True)
        else (Some ''token is invalid'', zero_payload, False)),
      json_LoginInfo = (\<lambda>_ name. name),
      settings = ex_conf e\<rparr>"






definition ex_world :: "(User list, ex_redis) world" where
  "ex_world = \<lparr>database = [], redis = [], now = 0, hashes = 0\<rparr>"




text \<open>C40. The lifetime of a token is not the setting \<open>jwt.expire\<close>, which counts seconds: the number is multiplied
  by the nanoseconds of a second twice, on 64 bits. With the setting 60 of \<open>settings.yml\<close> a token is valid for
  more than 4659767778 seconds, 147 years. With 30 the product is negative and, jwt refusing expired tokens,
  the token is refused from the moment it is made: every request with it is answered with the error.
\<close>

theorem token_lifetime_wraps:
  assumes expired: "jwt_expiry_ok L"
    and tok: "GenToken L t1 ident name = Inr token"
  shows "(jwt_expire (settings L) = 60 \<longrightarrow>
      IssuedAt (token_payload L t1 ident name) + 4659767778 \<le> ExpiresAt (token_payload L t1 ident name)) \<and>
    (jwt_expire (settings L) = 30 \<longrightarrow>
      (\<forall>w c. t1 \<le> now w \<longrightarrow> authorized_route c \<longrightarrow>
         (\<exists>err. ParseToken L (now w) token = (fst (ParseToken L (now w) token), Some err) \<and>
            serve_request L \<lparr>req_call = c, header_Authorization = bearer token\<rparr> w = (err_msg err, w))))"
proof (intro conjI impI allI)
  assume "jwt_expire (settings L) = 60"
  then show "IssuedAt (token_payload L t1 ident name) + 4659767778 \<le> ExpiresAt (token_payload L t1 ident name)"
    using lifetime_60 by (simp add: token_payload_def NumericDate_def Let_def)
next
  fix w :: "('a, 'b) world" and c
  assume "jwt_expire (settings L) = 30" and t: "t1 \<le> now w" and c: "authorized_route c"
  then have "ExpiresAt (token_payload L t1 ident name) * 1000000000 \<le> now w"
    using lifetime_30 by (simp add: token_payload_def NumericDate_def Let_def)
  then have "fst (jwt_Parse L signingKey (now w) token) \<noteq> None"
    using expired tok unfolding jwt_expiry_ok_def GenToken_def by blast
  then obtain err p v where "jwt_Parse L signingKey (now w) token = (Some err, p, v)"
    by (cases "jwt_Parse L signingKey (now w) token") auto
  then have "ParseToken L (now w) token = (p, Some err)" by (simp add: ParseToken_def)
  then show "\<exists>err. ParseToken L (now w) token = (fst (ParseToken L (now w) token), Some err) \<and>
      serve_request L \<lparr>req_call = c, header_Authorization = bearer token\<rparr> w = (err_msg err, w)"
    using c by (simp add: serve_request_def Authorize_bearer)
qed

theorem token_lifetime_wraps_witness:
  "\<exists>err. serve_request (ex_lib 30) \<lparr>req_call = SelectByIdCall (Inr \<lparr>d_Id = 1\<rparr>), header_Authorization = bearer ''jwt''\<rparr>
     (ex_world\<lparr>now := 6\<rparr>) = (err_msg err, ex_world\<lparr>now := 6\<rparr>)"
proof -
  have tok: "GenToken (ex_lib 30) 5 1 ''ann'' = Inr ''jwt''"
    by (simp add: GenToken_def token_payload_def ex_lib_def ex_payload_def ex_conf_def NumericDate_def Let_def)
  have law: "jwt_expiry_ok (ex_lib 30)"
    by (simp add: jwt_expiry_ok_def ex_lib_def)
  have conf: "jwt_expire (settings (ex_lib 30)) = 30" by (simp add: ex_lib_def ex_conf_def)
  show ?thesis
    using token_lifetime_wraps [OF law tok, THEN conjunct2, rule_format, OF conf,
        of "ex_world\<lparr>now := 6\<rparr>" "SelectByIdCall (Inr \<lparr>d_Id = 1\<rparr>)"] by auto
qed

end
