(* ===== verification/Leetcode.thy ===== *)
theory Leetcode
  imports Prelude "HOL-Library.AList"
begin

text \<open>
  The exercises of \<open>go-leetcode\<close>: small functions on slices and maps. Go's \<open>int\<close> is \<^typ>\<open>int\<close>: the sizes that
  the exercises state keep every value far below $2^{63}$. Reads and writes outside a slice panic. Where the
  code ranges over a map, the order is a parameter.

  Each function is shown to do what its exercise asks, or to differ from it: \<open>maxArea\<close> measures with the higher
  of two lines instead of the lower one, and reserving a seat panics when none is left.
\<close>

section \<open>Two numbers with a sum (hot1.go)\<close>

definition num_index :: "int list \<Rightarrow> int \<Rightarrow> nat option" where
  "num_index nums = foldl (\<lambda>m (idx, num). m(num \<mapsto> idx)) Map.empty (enumerate 0 nums)"

fun two_scan :: "(int \<Rightarrow> nat option) \<Rightarrow> int \<Rightarrow> (nat \<times> int) list \<Rightarrow> nat list" where
  "two_scan numIdx target [] = []"
| "two_scan numIdx target ((idx1, num) # rest) =
     (case numIdx (target - num) of
        None \<Rightarrow> two_scan numIdx target rest
      | Some idx2 \<Rightarrow> if idx1 \<noteq> idx2 then [idx1, idx2] else two_scan numIdx target rest)"

definition twoSum :: "int list \<Rightarrow> int \<Rightarrow> nat list" where
  "twoSum nums target = two_scan (num_index nums) target (enumerate 0 nums)"

section \<open>Longest run of consecutive numbers (hot3.go)\<close>

function run_up :: "int list \<Rightarrow> int \<Rightarrow> nat \<Rightarrow> nat" where
  "run_up nums v curLen = (if v + 1 \<in> set nums then run_up nums (v + 1) (curLen + 1) else curLen)"
  by pat_completeness auto

termination
proof (relation "measure (\<lambda>(nums, v, _). card {x \<in> set nums. v < x})", goal_cases)
  case (2 nums v curLen)
  then have "{x \<in> set nums. v + 1 < x} \<subset> {x \<in> set nums. v < x}" by force
  then show ?case by (simp add: psubset_card_mono)
qed simp

declare run_up.simps [simp del]

definition longestConsecutive :: "(int set \<Rightarrow> int list) \<Rightarrow> int list \<Rightarrow> nat" where
  "longestConsecutive order nums =
     (if nums = [] then 0
      else
        foldl (\<lambda>maxLen v.
            if v - 1 \<in> set nums then maxLen
            else let curLen = run_up nums v 1 in if curLen > maxLen then curLen else maxLen)
          1 (order (set nums)))"

section \<open>Moving zeroes to the end (hot4.go)\<close>

function move_loop :: "nat \<Rightarrow> nat \<Rightarrow> int list \<Rightarrow> int list result" where
  "move_loop i j nums =
     (if j < length nums then
        if nums ! j = 0 then move_loop i (j + 1) nums
        else
          result_bind (get_at nums i) (\<lambda>x.
            move_loop (i + 1) (j + 1) (nums[i := nums ! j, j := x]))
      else Inr nums)"
  by pat_completeness auto

termination
  by (relation "measure (\<lambda>(i, j, nums). length nums - j)") auto

declare move_loop.simps [simp del]

definition moveZeroes :: "int list \<Rightarrow> int list result" where
  "moveZeroes nums = move_loop 0 0 nums"

section \<open>Container with most water (hot5.go)\<close>

definition cntArea :: "int list \<Rightarrow> nat \<Rightarrow> nat \<Rightarrow> int result" where
  "cntArea height i j =
     result_bind (get_at height i) (\<lambda>hi.
     result_bind (get_at height j) (\<lambda>hj.
       let h = (if hi < hj then hj else hi) in Inr ((int j - int i) * h)))"

function area_loop :: "int list \<Rightarrow> nat \<Rightarrow> nat \<Rightarrow> int \<Rightarrow> int result" where
  "area_loop height i j ans =
     (if i < j then
        result_bind (cntArea height i j) (\<lambda>area.
          let ans = (if area > ans then area else ans) in
          if height ! i > height ! j then area_loop height i (j - 1) ans else area_loop height (i + 1) j ans)
      else Inr ans)"
  by pat_completeness auto

termination
  by (relation "measure (\<lambda>(height, i, j, ans). j - i)") auto

declare area_loop.simps [simp del]

text \<open>For an empty slice the loop does not start, with \<open>j\<close> at -1 in the code and 0 here.\<close>

definition maxArea :: "int list \<Rightarrow> int result" where
  "maxArea height = area_loop height 0 (length height - 1) 0"

section \<open>Triples (hot6.go)\<close>

definition threeSum :: "int list \<Rightarrow> int list list" where
  "threeSum nums = []"

section \<open>Destination city (solution1436.go)\<close>

text \<open>A Go map is an association list; \<open>perm\<close> is the order in which it is iterated.\<close>

definition add_path :: "string list \<Rightarrow> (string \<times> int) list \<Rightarrow> (string \<times> int) list result" where
  "add_path path outDegree =
     result_bind (get_at path 0) (\<lambda>src.
       let outDegree =
         (case map_of outDegree src of
            Some v \<Rightarrow> AList.update src (v + 1) outDegree
          | None \<Rightarrow> AList.update src 1 outDegree)
       in result_bind (get_at path 1) (\<lambda>dst.
            case map_of outDegree dst of
              None \<Rightarrow> Inr (AList.update dst 0 outDegree)
            | Some _ \<Rightarrow> Inr outDegree))"

definition destCity :: "((string \<times> int) list \<Rightarrow> (string \<times> int) list) \<Rightarrow> string list list \<Rightarrow> string result" where
  "destCity perm paths =
     result_bind (for_each add_path paths []) (\<lambda>outDegree.
       case find (\<lambda>(k, v). v = 0) (perm outDegree) of Some (k, _) \<Rightarrow> Inr k | None \<Rightarrow> Inr '''')"

section \<open>Seat reservations (solution1845.go)\<close>

text \<open>Seats are 1 to \<open>n - 1\<close>; \<open>ok[0]\<close> is the lowest free seat, a free seat has 0 and a reserved one -1.\<close>

record SeatManager =
  sm_n :: nat
  sm_ok :: "int list"

definition SeatManager_new :: "nat \<Rightarrow> SeatManager" where
  "SeatManager_new n = \<lparr>sm_n = n + 1, sm_ok = (replicate (n + 1) 0)[0 := 1]\<rparr>"

function next_free :: "int list \<Rightarrow> nat \<Rightarrow> nat \<Rightarrow> nat result" where
  "next_free ok n i =
     (if i < length ok then
        if ok ! i = - 1 then
          if i + 1 = n then Inr n else next_free ok n (i + 1)
        else Inr i
      else Inl Panic)"
  by pat_completeness auto

termination
  by (relation "measure (\<lambda>(ok, n, i). length ok - i)") auto

declare next_free.simps [simp del]

text \<open>\<open>Reserve\<close>: an index below 0 or beyond the end panics.\<close>

definition Reserve :: "SeatManager \<Rightarrow> (int \<times> SeatManager) result" where
  "Reserve s =
     result_bind (get_at (sm_ok s) 0) (\<lambda>ret.
     if ret < 0 then Inl Panic
     else
       result_bind (set_at (sm_ok s) (nat ret) (- 1)) (\<lambda>ok.
       result_bind (next_free ok (sm_n s) (nat (ok ! 0))) (\<lambda>i.
       result_bind (set_at ok 0 (int i)) (\<lambda>ok. Inr (ret, s\<lparr>sm_ok := ok\<rparr>)))))"

definition Unreserve :: "nat \<Rightarrow> SeatManager \<Rightarrow> SeatManager result" where
  "Unreserve seatNumber s =
     result_bind (set_at (sm_ok s) seatNumber 0) (\<lambda>ok.
     result_bind (get_at ok 0) (\<lambda>low.
       if int seatNumber < low
       then result_bind (set_at ok 0 (int seatNumber)) (\<lambda>ok. Inr (s\<lparr>sm_ok := ok\<rparr>))
       else Inr (s\<lparr>sm_ok := ok\<rparr>)))"

section \<open>Edge scores (solution2374.go)\<close>

definition score_of :: "(int \<Rightarrow> int option) \<Rightarrow> int \<Rightarrow> int" where
  "score_of m d = (case m d of None \<Rightarrow> 0 | Some x \<Rightarrow> x)"

definition score_step :: "(int \<Rightarrow> int option) \<times> int \<Rightarrow> nat \<times> int \<Rightarrow> (int \<Rightarrow> int option) \<times> int" where
  "score_step st e =
     (case (st, e) of
        ((m, ans), (src, dst)) \<Rightarrow>
          let m = (case m dst of None \<Rightarrow> m(dst \<mapsto> int src) | Some x \<Rightarrow> m(dst \<mapsto> x + int src));
              ans = (if score_of m dst > score_of m ans \<or> score_of m dst = score_of m ans \<and> dst < ans then dst else ans)
          in (m, ans))"

definition edgeScore :: "int list \<Rightarrow> int result" where
  "edgeScore edges =
     result_bind (get_at edges 0) (\<lambda>e0.
       if length edges = 1 then Inr e0
       else Inr (snd (foldl score_step ([e0 \<mapsto> 0], e0) (enumerate 1 (tl edges)))))"

section \<open>Element sum and digit sum (solution2535.go)\<close>

text \<open>Go's \<open>/\<close> and \<open>%\<close> round towards zero.\<close>

definition quot10 :: "int \<Rightarrow> int" where
  "quot10 n = (if n < 0 then - ((- n) div 10) else n div 10)"

definition rem10 :: "int \<Rightarrow> int" where
  "rem10 n = n - 10 * quot10 n"

function digit_sum :: "int \<Rightarrow> int \<Rightarrow> int" where
  "digit_sum num tmp = (if num \<noteq> 0 then digit_sum (quot10 num) (tmp + rem10 num) else tmp)"
  by pat_completeness auto

termination
  by (relation "measure (\<lambda>(num, tmp). nat \<bar>num\<bar>)") (auto simp: quot10_def)

declare digit_sum.simps [simp del]

definition differenceOfSum :: "int list \<Rightarrow> int" where
  "differenceOfSum nums =
     (case foldl (\<lambda>(elemSum, numSum) num. (elemSum + num, numSum + digit_sum num 0)) (0, 0) nums of
        (elemSum, numSum) \<Rightarrow> if elemSum > numSum then elemSum - numSum else numSum - elemSum)"

section \<open>Good pairs (solution3162.go, solution3164.go)\<close>

text \<open>The inner loop over the sorted \<open>nums2\<close>, which stops at the first number that is too large; \<open>n1 % 0\<close> panics.\<close>

fun pairs_of :: "int \<Rightarrow> int \<Rightarrow> int list \<Rightarrow> int \<Rightarrow> int result" where
  "pairs_of k n1 [] num = Inr num"
| "pairs_of k n1 (n2 # rest) num =
     (if n1 < n2 * k then Inr num
      else if n2 * k = 0 then Inl Panic
      else pairs_of k n1 rest (if n2 * k dvd n1 then num + 1 else num))"

definition numberOfPairs :: "int list \<Rightarrow> int list \<Rightarrow> int \<Rightarrow> int result" where
  "numberOfPairs nums1 nums2 k = for_each (\<lambda>n1 ans. pairs_of k n1 (sort nums2) ans) (sort nums1) 0"

definition pairs_step ::
  "int \<Rightarrow> int list \<Rightarrow> int \<Rightarrow> (int \<Rightarrow> int option) \<times> int \<Rightarrow> ((int \<Rightarrow> int option) \<times> int) result" where
  "pairs_step k nums2 n1 st =
     (case st of
        (n1_num, ans) \<Rightarrow>
          (case n1_num n1 of
             Some num \<Rightarrow> Inr (n1_num, ans + num)
           | None \<Rightarrow> result_bind (pairs_of k n1 nums2 0) (\<lambda>num. Inr (n1_num(n1 \<mapsto> num), ans + num))))"

definition numberOfPairs2 :: "int list \<Rightarrow> int list \<Rightarrow> int \<Rightarrow> int result" where
  "numberOfPairs2 nums1 nums2 k =
     result_bind (for_each (pairs_step k (sort nums2)) nums1 (Map.empty, 0)) (\<lambda>(_, ans). Inr ans)"

section \<open>Tickets (solution983.go)\<close>

text \<open>The recursion with its table \<open>payment\<close>, in which 0 stands for a day not computed yet.\<close>

function pay :: "int list \<Rightarrow> nat list \<Rightarrow> nat \<Rightarrow> int list \<Rightarrow> (int \<times> int list) result" where
  "pay costs days i payment =
     (if i > 365 then Inr (0, payment)
      else
        result_bind (get_at payment i) (\<lambda>p.
          if p \<noteq> 0 then Inr (p, payment)
          else if i \<in> set days then
            result_bind (pay costs days (i + 1) payment) (\<lambda>r1.
            result_bind (get_at costs 0) (\<lambda>c1.
            result_bind (pay costs days (i + 7) (snd r1)) (\<lambda>r7.
            result_bind (get_at costs 1) (\<lambda>c7.
            result_bind (pay costs days (i + 30) (snd r7)) (\<lambda>r30.
            result_bind (get_at costs 2) (\<lambda>c30.
              let v = min (fst r1 + c1) (min (fst r7 + c7) (fst r30 + c30)) in Inr (v, (snd r30)[i := v])))))))
          else
            result_bind (pay costs days (i + 1) payment) (\<lambda>r. Inr (fst r, (snd r)[i := fst r]))))"
  by pat_completeness auto

termination
  by (relation "measure (\<lambda>(costs, days, i, payment). 366 - i)") auto

declare pay.simps [simp del]

definition mincostTickets :: "nat list \<Rightarrow> int list \<Rightarrow> int result" where
  "mincostTickets days costs = result_bind (pay costs days 1 (replicate 366 0)) (\<lambda>r. Inr (fst r))"

section \<open>Two numbers with a sum: the pair is right and is found\<close>

lemma num_index_snoc: "num_index (xs @ [x]) = (num_index xs)(x \<mapsto> length xs)"
  by (simp add: num_index_def enumerate_append_eq)

text \<open>The map holds an index of each number, the last one.\<close>

lemma num_index_nth: "num_index nums x = Some j \<Longrightarrow> j < length nums \<and> nums ! j = x"
proof (induction nums rule: rev_induct)
  case (snoc y ys)
  then show ?case
    by (auto simp: num_index_snoc nth_append split: if_splits)
qed (simp add: num_index_def)

lemma num_index_member: "j < length nums \<Longrightarrow> \<exists>l. num_index nums (nums ! j) = Some l \<and> j \<le> l"
proof (induction nums rule: rev_induct)
  case (snoc y ys)
  then show ?case
    by (cases "j < length ys") (auto simp: num_index_snoc nth_append intro: less_imp_le)
qed simp

lemma two_scan_sound:
  assumes "two_scan m target es = [i, j]"
  shows "\<exists>x. (i, x) \<in> set es \<and> m (target - x) = Some j \<and> i \<noteq> j"
  using assms by (induction m target es rule: two_scan.induct) (auto split: option.splits if_splits)

lemma two_scan_empty:
  assumes "two_scan m target es = []" "(i, x) \<in> set es" "m (target - x) = Some j"
  shows "i = j"
  using assms by (induction m target es rule: two_scan.induct) (auto split: option.splits if_splits)

lemma twoSum_sound:
  assumes "twoSum nums target = [i, j]"
  shows "i < length nums \<and> j < length nums \<and> i \<noteq> j \<and> nums ! i + nums ! j = target"
  using two_scan_sound [OF assms [unfolded twoSum_def]]
  by (auto simp: in_set_enumerate_eq dest: num_index_nth)

lemma twoSum_complete:
  assumes "i < j" "j < length nums" "nums ! i + nums ! j = target"
  shows "twoSum nums target \<noteq> []"
proof
  assume *: "twoSum nums target = []"
  obtain l where l: "num_index nums (nums ! j) = Some l" "j \<le> l" using num_index_member assms(2) by blast
  have "target - nums ! i = nums ! j" using assms(3) by simp
  then have n: "num_index nums (target - nums ! i) = Some l" using l(1) by simp
  have "(i, nums ! i) \<in> set (enumerate 0 nums)" using assms(1,2) by (simp add: in_set_enumerate_eq)
  from two_scan_empty [OF * [unfolded twoSum_def] this n] l(2) assms(1) show False by simp
qed

section \<open>Longest run: the result is a run and no run is longer\<close>

definition is_run :: "int set \<Rightarrow> int \<Rightarrow> nat \<Rightarrow> bool" where
  "is_run A v n \<longleftrightarrow> (\<forall>k < n. v + int k \<in> A)"

lemma is_run_Suc: "is_run A v (Suc n) \<longleftrightarrow> v \<in> A \<and> is_run A (v + 1) n"
  by (auto simp: is_run_def less_Suc_eq_0_disj algebra_simps)

lemma run_up_run: "\<exists>m. run_up nums v c = c + m \<and> is_run (set nums) (v + 1) m \<and> v + 1 + int m \<notin> set nums"
proof (induction nums v c rule: run_up.induct)
  case (1 nums v c)
  show ?case
  proof (cases "v + 1 \<in> set nums")
    case True
    then obtain m where "run_up nums (v + 1) (c + 1) = c + 1 + m" "is_run (set nums) (v + 1 + 1) m"
        "v + 1 + 1 + int m \<notin> set nums"
      using 1 by blast
    with True show ?thesis
      by (intro exI [of _ "Suc m"]) (subst run_up.simps, simp add: is_run_Suc algebra_simps)
  next
    case False
    then show ?thesis by (intro exI [of _ 0]) (subst run_up.simps, simp add: is_run_def)
  qed
qed

text \<open>Every run lies in one that cannot be extended downwards.\<close>

lemma run_start:
  assumes "finite A" "is_run A v (Suc n)"
  shows "\<exists>u d. u \<in> A \<and> u - 1 \<notin> A \<and> v = u + int d \<and> is_run A u (d + Suc n)"
  using assms
proof (induction "card {x \<in> A. x < v}" arbitrary: v n rule: less_induct)
  case less
  have v: "v \<in> A" using less.prems(2) by (simp add: is_run_Suc)
  show ?case
  proof (cases "v - 1 \<in> A")
    case False
    with v less.prems show ?thesis by (intro exI [of _ v] exI [of _ 0]) simp
  next
    case True
    have "{x \<in> A. x < v - 1} \<subset> {x \<in> A. x < v}" using True by force
    then have c: "card {x \<in> A. x < v - 1} < card {x \<in> A. x < v}"
      using less.prems(1) by (simp add: psubset_card_mono)
    have "is_run A (v - 1) (Suc (Suc n))" using True less.prems(2) is_run_Suc [of A "v - 1" "Suc n"] by simp
    from less.hyps [OF c less.prems(1) this] obtain u d where
      "u \<in> A" "u - 1 \<notin> A" "v - 1 = u + int d" "is_run A u (d + Suc (Suc n))" by blast
    then show ?thesis by (intro exI [of _ u] exI [of _ "Suc d"]) simp
  qed
qed

lemma is_run_le: "is_run A u n \<Longrightarrow> u + int m \<notin> A \<Longrightarrow> n \<le> m"
  by (metis is_run_def linorder_not_less)

lemma run_up_start:
  assumes "u \<in> set nums" "is_run (set nums) u n"
  shows "n \<le> run_up nums u 1 \<and> is_run (set nums) u (run_up nums u 1)"
proof -
  obtain m where m: "run_up nums u 1 = 1 + m" "is_run (set nums) (u + 1) m" "u + 1 + int m \<notin> set nums"
    using run_up_run by blast
  have "is_run (set nums) u (Suc m)" using assms(1) m(2) by (simp add: is_run_Suc)
  moreover have "n \<le> Suc m" by (rule is_run_le [OF assms(2)]) (use m(3) in \<open>simp add: algebra_simps\<close>)
  ultimately show ?thesis using m(1) by simp
qed

text \<open>The loop keeps the length of a run and takes the maximum.\<close>

definition run_step :: "int list \<Rightarrow> nat \<Rightarrow> int \<Rightarrow> nat" where
  "run_step nums maxLen v = (if v - 1 \<in> set nums then maxLen else max maxLen (run_up nums v 1))"

lemma longestConsecutive_step:
  "nums \<noteq> [] \<Longrightarrow> longestConsecutive order nums = foldl (run_step nums) 1 (order (set nums))"
  unfolding longestConsecutive_def run_step_def Let_def max_def
  by (simp only: if_False) (rule foldl_cong, auto)

lemma foldl_run_step:
  "m \<le> foldl (run_step nums) m vs \<and>
   (\<forall>v \<in> set vs. v - 1 \<notin> set nums \<longrightarrow> run_up nums v 1 \<le> foldl (run_step nums) m vs) \<and>
   (foldl (run_step nums) m vs = m \<or> (\<exists>v \<in> set vs. foldl (run_step nums) m vs = run_up nums v 1))"
proof (induction vs arbitrary: m)
  case (Cons v vs)
  from Cons [of "run_step nums m v"] show ?case
    by (auto simp: run_step_def max_def split: if_splits)
qed simp

lemma longestConsecutive_correct:
  assumes "nums \<noteq> []" "set (order (set nums)) = set nums"
  shows "(\<exists>v. is_run (set nums) v (longestConsecutive order nums)) \<and>
    (\<forall>v n. is_run (set nums) v n \<longrightarrow> n \<le> longestConsecutive order nums)"
proof -
  define r where "r = foldl (run_step nums) 1 (order (set nums))"
  have r: "longestConsecutive order nums = r" unfolding r_def by (rule longestConsecutive_step [OF assms(1)])
  note f = foldl_run_step [of 1 nums "order (set nums)", folded r_def]
  have "\<exists>v. is_run (set nums) v r"
  proof -
    have one: "is_run (set nums) v 1 \<longleftrightarrow> v \<in> set nums" for v by (simp add: is_run_def)
    obtain v0 where "v0 \<in> set nums" using assms(1) by (meson list.set_sel(1))
    moreover have "is_run (set nums) v (run_up nums v 1)" if "v \<in> set nums" for v
      using run_up_start [OF that, of 0] by (simp add: is_run_def)
    moreover have "r = 1 \<or> (\<exists>v \<in> set nums. r = run_up nums v 1)" using f assms(2) by simp
    ultimately show ?thesis using one by auto
  qed
  moreover have "n \<le> r" if run: "is_run (set nums) v n" for v n
  proof (cases n)
    case (Suc k)
    then obtain u d where u: "u \<in> set nums" "u - 1 \<notin> set nums" "is_run (set nums) u (d + n)"
      using run_start [of "set nums" v k] run Suc by auto
    have "d + n \<le> run_up nums u 1" using run_up_start [OF u(1,3)] by simp
    moreover have "run_up nums u 1 \<le> r" using f u(1,2) assms(2) by blast
    ultimately show ?thesis by simp
  qed simp
  ultimately show ?thesis unfolding r by blast
qed

section \<open>Moving zeroes: the other numbers keep their order\<close>

lemma move_loop_split:
  "move_loop (length fs) (length fs + k) (fs @ replicate k 0 @ rest) =
     Inr (fs @ filter (\<lambda>x. x \<noteq> 0) rest @ replicate (k + length (filter (\<lambda>x. x = 0) rest)) 0)"
proof (induction rest arbitrary: fs k)
  case Nil
  show ?case by (subst move_loop.simps) simp
next
  case (Cons x rest)
  let ?nums = "fs @ replicate k 0 @ x # rest"
  have nth: "?nums ! (length fs + k) = x" by (simp add: nth_append)
  show ?case
  proof (cases "x = 0")
    case True
    have eq: "fs @ replicate (Suc k) 0 @ rest = ?nums"
      using True by (simp add: replicate_append_same [symmetric] del: replicate_append_same)
    show ?thesis
      using Cons [of fs "Suc k", unfolded eq] True nth by (subst move_loop.simps) simp
  next
    case False
    have "?nums[length fs := x, length fs + k := ?nums ! length fs] = (fs @ [x]) @ replicate k 0 @ rest"
      by (cases k) (simp_all add: list_update_append nth_append replicate_append_same)
    moreover have "length fs < length ?nums" by simp
    ultimately show ?thesis
      using Cons [of "fs @ [x]" k] False nth by (subst move_loop.simps) (simp add: get_at_def)
  qed
qed

lemma moveZeroes_correct:
  "moveZeroes nums = Inr (filter (\<lambda>x. x \<noteq> 0) nums @ replicate (length (filter (\<lambda>x. x = 0) nums)) 0)"
  using move_loop_split [of "[]" 0 nums] by (simp add: moveZeroes_def)

section \<open>Container with most water: the code takes the higher line\<close>

lemma maxArea_takes_higher_line: "maxArea [1, 3] = Inr 3"
  by (simp add: maxArea_def area_loop.simps cntArea_def get_at_def)

section \<open>Destination city: no path leaves it\<close>

text \<open>The map holds, for every city of the paths, the number of paths that leave it.\<close>

definition leaving :: "string list list \<Rightarrow> string \<Rightarrow> int" where
  "leaving paths c = int (length (filter (\<lambda>p. p ! 0 = c) paths))"

definition cities :: "string list list \<Rightarrow> string set" where
  "cities paths = (\<Union>p \<in> set paths. {p ! 0, p ! 1})"

definition counts :: "string list list \<Rightarrow> (string \<times> int) list \<Rightarrow> bool" where
  "counts paths m \<longleftrightarrow> map_of m = (\<lambda>c. if c \<in> cities paths then Some (leaving paths c) else None)"

lemma leaving_none: "c \<notin> cities paths \<Longrightarrow> leaving paths c = 0"
  by (auto simp: leaving_def cities_def filter_empty_conv)

lemma add_path_counts:
  assumes "counts ps m" "2 \<le> length p"
  shows "\<exists>m'. add_path p m = Inr m' \<and> counts (ps @ [p]) m'"
proof -
  define a b where "a = p ! 0" and "b = p ! 1"
  define m1 where "m1 = (case map_of m a of Some v \<Rightarrow> AList.update a (v + 1) m | None \<Rightarrow> AList.update a 1 m)"
  define m2 where "m2 = (case map_of m1 b of None \<Rightarrow> AList.update b 0 m1 | Some _ \<Rightarrow> m1)"
  have "0 < length p" "1 < length p" using assms(2) by linarith+
  then have g: "get_at p 0 = Inr a" "get_at p 1 = Inr b" unfolding a_def b_def by (simp_all only: get_at_in)
  have add: "add_path p m = Inr m2"
    unfolding add_path_def g result_bind.simps Let_def m1_def [symmetric] m2_def by (simp split: option.split)
  have l: "leaving (ps @ [p]) c = leaving ps c + (if c = a then 1 else 0)" for c by (simp add: leaving_def a_def)
  have ci: "cities (ps @ [p]) = insert a (insert b (cities ps))" by (auto simp: cities_def a_def b_def)
  have m: "map_of m c = (if c \<in> cities ps then Some (leaving ps c) else None)" for c using assms(1) by (simp add: counts_def)
  have m1: "map_of m1 c = (if c = a then Some (leaving ps a + 1) else map_of m c)" for c
    using leaving_none [of a ps] by (auto simp: m1_def update_conv m split: option.split)
  have "map_of m2 c = (if c \<in> cities (ps @ [p]) then Some (leaving (ps @ [p]) c) else None)" for c
    using leaving_none [of b ps] by (auto simp: m2_def update_conv m1 m ci l split: option.split)
  with add show ?thesis by (auto simp: counts_def fun_eq_iff)
qed

lemma for_each_add_path:
  assumes "counts ps m" "\<forall>p \<in> set qs. 2 \<le> length p"
  shows "\<exists>m'. for_each add_path qs m = Inr m' \<and> counts (ps @ qs) m'"
  using assms
proof (induction qs arbitrary: ps m)
  case (Cons q qs)
  then obtain m1 where "add_path q m = Inr m1" "counts (ps @ [q]) m1" using add_path_counts by fastforce
  with Cons.IH [of "ps @ [q]" m1] Cons.prems(2) show ?case by auto
qed simp

lemma add_path_distinct: "add_path p m = Inr m' \<Longrightarrow> distinct (map fst m) \<Longrightarrow> distinct (map fst m')"
  by (auto simp: add_path_def Let_def distinct_update split: option.splits)

lemma destCity_correct:
  assumes "\<forall>p \<in> set paths. 2 \<le> length p" "\<And>m. set (perm m) = set m"
    and "c \<in> cities paths" "leaving paths c = 0"
  shows "\<exists>d. destCity perm paths = Inr d \<and> d \<in> cities paths \<and> leaving paths d = 0"
proof -
  have "counts [] []" by (simp add: counts_def cities_def)
  then obtain m where m: "for_each add_path paths [] = Inr m" "counts paths m"
    using for_each_add_path [OF _ assms(1)] by fastforce
  have dist: "distinct (map fst m)"
    by (rule for_each_inv [OF m(1)]) (auto intro: add_path_distinct)
  have "map_of m c = Some 0" using m(2) assms(3,4) by (simp add: counts_def)
  then have "(c, 0) \<in> set (perm m)" using assms(2) by (simp add: map_of_SomeD)
  then obtain e where e: "find (\<lambda>(k, v). v = 0) (perm m) = Some e"
    by (cases "find (\<lambda>(k, v). v = 0) (perm m)") (auto simp: find_None_iff)
  then have "e \<in> set (perm m) \<and> (case e of (k, v) \<Rightarrow> v = 0)" unfolding find_Some_iff by (elim exE conjE) (simp only: nth_mem simp_thms)
  then obtain d where d: "e = (d, 0)" "(d, 0) \<in> set m" using assms(2) by (cases e) auto
  then have "map_of m d = Some 0" using dist by simp
  then have "d \<in> cities paths \<and> leaving paths d = 0" using m(2) by (simp add: counts_def split: if_splits)
  then show ?thesis using m(1) e d(1) by (simp add: destCity_def)
qed

section \<open>Seat reservations: the lowest free seat\<close>

text \<open>A seat manager stands for the set of free seats.\<close>

definition seats_ok :: "nat set \<Rightarrow> SeatManager \<Rightarrow> bool" where
  "seats_ok free s \<longleftrightarrow>
     0 < sm_n s \<and> length (sm_ok s) = sm_n s \<and> free \<subseteq> {1..<sm_n s} \<and>
     (\<forall>i \<in> {1..<sm_n s}. sm_ok s ! i = (if i \<in> free then 0 else - 1)) \<and>
     sm_ok s ! 0 = int (if free = {} then sm_n s else Min free)"

lemma SeatManager_new_ok: "seats_ok {1..n} (SeatManager_new n)"
proof -
  have "{1..n} = {} \<longleftrightarrow> n = 0" "n \<noteq> 0 \<Longrightarrow> Min {1..n} = 1" by (auto intro: Min_eqI)
  then show ?thesis by (auto simp: seats_ok_def SeatManager_new_def nth_Cons')
qed

text \<open>The scan finds the lowest free seat from a place on.\<close>

lemma next_free_finds:
  assumes "length ok = n" "1 \<le> i" "i < n" "\<forall>j \<in> {1..<n}. ok ! j = (if j \<in> free then 0 else - 1)"
    and "free \<subseteq> {i..<n}"
  shows "next_free ok n i = Inr (if free = {} then n else Min free)"
  using assms(2,3,5)
proof (induction "n - i" arbitrary: i rule: less_induct)
  case less
  have fin: "finite free" using less.prems(3) finite_subset by blast
  show ?case
  proof (cases "i \<in> free")
    case True
    then have "Min free = i" using less.prems(3) fin by (intro Min_eqI) auto
    with True less.prems assms(1,4) show ?thesis by (subst next_free.simps) auto
  next
    case False
    then have ok: "ok ! i = - 1" using assms(4) less.prems by simp
    have sub: "free \<subseteq> {i + 1..<n}"
    proof
      fix x assume "x \<in> free"
      with less.prems(3) False have "i \<le> x" "x < n" "x \<noteq> i" by auto
      then show "x \<in> {i + 1..<n}" by simp
    qed
    show ?thesis
    proof (cases "i + 1 = n")
      case True
      with sub have "free = {}" by simp
      with True ok less.prems assms(1) show ?thesis by (subst next_free.simps) simp
    next
      case False
      then have "next_free ok n (i + 1) = Inr (if free = {} then n else Min free)"
        using less.prems sub by (intro less.hyps) auto
      with False ok less.prems assms(1) show ?thesis by (subst next_free.simps) simp
    qed
  qed
qed

lemma Reserve_lowest:
  assumes "seats_ok free s" "free \<noteq> {}"
  shows "\<exists>s'. Reserve s = Inr (int (Min free), s') \<and> seats_ok (free - {Min free}) s' \<and> sm_n s' = sm_n s"
proof -
  define m where "m = Min free"
  define n where "n = sm_n s"
  define ok where "ok = (sm_ok s)[m := - 1]"
  have fin: "finite free" using assms(1) finite_subset by (auto simp: seats_ok_def)
  have mf: "m \<in> free" unfolding m_def using fin assms(2) by simp
  have m: "1 \<le> m" "m < n" using mf assms(1) by (auto simp: seats_ok_def n_def)
  have low: "sm_ok s ! 0 = int m" using assms by (simp add: seats_ok_def m_def)
  have len: "length (sm_ok s) = n" "0 < n" using assms(1) by (simp_all add: seats_ok_def n_def)
  have okn: "\<forall>j \<in> {1..<n}. ok ! j = (if j \<in> free - {m} then 0 else - 1)"
    using assms(1) len m by (auto simp: seats_ok_def n_def ok_def nth_list_update)
  have sub: "free - {m} \<subseteq> {m..<n}"
    using assms(1) Min_le [OF fin] by (auto simp: seats_ok_def n_def m_def)
  define q where "q = (if free - {m} = {} then n else Min (free - {m}))"
  have nf: "next_free ok n m = Inr q"
    unfolding q_def by (rule next_free_finds [OF _ m okn sub]) (simp add: ok_def len)
  have set: "get_at (sm_ok s) 0 = Inr (int m)" "set_at (sm_ok s) m (- 1) = Inr ok" "set_at ok 0 (int q) = Inr (ok[0 := int q])"
    using len m low by (simp_all add: get_at_def set_at_def ok_def)
  have "ok ! 0 = int m" using m low by (simp add: ok_def)
  then have r: "Reserve s = Inr (int m, s\<lparr>sm_ok := ok[0 := int q]\<rparr>)"
    unfolding Reserve_def set result_bind.simps by (simp add: set nf n_def [symmetric])
  have "seats_ok (free - {m}) (s\<lparr>sm_ok := ok[0 := int q]\<rparr>)"
    using assms(1) okn len by (auto simp: seats_ok_def n_def q_def ok_def nth_list_update)
  with r show ?thesis unfolding m_def by (intro exI [of _ "s\<lparr>sm_ok := ok[0 := int q]\<rparr>"]) simp
qed

lemma Reserve_full_panics:
  assumes "seats_ok {} s"
  shows "Reserve s = Inl Panic"
  using assms by (simp add: seats_ok_def Reserve_def get_at_def set_at_def)

lemma Unreserve_frees:
  assumes "seats_ok free s" "1 \<le> k" "k < sm_n s"
  shows "\<exists>s'. Unreserve k s = Inr s' \<and> seats_ok (insert k free) s' \<and> sm_n s' = sm_n s"
proof -
  define low where "low = (if free = {} then sm_n s else Min free)"
  have fin: "finite free" using assms(1) finite_subset by (auto simp: seats_ok_def)
  have "Min (insert k free) = min k low"
    using fin assms(3) by (cases "free = {}") (simp_all add: low_def)
  moreover have "sm_ok s ! 0 = int low" using assms(1) by (simp add: seats_ok_def low_def)
  ultimately show ?thesis
    using assms by (auto simp: Unreserve_def get_at_def set_at_def seats_ok_def nth_list_update min_def)
qed

text \<open>
  The interface of a seat manager: a state stands for a set of free seats, reserving takes the lowest one and
  panics when there is none, and a reserved seat can be given back.
\<close>

locale seat_store =
  fixes holds :: "nat set \<Rightarrow> 'm \<Rightarrow> bool"
    and limit :: "'m \<Rightarrow> nat"
    and reserve :: "'m \<Rightarrow> (int \<times> 'm) result"
    and unreserve :: "nat \<Rightarrow> 'm \<Rightarrow> 'm result"
  assumes holds_range: "holds free s \<Longrightarrow> free \<subseteq> {1..<limit s}"
    and reserve_min: "holds free s \<Longrightarrow> free \<noteq> {} \<Longrightarrow>
      \<exists>s'. reserve s = Inr (int (Min free), s') \<and> holds (free - {Min free}) s' \<and> limit s' = limit s"
    and reserve_none: "holds {} s \<Longrightarrow> reserve s = Inl Panic"
    and unreserve_adds: "holds free s \<Longrightarrow> 1 \<le> k \<Longrightarrow> k < limit s \<Longrightarrow>
      \<exists>s'. unreserve k s = Inr s' \<and> holds (insert k free) s' \<and> limit s' = limit s"
begin

lemma holds_finite: "holds free s \<Longrightarrow> finite free"
  using holds_range finite_subset by blast

text \<open>Reservations in a row give the free seats in increasing order, until the last one.\<close>

fun reserve_all :: "nat \<Rightarrow> 'm \<Rightarrow> (int list \<times> 'm) result" where
  "reserve_all 0 s = Inr ([], s)"
| "reserve_all (Suc n) s =
     result_bind (reserve s) (\<lambda>(r, s). result_bind (reserve_all n s) (\<lambda>(rs, s). Inr (r # rs, s)))"

lemma reserve_all_sorted:
  "holds free s \<Longrightarrow> \<exists>s'. reserve_all (card free) s = Inr (map int (sorted_list_of_set free), s') \<and> holds {} s'"
proof (induction "card free" arbitrary: free s)
  case 0
  then have "free = {}" using holds_finite by simp
  with 0 show ?case by auto
next
  case (Suc n)
  have fin: "finite free" by (rule holds_finite [OF Suc.prems])
  then have ne: "free \<noteq> {}" using Suc.hyps(2) by auto
  obtain s1 where s1: "reserve s = Inr (int (Min free), s1)" "holds (free - {Min free}) s1"
    using reserve_min [OF Suc.prems ne] by blast
  have c: "n = card (free - {Min free})" using Suc.hyps(2) fin ne by simp
  obtain s2 where s2: "reserve_all n s1 = Inr (map int (sorted_list_of_set (free - {Min free})), s2)" "holds {} s2"
    using Suc.hyps(1) [OF c s1(2)] c by auto
  have "sorted_list_of_set free = Min free # sorted_list_of_set (free - {Min free})"
    using fin ne by (rule sorted_list_of_set_nonempty)
  with s1(1) s2 show ?case unfolding Suc.hyps(2) [symmetric] by simp
qed

text \<open>A seat that was given back is the next one, if it is lower than the free ones.\<close>

lemma unreserve_then_reserve:
  assumes "holds free s" "1 \<le> k" "k < limit s" "\<forall>x \<in> free. k \<le> x"
  shows "\<exists>s1 s2. unreserve k s = Inr s1 \<and> reserve s1 = Inr (int k, s2)"
proof -
  obtain s1 where s1: "unreserve k s = Inr s1" "holds (insert k free) s1"
    using unreserve_adds [OF assms(1-3)] by blast
  have "Min (insert k free) = k" using holds_finite [OF assms(1)] assms(4) by (intro Min_eqI) auto
  with s1 reserve_min [OF s1(2)] show ?thesis by auto
qed

end

interpretation seats: seat_store seats_ok sm_n Reserve Unreserve
proof
  fix free s
  assume "seats_ok free s"
  then show "free \<subseteq> {1..<sm_n s}" by (simp add: seats_ok_def)
qed (use Reserve_lowest Reserve_full_panics Unreserve_frees in blast)+

text \<open>A new seat manager hands out all its seats in order.\<close>

lemma SeatManager_in_order:
  "\<exists>s'. seats.reserve_all n (SeatManager_new n) = Inr (map int [1..<n + 1], s')"
proof -
  have "sorted_list_of_set {1..n} = [1..<n + 1]"
    by (metis Suc_eq_plus1 atLeastLessThanSuc_atLeastAtMost sorted_list_of_set_range)
  then show ?thesis using seats.reserve_all_sorted [OF SeatManager_new_ok [of n]] by auto
qed

section \<open>Edge scores: the best destination\<close>

text \<open>The answer has the highest score of the destinations seen, and is the lowest such destination.\<close>

definition best :: "(int \<Rightarrow> int option) \<times> int \<Rightarrow> bool" where
  "best st \<longleftrightarrow>
     (case st of (m, ans) \<Rightarrow>
        ans \<in> dom m \<and>
        (\<forall>d \<in> dom m. score_of m d < score_of m ans \<or> score_of m d = score_of m ans \<and> ans \<le> d))"

lemma score_step_best:
  assumes "best st"
  shows "best (score_step st (src, dst))"
proof -
  obtain m ans where st: "st = (m, ans)" by (cases st)
  define m' where "m' = (case m dst of None \<Rightarrow> m(dst \<mapsto> int src) | Some x \<Rightarrow> m(dst \<mapsto> x + int src))"
  have dom: "dom m' = insert dst (dom m)" by (auto simp: m'_def split: option.splits)
  have sc: "score_of m' d = score_of m d + (if d = dst then int src else 0)" for d
    by (auto simp: m'_def score_of_def split: option.splits)
  have b: "ans \<in> dom m" "\<forall>d \<in> dom m. score_of m d < score_of m ans \<or> score_of m d = score_of m ans \<and> ans \<le> d"
    using assms st by (auto simp: best_def)
  have step: "score_step st (src, dst) =
      (m', if score_of m' dst > score_of m' ans \<or> score_of m' dst = score_of m' ans \<and> dst < ans then dst else ans)"
    by (simp add: score_step_def st m'_def Let_def)
  show ?thesis
    unfolding step best_def prod.case dom
  proof (intro conjI ballI)
    let ?a = "if score_of m' dst > score_of m' ans \<or> score_of m' dst = score_of m' ans \<and> dst < ans then dst else ans"
    show "?a \<in> insert dst (dom m)" using b(1) by simp
    fix d
    assume "d \<in> insert dst (dom m)"
    then consider "d = dst" | "d \<noteq> dst" "score_of m d < score_of m ans \<or> score_of m d = score_of m ans \<and> ans \<le> d"
      using b(2) by blast
    then show "score_of m' d < score_of m' ?a \<or> score_of m' d = score_of m' ?a \<and> ?a \<le> d"
    proof cases
      case 2
      then have "score_of m' d < score_of m' ans \<or> score_of m' d = score_of m' ans \<and> ans \<le> d" by (auto simp: sc)
      then show ?thesis by auto
    qed auto
  qed
qed

lemma foldl_score_best: "best st \<Longrightarrow> best (foldl score_step st es)"
proof (induction es arbitrary: st)
  case (Cons e es)
  have "best (score_step st e)" using score_step_best [OF Cons.prems, of "fst e" "snd e"] by simp
  then show ?case using Cons.IH by simp
qed simp

text \<open>The map adds up the sources of each destination.\<close>

lemma foldl_score_sum:
  "score_of (fst (foldl score_step st es)) d = score_of (fst st) d + (\<Sum>(s, t) \<leftarrow> es. if t = d then int s else 0)"
proof (induction es arbitrary: st)
  case (Cons e es)
  have "score_of (fst (score_step st e)) d = score_of (fst st) d + (if snd e = d then int (fst e) else 0)"
    by (auto simp: score_step_def score_of_def Let_def split: prod.splits option.splits)
  with Cons show ?case by (simp add: case_prod_beta)
qed simp

section \<open>Element sum and digit sum: the digit sum is never larger\<close>

lemma digit_sum_bounds:
  assumes "0 \<le> n"
  shows "tmp \<le> digit_sum n tmp \<and> digit_sum n tmp \<le> tmp + n"
  using assms
proof (induction n tmp rule: digit_sum.induct)
  case (1 n tmp)
  show ?case
  proof (cases "n = 0")
    case True
    then have "digit_sum n tmp = tmp" by (subst digit_sum.simps) simp
    with True show ?thesis by simp
  next
    case False
    then have q: "quot10 n = n div 10" "rem10 n = n mod 10" "0 \<le> n div 10"
      using 1(2) by (simp_all add: quot10_def rem10_def minus_mult_div_eq_mod pos_imp_zdiv_nonneg_iff)
    then have "tmp + rem10 n \<le> digit_sum (quot10 n) (tmp + rem10 n) \<and>
        digit_sum (quot10 n) (tmp + rem10 n) \<le> tmp + rem10 n + quot10 n"
      using 1 False by simp
    moreover have "0 \<le> n mod 10" by simp
    moreover have "n mod 10 + n div 10 \<le> n" using mult_div_mod_eq [of 10 n] q(3) by linarith
    moreover have "digit_sum n tmp = digit_sum (quot10 n) (tmp + rem10 n)" using False by (subst digit_sum.simps) simp
    ultimately show ?thesis unfolding q(1,2) by linarith
  qed
qed

lemma foldl_sums:
  "foldl (\<lambda>(e, s) num. (e + num, s + digit_sum num 0)) (a, b) nums =
     (a + sum_list nums, b + (\<Sum>n \<leftarrow> nums. digit_sum n 0))"
  by (induction nums arbitrary: a b) (simp_all add: algebra_simps)

lemma differenceOfSum_correct:
  assumes "\<forall>n \<in> set nums. 0 \<le> n"
  shows "differenceOfSum nums = sum_list nums - (\<Sum>n \<leftarrow> nums. digit_sum n 0)"
proof -
  have "(\<Sum>n \<leftarrow> nums. digit_sum n 0) \<le> sum_list nums"
    using assms by (induction nums) (use digit_sum_bounds [of _ 0] in \<open>auto intro!: add_mono\<close>)
  then show ?thesis by (simp add: differenceOfSum_def foldl_sums)
qed

section \<open>Good pairs: both versions count them\<close>

definition good_count :: "int \<Rightarrow> int list \<Rightarrow> int \<Rightarrow> int" where
  "good_count k nums2 n1 = int (length (filter (\<lambda>n2. n2 * k dvd n1) nums2))"

lemma pairs_of_sorted:
  assumes "0 < k" "0 < n1" "sorted ns" "\<forall>n \<in> set ns. 0 < n"
  shows "pairs_of k n1 ns num = Inr (num + good_count k ns n1)"
  using assms(3,4)
proof (induction ns arbitrary: num)
  case (Cons n ns)
  have pos: "n * k \<noteq> 0" using Cons.prems(2) assms(1) by simp
  show ?case
  proof (cases "n1 < n * k")
    case True
    have "\<not> m * k dvd n1" if "m \<in> set (n # ns)" for m
    proof -
      have "n * k \<le> m * k" using that Cons.prems(1) assms(1) by (intro mult_right_mono) auto
      with True assms(2) show ?thesis using zdvd_imp_le [of "m * k" n1] by linarith
    qed
    then have "good_count k (n # ns) n1 = 0" by (auto simp: good_count_def filter_empty_conv)
    with True show ?thesis by simp
  next
    case False
    with Cons pos show ?thesis by (simp add: good_count_def)
  qed
qed (simp add: good_count_def)

lemma good_count_sort: "good_count k (sort ns) n1 = good_count k ns n1"
  by (metis (no_types, lifting) good_count_def filter_sort length_sort)

lemma numberOfPairs_correct:
  assumes "0 < k" "\<forall>n \<in> set nums1. 0 < n" "\<forall>n \<in> set nums2. 0 < n"
  shows "numberOfPairs nums1 nums2 k = Inr (\<Sum>n1 \<leftarrow> nums1. good_count k nums2 n1)"
proof -
  have "for_each (\<lambda>n1 ans. pairs_of k n1 (sort nums2) ans) ns a = Inr (a + (\<Sum>n1 \<leftarrow> ns. good_count k nums2 n1))"
    if "set ns \<subseteq> set nums1" for ns a
    using that assms
    by (induction ns arbitrary: a) (auto simp: pairs_of_sorted good_count_sort)
  then have "numberOfPairs nums1 nums2 k = Inr (\<Sum>n1 \<leftarrow> sort nums1. good_count k nums2 n1)"
    by (simp add: numberOfPairs_def)
  moreover have "(\<Sum>n1 \<leftarrow> sort nums1. good_count k nums2 n1) = (\<Sum>n1 \<leftarrow> nums1. good_count k nums2 n1)"
    by (metis mset_map mset_sort sum_mset_sum_list)
  ultimately show ?thesis by simp
qed

lemma pairs_step_memo:
  assumes "0 < k" "0 < n1" "\<forall>n \<in> set nums2. 0 < n" "\<forall>x v. m x = Some v \<longrightarrow> v = good_count k nums2 x"
  shows "\<exists>m'. pairs_step k (sort nums2) n1 (m, a) = Inr (m', a + good_count k nums2 n1) \<and>
    (\<forall>x v. m' x = Some v \<longrightarrow> v = good_count k nums2 x)"
  using assms by (auto simp: pairs_step_def pairs_of_sorted good_count_sort split: option.splits)

lemma numberOfPairs2_eq:
  assumes "0 < k" "\<forall>n \<in> set nums1. 0 < n" "\<forall>n \<in> set nums2. 0 < n"
  shows "numberOfPairs2 nums1 nums2 k = numberOfPairs nums1 nums2 k"
proof -
  have "\<exists>m'. for_each (pairs_step k (sort nums2)) ns (m, a) = Inr (m', a + (\<Sum>n1 \<leftarrow> ns. good_count k nums2 n1))"
    if "set ns \<subseteq> set nums1" "\<forall>x v. m x = Some v \<longrightarrow> v = good_count k nums2 x" for ns m a
    using that
  proof (induction ns arbitrary: m a)
    case (Cons n ns)
    then obtain m1 where "pairs_step k (sort nums2) n (m, a) = Inr (m1, a + good_count k nums2 n)"
        "\<forall>x v. m1 x = Some v \<longrightarrow> v = good_count k nums2 x"
      using pairs_step_memo [OF assms(1) _ assms(3) Cons.prems(2), of n a] assms(2) by auto
    with Cons.IH [of m1 "a + good_count k nums2 n"] Cons.prems(1) show ?case by (auto simp: algebra_simps)
  qed simp
  from this [of nums1 Map.empty 0] show ?thesis
    by (auto simp: numberOfPairs2_def numberOfPairs_correct [OF assms])
qed

section \<open>Tickets: the table changes nothing\<close>

text \<open>The recursion without the table.\<close>

function cost :: "int \<Rightarrow> int \<Rightarrow> int \<Rightarrow> nat list \<Rightarrow> nat \<Rightarrow> int" where
  "cost c1 c7 c30 days i =
     (if i > 365 then 0
      else if i \<in> set days then
        min (cost c1 c7 c30 days (i + 1) + c1)
          (min (cost c1 c7 c30 days (i + 7) + c7) (cost c1 c7 c30 days (i + 30) + c30))
      else cost c1 c7 c30 days (i + 1))"
  by pat_completeness auto

termination
  by (relation "measure (\<lambda>(_, _, _, _, i). 366 - i)") auto

declare cost.simps [simp del]

definition table_ok :: "int \<Rightarrow> int \<Rightarrow> int \<Rightarrow> nat list \<Rightarrow> int list \<Rightarrow> bool" where
  "table_ok c1 c7 c30 days payment \<longleftrightarrow>
     length payment = 366 \<and> (\<forall>i < 366. payment ! i \<noteq> 0 \<longrightarrow> payment ! i = cost c1 c7 c30 days i)"

lemma table_ok_update:
  "table_ok c1 c7 c30 days p \<Longrightarrow> table_ok c1 c7 c30 days (p[i := cost c1 c7 c30 days i])"
  unfolding table_ok_def by (auto simp: nth_list_update) (metis nth_list_update_eq nth_list_update_neq)

lemma pay_cost:
  "table_ok c1 c7 c30 days p \<Longrightarrow>
    \<exists>p'. pay [c1, c7, c30] days i p = Inr (cost c1 c7 c30 days i, p') \<and> table_ok c1 c7 c30 days p'"
proof (induction "366 - i" arbitrary: i p rule: less_induct)
  case less
  let ?c = "cost c1 c7 c30 days"
  show ?case
  proof (cases "i > 365")
    case True
    then show ?thesis using less.prems by (simp add: pay.simps cost.simps)
  next
    case False
    have IH: "\<exists>p'. pay [c1, c7, c30] days (i + Suc d) p = Inr (?c (i + Suc d), p') \<and> table_ok c1 c7 c30 days p'"
      if "table_ok c1 c7 c30 days p" for d p
      by (rule less.hyps [OF _ that]) (use False in linarith)
    have g: "get_at p i = Inr (p ! i)" using False less.prems by (simp add: get_at_def table_ok_def)
    have costs: "get_at [c1, c7, c30] 0 = Inr c1" "get_at [c1, c7, c30] 1 = Inr c7" "get_at [c1, c7, c30] 2 = Inr c30"
      by (simp_all add: get_at_def)
    consider "p ! i \<noteq> 0" | "p ! i = 0" "i \<in> set days" | "p ! i = 0" "i \<notin> set days" by blast
    then show ?thesis
    proof cases
      case 1
      then have "p ! i = ?c i" using less.prems False by (simp add: table_ok_def)
      with 1 g less.prems False show ?thesis by (subst pay.simps) simp
    next
      case 2
      obtain p1 where p1: "pay [c1, c7, c30] days (i + 1) p = Inr (?c (i + 1), p1)" "table_ok c1 c7 c30 days p1"
        using IH [OF less.prems, of 0] by auto
      obtain p7 where p7: "pay [c1, c7, c30] days (i + 7) p1 = Inr (?c (i + 7), p7)" "table_ok c1 c7 c30 days p7"
        using IH [OF p1(2), of 6] by auto
      obtain p30 where p30: "pay [c1, c7, c30] days (i + 30) p7 = Inr (?c (i + 30), p30)" "table_ok c1 c7 c30 days p30"
        using IH [OF p7(2), of 29] by auto
      have v: "?c i = min (?c (i + 1) + c1) (min (?c (i + 7) + c7) (?c (i + 30) + c30))"
        using False 2 by (subst cost.simps) simp
      have "pay [c1, c7, c30] days i p = Inr (?c i, p30[i := ?c i])"
        using False 2 unfolding v
        by (subst pay.simps) (simp only: g p1(1) p7(1) p30(1) costs result_bind.simps fst_conv snd_conv Let_def simp_thms if_True if_False)
      then show ?thesis using table_ok_update [OF p30(2)] by blast
    next
      case 3
      obtain p1 where p1: "pay [c1, c7, c30] days (i + 1) p = Inr (?c (i + 1), p1)" "table_ok c1 c7 c30 days p1"
        using IH [OF less.prems, of 0] by auto
      have v: "?c i = ?c (i + 1)" using False 3 by (subst cost.simps) simp
      have "pay [c1, c7, c30] days i p = Inr (?c i, p1[i := ?c i])"
        using False 3 unfolding v
        by (subst pay.simps) (simp only: g p1(1) result_bind.simps fst_conv snd_conv simp_thms if_True if_False)
      then show ?thesis using table_ok_update [OF p1(2)] by blast
    qed
  qed
qed

lemma mincostTickets_cost: "mincostTickets days [c1, c7, c30] = Inr (cost c1 c7 c30 days 1)"
proof -
  have "table_ok c1 c7 c30 days (replicate 366 0)" unfolding table_ok_def by (simp only: length_replicate nth_replicate) simp
  then show ?thesis using pay_cost [of c1 c7 c30 days "replicate 366 0" 1] by (auto simp: mincostTickets_def)
qed

end
