(* ===== verification/LazyInit.thy ===== *)
theory LazyInit
  imports Prelude
begin

text \<open>
  The lazily created instance of \<open>go-concurrent/pattern/singleton.go\<close>: \<open>GetInstance\<close> with double-checked locking,
  run by any number of goroutines. Each access to the variable \<open>instance\<close>, taking the mutex and releasing it
  is a step of its own, and the steps of the goroutines interleave. An instance is an address of the heap
  of \<open>Singleton\<close> values. The model is sequentially consistent; Go promises that only for programs without data
  races, and the unlocked first read of \<open>instance\<close> races with the write.
\<close>

text \<open>Where a goroutine is: before the first check, waiting for the mutex, holding it, returning with or
  without it, or back with a pointer.\<close>

datatype pc = Check | Lock | Recheck | ReturnLocked | Unlock "nat option" | ReturnFast | Done "nat option"

record lazy =
  instance_ptr :: "nat option"
  holder :: "nat option"
  money :: "int list"
  pcs :: "nat \<Rightarrow> pc"

definition lazy_init :: lazy where
  "lazy_init = \<lparr>instance_ptr = None, holder = None, money = [], pcs = (\<lambda>_. Check)\<rparr>"

definition goto :: "nat \<Rightarrow> pc \<Rightarrow> lazy \<Rightarrow> lazy" where
  "goto g p s = s\<lparr>pcs := (pcs s)(g := p)\<rparr>"

text \<open>One step of a goroutine in \<open>GetInstance\<close>; \<^term>\<open>None\<close> when it has to wait or has returned.\<close>

definition GetInstance_step :: "nat \<Rightarrow> lazy \<Rightarrow> lazy option" where
  "GetInstance_step g s =
     (case pcs s g of
        Check \<Rightarrow> Some (goto g (if instance_ptr s = None then Lock else ReturnFast) s)
      | Lock \<Rightarrow> if holder s = None then Some (goto g Recheck (s\<lparr>holder := Some g\<rparr>)) else None
      | Recheck \<Rightarrow>
          Some (goto g ReturnLocked
            (if instance_ptr s = None
             then s\<lparr>instance_ptr := Some (length (money s)), money := money s @ [10000]\<rparr>
             else s))
      | ReturnLocked \<Rightarrow> Some (goto g (Unlock (instance_ptr s)) s)
      | Unlock p \<Rightarrow> Some (goto g (Done p) (s\<lparr>holder := None\<rparr>))
      | ReturnFast \<Rightarrow> Some (goto g (Done (instance_ptr s)) s)
      | Done p \<Rightarrow> None)"

text \<open>\<open>GetMoney\<close> on the instance a goroutine has.\<close>

definition GetMoney :: "nat option \<Rightarrow> lazy \<Rightarrow> (int \<times> lazy) result" where
  "GetMoney p s =
     result_bind (deref p) (\<lambda>a.
     result_bind (get_at (money s) a) (\<lambda>m. Inr (m + 1, s\<lparr>money := (money s)[a := m + 1]\<rparr>)))"

inductive lazy_reach :: "lazy \<Rightarrow> bool" where
  lazy_start: "lazy_reach lazy_init"
| lazy_step: "lazy_reach s \<Longrightarrow> GetInstance_step g s = Some s' \<Longrightarrow> lazy_reach s'"
| lazy_money: "lazy_reach s \<Longrightarrow> pcs s g = Done p \<Longrightarrow> GetMoney p s = Inr (m, s') \<Longrightarrow> lazy_reach s'"

text \<open>A goroutine holds the mutex exactly between taking and releasing it.\<close>

fun inside :: "pc \<Rightarrow> bool" where
  "inside Recheck \<longleftrightarrow> True"
| "inside ReturnLocked \<longleftrightarrow> True"
| "inside (Unlock _) \<longleftrightarrow> True"
| "inside _ \<longleftrightarrow> False"

text \<open>What holds of a goroutine, when the only instance there can be is at address 0.\<close>

fun pc_ok :: "nat option \<Rightarrow> pc \<Rightarrow> bool" where
  "pc_ok i ReturnLocked \<longleftrightarrow> i = Some 0"
| "pc_ok i ReturnFast \<longleftrightarrow> i = Some 0"
| "pc_ok i (Unlock p) \<longleftrightarrow> i = Some 0 \<and> p = Some 0"
| "pc_ok i (Done p) \<longleftrightarrow> i = Some 0 \<and> p = Some 0"
| "pc_ok i _ \<longleftrightarrow> True"

definition lazy_inv :: "lazy \<Rightarrow> bool" where
  "lazy_inv s \<longleftrightarrow>
     (\<forall>g. inside (pcs s g) \<longleftrightarrow> holder s = Some g) \<and> (\<forall>g. pc_ok (instance_ptr s) (pcs s g)) \<and>
     (case instance_ptr s of None \<Rightarrow> money s = [] | Some a \<Rightarrow> a = 0 \<and> length (money s) = 1)"

lemma pc_ok_None: "pc_ok None p \<Longrightarrow> pc_ok (Some 0) p"
  by (cases p) auto

lemma lazy_inv_step:
  assumes inv: "lazy_inv s" and step: "GetInstance_step g s = Some s'"
  shows "lazy_inv s'"
proof -
  have i: "inside (pcs s h) \<longleftrightarrow> holder s = Some h" "pc_ok (instance_ptr s) (pcs s h)" for h
    using inv by (auto simp: lazy_inv_def)
  show ?thesis
  proof (cases "pcs s g")
    case Recheck
    then have "holder s = Some g" using i(1) [of g] by simp
    with Recheck step inv show ?thesis
      by (auto simp: GetInstance_step_def goto_def lazy_inv_def pc_ok_None split: option.splits if_splits)
  qed (use step inv i [of g] in \<open>auto simp: GetInstance_step_def goto_def lazy_inv_def split: option.splits if_splits\<close>)
qed

lemma lazy_inv_reach: "lazy_reach s \<Longrightarrow> lazy_inv s"
proof (induction rule: lazy_reach.induct)
  case lazy_start
  show ?case by (simp add: lazy_inv_def lazy_init_def)
next
  case (lazy_step s g s')
  then show ?case by (blast intro: lazy_inv_step)
next
  case (lazy_money s g p m s')
  then show ?case by (auto simp: lazy_inv_def GetMoney_def split: option.splits)
qed

text \<open>Every caller gets the same instance, and no second one is ever made.\<close>

lemma GetInstance_unique:
  assumes "lazy_reach s" "pcs s g = Done p" "pcs s h = Done q"
  shows "p = q \<and> p \<noteq> None \<and> length (money s) = 1"
proof -
  have "pc_ok (instance_ptr s) (Done p)" "pc_ok (instance_ptr s) (Done q)"
    using lazy_inv_reach [OF assms(1)] assms(2,3) unfolding lazy_inv_def by metis+
  with lazy_inv_reach [OF assms(1)] show ?thesis by (auto simp: lazy_inv_def)
qed

text \<open>As long as some goroutine has not returned, one can go on.\<close>

lemma GetInstance_no_deadlock:
  assumes "lazy_reach s" "\<forall>p. pcs s g \<noteq> Done p"
  shows "\<exists>h s'. GetInstance_step h s = Some s'"
proof (cases "holder s")
  case None
  then show ?thesis
    by (intro exI [of _ g]) (use assms(2) in \<open>cases "pcs s g"; simp add: GetInstance_step_def\<close>)
next
  case (Some h)
  then have "inside (pcs s h)" using lazy_inv_reach [OF assms(1)] by (simp add: lazy_inv_def)
  then show ?thesis
    by (intro exI [of _ h]) (cases "pcs s h"; simp add: GetInstance_step_def)
qed

end
