(* ===== verification/SocketDemos.thy ===== *)
theory SocketDemos
  imports Prelude
begin

text \<open>
  Two servers of \<open>cpp-socket\<close>: the chat server \<open>ch18/go/goroutine_server\<close>, which keeps its clients in an array
  of three places, and the file server \<open>ch07/go/server\<close>, which sends a file through a buffered reader. What
  clients send and how the operating system answers are arguments.
\<close>

section \<open>The chat server\<close>

definition CLIENT_CAP :: nat where
  "CLIENT_CAP = 3"

text \<open>A client is the address of its connection; \<open>written\<close> is what each connection was sent. The mutex is held
  during each of the operations below, so they are steps.\<close>

record chat =
  connArr :: "nat option list"
  connArrLen :: nat
  written :: "nat \<Rightarrow> bytes"

definition chat_init :: chat where
  "chat_init = \<lparr>connArr = replicate CLIENT_CAP None, connArrLen = 0, written = (\<lambda>_. [])\<rparr>"

text \<open>\<open>main\<close>: a connection that was accepted goes into the next place.\<close>

definition chat_accept :: "nat \<Rightarrow> chat \<Rightarrow> chat result" where
  "chat_accept conn s =
     result_bind (set_at (connArr s) (connArrLen s) (Some conn)) (\<lambda>arr.
       Inr (s\<lparr>connArr := arr, connArrLen := connArrLen s + 1\<rparr>))"

text \<open>\<open>clientHandler\<close>: a client that is gone is taken out; the clients after it move down one place.\<close>

function shift_down :: "nat \<Rightarrow> nat \<Rightarrow> nat option list \<Rightarrow> nat option list result" where
  "shift_down i n arr =
     (if i < n - 1 then
        result_bind (get_at arr (i + 1)) (\<lambda>c.
        result_bind (set_at arr i c) (\<lambda>arr. shift_down (i + 1) n arr))
      else Inr arr)"
  by pat_completeness auto

termination
  by (relation "measure (\<lambda>(i, n, arr). n - i)") auto

declare shift_down.simps [simp del]

function find_client :: "nat \<Rightarrow> nat \<Rightarrow> chat \<Rightarrow> chat result" where
  "find_client conn i s =
     (if i < connArrLen s then
        result_bind (get_at (connArr s) i) (\<lambda>c.
          if c \<noteq> Some conn then find_client conn (i + 1) s
          else
            result_bind (shift_down i (connArrLen s) (connArr s)) (\<lambda>arr.
              Inr (s\<lparr>connArr := arr, connArrLen := connArrLen s - 1\<rparr>)))
      else Inr s)"
  by pat_completeness auto

termination
  by (relation "measure (\<lambda>(conn, i, s). connArrLen s - i)") auto

declare find_client.simps [simp del]

definition chat_drop :: "nat \<Rightarrow> chat \<Rightarrow> chat result" where
  "chat_drop conn s = find_client conn 0 s"

text \<open>A message goes to every client, the sender included.\<close>

definition chat_broadcast :: "bytes \<Rightarrow> chat \<Rightarrow> chat result" where
  "chat_broadcast buf s =
     for_each (\<lambda>i s.
         result_bind (get_at (connArr s) i) (\<lambda>p.
         result_bind (deref p) (\<lambda>c. Inr (s\<lparr>written := (written s)(c := written s c @ buf)\<rparr>))))
       [0..<connArrLen s] s"

section \<open>The file server\<close>

text \<open>
  \<open>bufio.Reader.Read\<close> into a slice of \<open>n\<close> bytes, less than the 4096 of the reader: an empty buffer is filled with
  one read of the file, and the result is what the buffer has, at most \<open>n\<close> bytes.
\<close>

record bufio =
  buffered :: bytes
  unread :: bytes

definition bufio_Read :: "nat \<Rightarrow> bufio \<Rightarrow> bytes \<times> bufio" where
  "bufio_Read n r =
     (let r = (if buffered r = [] then r\<lparr>buffered := take 4096 (unread r), unread := drop 4096 (unread r)\<rparr> else r)
      in (take n (buffered r), r\<lparr>buffered := drop n (buffered r)\<rparr>))"

definition BUF_SIZE :: nat where
  "BUF_SIZE = 30"

lemma bufio_Read_shorter:
  assumes "(send, r') = bufio_Read BUF_SIZE r" "\<not> length send < BUF_SIZE"
  shows "length (buffered r') + length (unread r') < length (buffered r) + length (unread r)"
  using assms by (auto simp: bufio_Read_def BUF_SIZE_def Let_def split: if_splits)

function send_file :: "bufio \<Rightarrow> bytes \<Rightarrow> bytes" where
  "send_file r conn =
     (case bufio_Read BUF_SIZE r of
        (send, r) \<Rightarrow> if length send < BUF_SIZE then conn @ send else send_file r (conn @ send))"
  by pat_completeness auto

termination
  by (relation "measure (\<lambda>(r, _). length (buffered r) + length (unread r))") (auto intro: bufio_Read_shorter)

declare send_file.simps [simp del]

definition file_server :: "bytes \<Rightarrow> bytes" where
  "file_server readme = send_file \<lparr>buffered = [], unread = readme\<rparr> []"

section \<open>Clients of the chat server\<close>

text \<open>The clients in the order of the array.\<close>

definition clients :: "nat list \<Rightarrow> chat \<Rightarrow> bool" where
  "clients cs s \<longleftrightarrow>
     length (connArr s) = CLIENT_CAP \<and> connArrLen s = length cs \<and> length cs \<le> CLIENT_CAP \<and>
     take (length cs) (connArr s) = map Some cs"

lemma chat_init_clients: "clients [] chat_init"
  by (simp add: clients_def chat_init_def)

lemma clients_nth: "clients cs s \<Longrightarrow> i < length cs \<Longrightarrow> connArr s ! i = Some (cs ! i)"
  unfolding clients_def by (metis length_map nth_map nth_take)

lemma chat_accept_adds:
  assumes "clients cs s" "length cs < CLIENT_CAP"
  shows "\<exists>s'. chat_accept conn s = Inr s' \<and> clients (cs @ [conn]) s' \<and> written s' = written s"
  using assms by (auto simp: chat_accept_def set_at_def clients_def take_Suc_conv_app_nth)

text \<open>The fourth client stops the server.\<close>

lemma chat_accept_full_panics: "clients cs s \<Longrightarrow> length cs = CLIENT_CAP \<Longrightarrow> chat_accept conn s = Inl Panic"
  by (simp add: chat_accept_def set_at_def clients_def)

lemma chat_broadcast_reaches_all:
  assumes "clients cs s" "distinct cs"
  shows "\<exists>s'. chat_broadcast buf s = Inr s' \<and> clients cs s' \<and>
    written s' = (\<lambda>c. if c \<in> set cs then written s c @ buf else written s c)"
proof -
  define P where "P k s' \<longleftrightarrow> connArr s' = connArr s \<and> connArrLen s' = connArrLen s \<and>
    written s' = (\<lambda>c. if c \<in> set (take k cs) then written s c @ buf else written s c)" for k and s' :: chat
  have len: "connArrLen s = length cs" using assms(1) by (simp add: clients_def)
  have "\<exists>s'. chat_broadcast buf s = Inr s' \<and> P (connArrLen s) s'"
    unfolding chat_broadcast_def
  proof (rule for_each_upt_total)
    show "P 0 s" by (simp add: P_def)
  next
    fix k s'
    assume k: "k < connArrLen s" and P: "P k s'"
    have kl: "k < length cs" using k assms(1) by (simp add: clients_def)
    then have c: "connArr s' ! k = Some (cs ! k)" "k < length (connArr s')"
      using clients_nth [OF assms(1) kl] P assms(1) by (auto simp: P_def clients_def)
    have "cs ! k \<notin> set (take k cs)" using assms(2) kl by (auto simp: in_set_conv_nth nth_eq_iff_index_eq)
    then show "\<exists>s''. result_bind (get_at (connArr s') k) (\<lambda>p.
         result_bind (deref p) (\<lambda>c. Inr (s'\<lparr>written := (written s')(c := written s' c @ buf)\<rparr>))) = Inr s'' \<and> P (Suc k) s''"
      using c P kl by (auto simp: P_def take_Suc_conv_app_nth fun_eq_iff get_at_def)
  qed
  then show ?thesis unfolding len using assms(1) by (auto simp: P_def clients_def)
qed

text \<open>Taking a client out keeps the others in their order.\<close>

lemma shift_down_nth:
  assumes "i < n" "n \<le> length arr"
  shows "\<exists>arr'. shift_down i n arr = Inr arr' \<and> length arr' = length arr \<and>
    (\<forall>k < n - 1. arr' ! k = (if k < i then arr ! k else arr ! (k + 1)))"
  using assms
proof (induction "n - i" arbitrary: i arr rule: less_induct)
  case less
  show ?case
  proof (cases "i < n - 1")
    case True
    let ?arr = "arr[i := arr ! (i + 1)]"
    obtain arr' where a: "shift_down (i + 1) n ?arr = Inr arr'" "length arr' = length arr"
        "\<forall>k < n - 1. arr' ! k = (if k < i + 1 then ?arr ! k else ?arr ! (k + 1))"
      using less.hyps [of "i + 1" ?arr, OF diff_less_mono2] less.prems less_diff_conv [THEN iffD1, OF True] by auto
    have "shift_down i n arr = Inr arr'"
      using True less.prems a(1) by (subst shift_down.simps) (simp add: get_at_def set_at_def)
    moreover have "arr' ! k = (if k < i then arr ! k else arr ! (k + 1))" if "k < n - 1" for k
      using a(3) that True less.prems by (auto simp: nth_list_update less_Suc_eq)
    ultimately show ?thesis using a(2) by blast
  next
    case False
    with less.prems show ?thesis by (subst shift_down.simps) auto
  qed
qed

lemma remove_nth_take:
  assumes "i < length cs" "cs ! i = c" "c \<notin> set (take i cs)"
  shows "remove1 c cs = take i cs @ drop (i + 1) cs"
proof -
  have "cs = take i cs @ c # drop (i + 1) cs" using assms id_take_nth_drop [of i cs] by simp
  then show ?thesis using assms(3) by (metis remove1.simps(2) remove1_append)
qed

lemma find_client_removes:
  assumes "clients cs s" "i \<le> length cs" "conn \<notin> set (take i cs)"
  shows "\<exists>s'. find_client conn i s = Inr s' \<and> clients (remove1 conn cs) s' \<and> written s' = written s"
  using assms(2,3)
proof (induction "length cs - i" arbitrary: i rule: less_induct)
  case less
  have cl: "length (connArr s) = CLIENT_CAP" "connArrLen s = length cs" "length cs \<le> CLIENT_CAP"
    using assms(1) by (simp_all add: clients_def)
  show ?case
  proof (cases "i < length cs")
    case False
    then have "conn \<notin> set cs" using less.prems by simp
    with False cl assms(1) show ?thesis by (subst find_client.simps) (simp add: remove1_idem)
  next
    case True
    then have g: "get_at (connArr s) i = Inr (Some (cs ! i))" using cl clients_nth [OF assms(1) True] by (simp add: get_at_def)
    show ?thesis
    proof (cases "cs ! i = conn")
      case False
      then have "conn \<notin> set (take (i + 1) cs)" using less.prems True by (simp add: take_Suc_conv_app_nth)
      then obtain s' where "find_client conn (i + 1) s = Inr s'" "clients (remove1 conn cs) s'" "written s' = written s"
        using less.hyps [of "i + 1", OF diff_less_mono2] True by auto
      moreover have "connArr s ! i \<noteq> Some conn" using clients_nth [OF assms(1) True] False by simp
      ultimately show ?thesis using True g cl by (subst find_client.simps) simp
    next
      case here: True
      obtain arr where a: "shift_down i (length cs) (connArr s) = Inr arr" "length arr = CLIENT_CAP"
          "\<forall>k < length cs - 1. arr ! k = (if k < i then connArr s ! k else connArr s ! (k + 1))"
        using shift_down_nth [of i "length cs" "connArr s"] True cl by auto
      define s' where "s' = s\<lparr>connArr := arr, connArrLen := length cs - 1\<rparr>"
      have rm: "remove1 conn cs = take i cs @ drop (i + 1) cs" by (rule remove_nth_take [OF True here less.prems(2)])
      have "find_client conn i s = Inr s'"
        using True here g a(1) cl by (subst find_client.simps) (simp add: s'_def)
      moreover have "take (length cs - 1) arr = map Some (take i cs @ drop (i + 1) cs)"
      proof (rule nth_equalityI)
        show "length (take (length cs - 1) arr) = length (map Some (take i cs @ drop (i + 1) cs))"
          using True a(2) cl by simp
        fix k
        assume "k < length (take (length cs - 1) arr)"
        then have k: "k < length cs - 1" by simp
        then show "take (length cs - 1) arr ! k = map Some (take i cs @ drop (i + 1) cs) ! k"
          using a(3) True clients_nth [OF assms(1), of k] clients_nth [OF assms(1), of "k + 1"]
          by (simp add: nth_append)
      qed
      then have "clients (remove1 conn cs) s'"
        using True a(2) cl by (simp add: clients_def s'_def rm)
      ultimately show ?thesis by (auto simp: s'_def)
    qed
  qed
qed

lemma chat_drop_removes:
  "clients cs s \<Longrightarrow> \<exists>s'. chat_drop conn s = Inr s' \<and> clients (remove1 conn cs) s' \<and> written s' = written s"
  unfolding chat_drop_def by (rule find_client_removes) simp_all

section \<open>The file server sends one buffer\<close>

text \<open>A buffer that is not a multiple of the slice ends with a short read, which ends the loop.\<close>

lemma send_file_short:
  assumes "length b = 30 * k + r" "0 < r" "r < 30"
  shows "send_file \<lparr>buffered = b, unread = u\<rparr> conn = conn @ b"
  using assms(1)
proof (induction k arbitrary: b conn)
  case 0
  with assms show ?case by (subst send_file.simps) (auto simp: bufio_Read_def BUF_SIZE_def)
next
  case (Suc k)
  then have "send_file \<lparr>buffered = drop 30 b, unread = u\<rparr> (conn @ take 30 b) = (conn @ take 30 b) @ drop 30 b"
    by (intro Suc.IH) simp
  moreover have "b \<noteq> []" "30 \<le> length b" using Suc.prems by auto
  ultimately show ?case by (subst send_file.simps) (simp add: bufio_Read_def BUF_SIZE_def)
qed

lemma send_file_whole:
  assumes "length b = 30 * k"
  shows "send_file \<lparr>buffered = b, unread = []\<rparr> conn = conn @ b"
  using assms
proof (induction k arbitrary: b conn)
  case 0
  then show ?case by (subst send_file.simps) (simp add: bufio_Read_def BUF_SIZE_def)
next
  case (Suc k)
  then have "send_file \<lparr>buffered = drop 30 b, unread = []\<rparr> (conn @ take 30 b) = (conn @ take 30 b) @ drop 30 b"
    by (intro Suc.IH) simp
  moreover have "b \<noteq> []" "30 \<le> length b" using Suc.prems by auto
  ultimately show ?case by (subst send_file.simps) (simp add: bufio_Read_def BUF_SIZE_def)
qed

lemma send_file_fill:
  "send_file \<lparr>buffered = [], unread = u\<rparr> conn = send_file \<lparr>buffered = take 4096 u, unread = drop 4096 u\<rparr> conn"
  by (subst (1 2) send_file.simps) (cases "u = []"; simp add: bufio_Read_def)

lemma file_server_sends_first_buffer: "file_server readme = take 4096 readme"
proof -
  define b where "b = take 4096 readme"
  have len: "length b = 30 * (length b div 30) + length b mod 30" by simp
  have "send_file \<lparr>buffered = b, unread = drop 4096 readme\<rparr> [] = b"
  proof (cases "length b mod 30 = 0")
    case False
    then show ?thesis using send_file_short [OF len] by simp
  next
    case True
    then have "length b \<noteq> 4096" by auto
    then have "drop 4096 readme = []" by (simp add: b_def)
    with True len send_file_whole [of b "length b div 30" "[]"] show ?thesis by simp
  qed
  then show ?thesis by (simp add: file_server_def send_file_fill [of readme] b_def)
qed

end
