(* ===== verification/Spec2Isabelle.thy ===== *)
theory Spec2Isabelle
  imports KvModel Visualization RaftStart ShardKv GnetCorrect Labgob MrApps GoProjCorrect Leetcode LazyInit SocketDemos
begin

text \<open>
  A verification of the Go programs of this repository: the labs of MIT 6.5840 (\<open>src/6.5840\<close>) with the
  linearizability checker they are tested with, the TCP server \<open>src/go-server\<close>, the web service \<open>src/go-proj\<close>, and
  the smaller programs of \<open>src/go-leetcode\<close>, \<open>src/go-concurrent\<close> and \<open>src/cpp-socket\<close>.

  \<^bold>\<open>How the programs are modelled.\<close> A struct is a record, its fields with a prefix where names would clash; a
  method is a function of the same name on the record, a package function a definition. Fixed-width integers whose
  width matters are words (\<open>uint8\<close>, \<open>uint32\<close>, \<open>uint64\<close>); Go's \<open>int\<close> is \<open>int\<close> or \<open>nat\<close> where it counts things
  that fit in memory. Pointers are addresses of explicit heaps where the code compares them or shares what they
  point to. A run-time panic is \<^term>\<open>None\<close>, or \<open>Inl Panic\<close> in the type \<open>'a result\<close> where \<open>log.Fatal\<close> and
  \<open>os.Exit\<close> (\<open>Inl Fatal\<close>) have to be told from it. A loop that ends is a recursive function with a termination
  proof; one that may not end is a \<open>partial_function\<close>, and that it returns is then a theorem. No fuel is used
  anywhere. Goroutines are step functions, and theorems about them are about every interleaving. What a program
  does not determine is a parameter: the iteration order of maps, random bytes, the clock, the scheduler, the
  answers of remote calls. So are packages that are not part of the repository (gob, gorm, redis, jwt, bcrypt,
  gin, viper); what is assumed of them is a named predicate or locale, and every theorem that uses one has a
  witness with a concrete instance.

  \<^bold>\<open>Shared.\<close> \<open>Prelude\<close>: slices, words, results and loops, and the collections \<open>go_word\<close> and \<open>go_list\<close>. \<open>GoSort\<close>: what
  \<open>sort.Sort\<close> promises, the locale \<open>sorting\<close>. \<open>Strconv\<close>: decimal numbers. \<open>Utf8\<close>: runes and \<open>strings.FieldsFunc\<close>.

  \<^bold>\<open>The checker\<close> (\<open>6.5840/src/porcupine\<close>, \<open>models\<close>). \<open>PorcModel\<close>: \<open>model.go\<close>. \<open>Bitset\<close>: \<open>bitset.go\<close>, shown to be a
  set of positions (locale \<open>position_set\<close>). \<open>History\<close>: \<open>makeEntries\<close>, \<open>renumber\<close>, \<open>convertEntries\<close>, and what
  linearizability is. \<open>EntryList\<close>: the linked list with \<open>lift\<close> and \<open>unlift\<close>. \<open>CheckSingle\<close>: the search.
  \<open>SearchSpec\<close> is the same search without its data structures, shown to end and to miss no linearization;
  \<open>CheckSingleCorrect\<close> shows by a simulation that the code implements it. \<open>HistoryCorrect\<close>: building entries keeps
  linearizability. \<open>CheckParallel\<close>, \<open>Porcupine\<close>: the goroutines of \<open>checkParallel\<close> and the entry points.
  \<open>KvModel\<close>: \<open>models/kv.go\<close>, and that checking key by key checks the whole store. \<open>Visualization\<close>: the data of
  \<open>visualization.go\<close>. The theorems that span these theories are in this one.

  \<^bold>\<open>The network\<close> (\<open>6.5840/src/labrpc\<close>, \<open>labgob\<close>). \<open>Labrpc\<close>: clients, servers, services and requests in flight; a
  handler runs at most once, calls are answered, counters count. \<open>Labgob\<close>: the walk over types that warns about
  lower-case fields, shown to end on recursive types and to warn exactly once for each field.

  \<^bold>\<open>The labs\<close> (\<open>raft\<close>, \<open>kvraft\<close>, \<open>shardctrler\<close>, \<open>shardkv\<close>). The protocols are left open in the source, so the models
  are of what there is: outlines of peers, servers and clerks, and the test harnesses. \<open>Raft\<close>, \<open>RaftConfig\<close>:
  \<open>raft.go\<close>, \<open>persister.go\<close>, \<open>config.go\<close>; \<open>RaftHarness\<close>, \<open>RaftStart\<close>: the harness checks what it means to check.
  \<open>KvCluster\<close>, \<open>KvHarness\<close>, \<open>ShardCtrler\<close>, \<open>ShardKv\<close>: clerks and harnesses; the harness of the key/value service is
  polymorphic in the server, through the locale \<open>cluster_server\<close>, interpreted for both kinds of servers. A remote
  call is an answer of the environment there; the harness runs on the network of \<open>Labrpc\<close>.

  \<^bold>\<open>MapReduce\<close> (\<open>mr\<close>, \<open>mrapps\<close>, \<open>main\<close>). \<open>MapReduce\<close>: the sequential program and the skeleton of the distributed one.
  \<open>MrApps\<close>: all applications; word count and index are shown correct for every sorting function.

  \<^bold>\<open>The TCP server\<close> (\<open>go-server\<close>). \<open>Gnet\<close>: messages, connections, routes, workers, manager and server. \<open>GnetCorrect\<close>:
  the reader inverts packing, answers keep their order, open connections are registered, stopping deadlocks.

  \<^bold>\<open>The web service\<close> (\<open>go-proj\<close>). \<open>GoProj\<close>: transfer objects, data access, service, handlers, token middleware and
  routes, layer by layer. \<open>GoProjCorrect\<close>: from inserting a user through login to an authorized request, who may
  change the database, and for how long a token lives.

  \<^bold>\<open>Small programs.\<close> \<open>Leetcode\<close>: exercises, each with a lemma on its result; the seat
  manager implements the interface \<open>seat_store\<close>. \<open>LazyInit\<close>: the singleton with
  double-checked locking, as interleaved steps. \<open>SocketDemos\<close>: the table of the chat server, and the loop of the file
  server.

  \<^bold>\<open>Not modelled.\<close> Writing the HTML page of \<open>visualization.go\<close> (a template of some 800 lines) and reading or writing
  files, sockets and signals: calls without logic. The bodies that the labs leave to the student (elections, log
  replication, the replicated services, distributed MapReduce): there is no code. The programs of \<open>main\<close> for services
  that are not in the repository (\<open>diskvd\<close>, \<open>lockd\<close>, \<open>pbd\<close>, \<open>viewd\<close> and their clients). The interfaces of \<open>go-server/ignet\<close>
  (declarations only) and \<open>gzlib\<close> (calls of zlib). Of the web service the binding of requests by gin, CORS and the
  logger, which are configuration of libraries. The exercise \<open>solution1870\<close>, which computes with floating-point
  numbers, and five more exercises of the kind of the modelled ones. The remaining socket examples and the kafka
  producer: sequences of library calls. The C++, Java and TypeScript programs of the repository, which are separate
  exercises in other languages. Effects of weak memory and of the overflow of counters of type \<open>int\<close> are outside
  the model.
\<close>

section \<open>Example histories\<close>

text \<open>A client that writes a key and reads it back while a second client reads another key.\<close>

definition ex_put :: "iface Operation" where
  "ex_put = \<lparr>op_ClientId = 0, op_Input = IInput \<lparr>in_Op = 1, in_Key = ''k'', in_Value = ''v''\<rparr>,
     op_Call = 0, op_Output = IOutput \<lparr>out_Value = ''''\<rparr>, op_Return = 5\<rparr>"

definition ex_get :: "iface Operation" where
  "ex_get = \<lparr>op_ClientId = 1, op_Input = IInput \<lparr>in_Op = 0, in_Key = ''k'', in_Value = ''''\<rparr>,
     op_Call = 6, op_Output = IOutput \<lparr>out_Value = ''v''\<rparr>, op_Return = 8\<rparr>"

definition ex_stale :: "iface Operation" where
  "ex_stale = \<lparr>op_ClientId = 1, op_Input = IInput \<lparr>in_Op = 0, in_Key = ''k'', in_Value = ''''\<rparr>,
     op_Call = 6, op_Output = IOutput \<lparr>out_Value = ''''\<rparr>, op_Return = 8\<rparr>"

definition ex_model :: "(iface, string) Model" where
  "ex_model = fillDefault (\<lambda>_. []) (\<lambda>s. s) KvModel"

definition ex_history :: "iface entry list" where
  "ex_history = makeEntries insertionSort [ex_put, ex_get]"

lemma ex_model_ok: "porcupine_model ex_model ShallowEqual"
  unfolding ex_model_def by (rule KvModel_porcupine)

lemma ex_ops_ok: "wf_operations [ex_put, ex_get]" "op_steps_total KvModel [ex_put, ex_get]"
  "wf_operations [ex_put, ex_stale]" "op_steps_total KvModel [ex_put, ex_stale]"
  by (simp_all add: wf_operations_def kv_steps_total kv_typed_def ex_put_def ex_get_def ex_stale_def)

lemma ex_history_ok: "wf_history ex_history" "steps_defined ex_model ex_history"
  unfolding ex_history_def
  by (simp_all add: eis.makeEntries_wf eis.steps_defined_makeEntries ex_ops_ok ex_model_def)

lemma ex_checkable:
  obtains l where "operation_histories insertionSort ex_model [ex_put, ex_get] = Some l" "checkable ex_model (\<lambda>xs. xs) l" "l \<noteq> []"
proof -
  have t: "op_steps_total ex_model [ex_put, ex_get]" unfolding ex_model_def by (simp add: ex_ops_ok)
  obtain l where l: "operation_histories insertionSort ex_model [ex_put, ex_get] = Some l" "checkable ex_model (\<lambda>xs. xs) l"
    using kv.histories [OF ex_ops_ok(1) t [unfolded ex_model_def]] unfolding ex_model_def by blast
  have "kv_typed [ex_put, ex_get]" using ex_ops_ok(2) by (simp add: kv_steps_total)
  from kv_Partition_spec [OF this] l(1) have "l \<noteq> []"
    by (auto simp: operation_histories_def ex_model_def KvModel_def)
  with l show thesis by (rule that)
qed

lemma ex_check_returns:
  obtains res info where "checkOperations (\<lambda>_. []) (\<lambda>s. s) insertionSort (\<lambda>xs. xs) KvModel [ex_put, ex_get] True 0 res info"
proof -
  obtain l where l: "operation_histories insertionSort ex_model [ex_put, ex_get] = Some l"
    "checkable ex_model (\<lambda>xs. xs) l" "l \<noteq> []" by (rule ex_checkable)
  from porcupine_model.has_result [OF ex_model_ok l(2,3), of True]
  obtain res info where "checkParallel ex_model (\<lambda>xs. xs) True 0 l res info" by blast
  with l(1) show thesis
    by (intro that) (auto simp: checkOperations_def ex_model_def)
qed

definition ex_events :: "iface Event list" where
  "ex_events =
     [\<lparr>ev_ClientId = 0, ev_Kind = CallEvent, ev_Value = op_Input ex_put, ev_Id = 70\<rparr>,
      \<lparr>ev_ClientId = 1, ev_Kind = CallEvent, ev_Value = op_Input ex_get, ev_Id = 4\<rparr>,
      \<lparr>ev_ClientId = 0, ev_Kind = ReturnEvent, ev_Value = op_Output ex_put, ev_Id = 70\<rparr>,
      \<lparr>ev_ClientId = 1, ev_Kind = ReturnEvent, ev_Value = op_Output ex_get, ev_Id = 4\<rparr>]"

lemma ex_events_ok: "wf_events ex_events" "ev_steps_total KvModel ex_events"
proof -
  have "\<exists>j k. j < k \<and> k < 4 \<and> ev_Id (ex_events ! j) = ev_Id v \<and> ev_Kind (ex_events ! j) = CallEvent \<and>
      ev_Id (ex_events ! k) = ev_Id v \<and> ev_Kind (ex_events ! k) = ReturnEvent" if "v \<in> set ex_events" for v
    using that by (intro exI [of _ "if ev_Id v = 70 then 0 else 1"] exI [of _ "if ev_Id v = 70 then 2 else 3"])
      (auto simp: ex_events_def)
  moreover have "length ex_events = 4" "distinct (map (\<lambda>v. (ev_Kind v, ev_Id v)) ex_events)"
    by (simp_all add: ex_events_def)
  ultimately show "wf_events ex_events"
    by (simp add: wf_events_def)
  show "ev_steps_total KvModel ex_events"
    by (auto simp: ev_steps_total_def ex_events_def KvModel_def kv_Step_def ex_put_def ex_get_def)
qed

section \<open>The linearizability checker\<close>

text \<open>C1. On a complete history, for a model whose \<open>Step\<close> does not panic on it and whose \<open>Equal\<close> only
  identifies states that accept the same operations, \<open>checkSingle\<close> that is not killed ends, does not
  panic, and answers exactly whether the history is linearizable.\<close>

theorem checkSingle_correct:
  assumes "porcupine_model m eq" "wf_history es" "steps_defined m es"
  shows "\<exists>lg. checkSingle m es computePartial (\<lambda>_. False) = Some (Some (linearizable m es, lg))"
proof -
  obtain ok lg where r: "checkSingle m es computePartial (\<lambda>_. False) = Some (Some (ok, lg))"
    and a: "answer_ok m es (\<lambda>_. False) ok lg"
    using porcupine_model.checkSingle_ok [OF assms] by blast
  from a have "ok \<longleftrightarrow> linearizable m es"
    by (auto simp: answer_ok_def linearizable_def split: if_splits)
  with r show ?thesis by blast
qed

theorem checkSingle_correct_witness:
  "\<exists>lg. checkSingle ex_model ex_history True (\<lambda>_. False) = Some (Some (linearizable ex_model ex_history, lg))"
  using checkSingle_correct [OF ex_model_ok ex_history_ok] by simp

text \<open>C2. However \<open>checkSingle\<close> is killed, it ends without a panic; it answers \<open>true\<close> only for a
  linearizable history and then reports a linearization for every operation; and every entry it reports is a
  partial linearization that contains the operation.\<close>

theorem checkSingle_killed:
  assumes "porcupine_model m eq" "wf_history es" "steps_defined m es"
  shows "\<exists>ok lg. checkSingle m es computePartial kill = Some (Some (ok, lg)) \<and> longest_ok m es lg \<and>
    (ok \<longrightarrow> (\<exists>r p. linearizes m es (history_ids es) (m_Init m) p \<and> lg = replicate (length es div 2) (Some (r, p))))"
proof -
  obtain ok lg where "checkSingle m es computePartial kill = Some (Some (ok, lg))" "answer_ok m es kill ok lg"
    using porcupine_model.checkSingle_ok [OF assms] by blast
  then show ?thesis by (auto simp: answer_ok_def)
qed

theorem checkSingle_killed_witness:
  "\<exists>ok lg. checkSingle ex_model ex_history True (\<lambda>t. t > 1) = Some (Some (ok, lg)) \<and> longest_ok ex_model ex_history lg"
  using checkSingle_killed [OF ex_model_ok ex_history_ok, of True "\<lambda>t. t > 1"] by blast

text \<open>C3. Whatever the schedule of its goroutines, the timeout and the order of map iteration, a result of
  \<open>checkOperations\<close> on the key/value model is right for the whole store: \<open>Ok\<close> only for a linearizable history,
  \<open>Illegal\<close> only for one that is not, and \<open>Unknown\<close> only with a timeout.\<close>

theorem kv_check_sound:
  assumes "entry_sorting srt" "\<And>xs. mset (perm xs) = mset xs" "wf_operations ops" "kv_typed ops"
    and "checkOperations fv fs srt perm KvModel ops verbose timeout res info"
  shows "(res = Ok \<longrightarrow> op_linearizable kvStore ops) \<and> (res = Illegal \<longrightarrow> \<not> op_linearizable kvStore ops) \<and>
    (res = Unknown \<longrightarrow> timeout > 0)"
proof -
  from assms(5) obtain l where l: "operation_histories srt (fillDefault fv fs KvModel) ops = Some l"
    "checkParallel (fillDefault fv fs KvModel) perm verbose timeout l res info"
    by (auto simp: checkOperations_def Let_def)
  have "op_steps_total (fillDefault fv fs KvModel) ops" using assms(4) by (simp add: kv_steps_total)
  from operation_checker.operations_sound [OF kv_checker [OF assms(1,2)] assms(3) this l]
  show ?thesis by blast
qed

theorem kv_check_sound_witness:
  "\<exists>res info. checkOperations (\<lambda>_. []) (\<lambda>s. s) insertionSort (\<lambda>xs. xs) KvModel [ex_put, ex_get] True 0 res info \<and>
     res \<noteq> Unknown \<and> (res = Ok \<longleftrightarrow> op_linearizable kvStore [ex_put, ex_get])"
proof -
  obtain res info where r: "checkOperations (\<lambda>_. []) (\<lambda>s. s) insertionSort (\<lambda>xs. xs) KvModel [ex_put, ex_get] True 0 res info"
    by (rule ex_check_returns)
  have "kv_typed [ex_put, ex_get]" using ex_ops_ok(2) by (simp add: kv_steps_total)
  from kv_check_sound [OF eis.entry_sorting_axioms _ ex_ops_ok(1) this r]
  have "(res = Ok \<longrightarrow> op_linearizable kvStore [ex_put, ex_get]) \<and> (res = Illegal \<longrightarrow> \<not> op_linearizable kvStore [ex_put, ex_get]) \<and>
    res \<noteq> Unknown" by simp
  with r show ?thesis by (cases res) blast+
qed

text \<open>C4. \<open>checkParallel\<close> on at least one complete history always returns: until then some goroutine, or the
  main one, has a step without waiting for the timer, and no schedule is infinite.\<close>

theorem checkParallel_returns:
  assumes "porcupine_model m eq" "checkable m perm history" "history \<noteq> []"
  shows "(\<forall>st. p_reachable m perm verbose timeout history st \<and> (\<forall>res info. p_phase st \<noteq> Finished res info) \<longrightarrow>
      (\<exists>st'. pstep m perm verbose 0 history st st')) \<and>
    (\<forall>run. run 0 = p_init history \<longrightarrow> \<not> (\<forall>i. pstep m perm verbose timeout history (run i) (run (Suc i))))"
  using porcupine_model.progress [OF assms(1,2) _ assms(3)] porcupine_model.terminates [OF assms(1,2)] by blast

theorem checkParallel_returns_witness:
  "\<exists>l. operation_histories insertionSort ex_model [ex_put, ex_get] = Some l \<and>
    (\<exists>st'. pstep ex_model (\<lambda>xs. xs) True 0 l (p_init l) st')"
proof -
  obtain l where l: "operation_histories insertionSort ex_model [ex_put, ex_get] = Some l"
    "checkable ex_model (\<lambda>xs. xs) l" "l \<noteq> []" by (rule ex_checkable)
  have "p_reachable ex_model (\<lambda>xs. xs) True 0 l (p_init l)" "\<And>res info. p_phase (p_init l) \<noteq> Finished res info"
    by (simp_all add: p_reachable_def p_init_def)
  with checkParallel_returns [OF ex_model_ok l(2,3), of True 0] l(1) show ?thesis by blast
qed

lemma empty_stuck: "\<not> pstep m perm verbose 0 [] (p_init []) st'"
  by (auto simp: p_init_def go_step_def select_result_def slice_get_def elim!: pstep.cases)

lemma empty_hangs: "\<not> checkParallel m perm verbose 0 [] res info"
proof
  assume "checkParallel m perm verbose 0 [] res info"
  then obtain st where st: "(pstep m perm verbose 0 [])\<^sup>*\<^sup>* (p_init []) st" "p_phase st = Finished res info"
    by (auto simp: checkParallel_def p_reachable_def)
  from st(1) have "st = p_init []"
    by (cases rule: converse_rtranclpE) (simp_all add: empty_stuck)
  with st(2) show False by (simp add: p_init_def)
qed

lemma KvModel_no_histories: "operation_histories srt (fillDefault fv fs KvModel) [] = Some []"
  using kv_Partition_spec [of "[]"] by (simp add: operation_histories_def kv_typed_def KvModel_def)

text \<open>C5. Without any history and without a timeout \<open>checkParallel\<close> never returns: it waits for a result that
  no goroutine will send. \<open>KvModel.Partition\<close> makes no history of an empty list of operations.\<close>

theorem checkParallel_empty_hangs:
  "\<not> pstep m perm verbose 0 [] (p_init []) st' \<and> \<not> checkParallel m perm verbose 0 [] res info \<and>
   \<not> CheckOperations fv fs srt order KvModel [] b"
  by (simp add: CheckOperations_def checkOperations_def KvModel_no_histories empty_stuck empty_hangs)

text \<open>C6. A result of \<open>checkEvents\<close> is right, for a model that does not partition.\<close>

theorem event_check_sound:
  assumes "porcupine_model (fillDefault fv fs model) eq" "\<And>xs. mset (perm xs) = mset xs"
    and "m_PartitionEvent model = None" "wf_events evs" "ev_steps_total model evs"
    and "checkEvents fv fs perm model evs verbose timeout res info"
  shows "(res = Ok \<longrightarrow> ev_linearizable model evs) \<and> (res = Illegal \<longrightarrow> \<not> ev_linearizable model evs) \<and>
    (res = Unknown \<longrightarrow> timeout > 0)"
proof -
  let ?m = "fillDefault fv fs model" and ?l = "[convertEntries (renumber evs)]"
  have r: "checkParallel ?m perm verbose timeout ?l res info"
    using assms(3,6) by (auto simp: checkEvents_def Let_def event_histories_def NoPartitionEvent_def)
  have "checkable ?m perm ?l"
    using assms(2,4,5) by (simp add: checkable_def well_posed_def convertEntries_wf steps_defined_convertEntries)
  from porcupine_model.checkParallel_sound [OF assms(1) this r]
  have "result_ok ?m ?l timeout res" ..
  then show ?thesis
    using convertEntries_linearizable [OF assms(4), of ?m] by (cases res) (simp_all add: result_ok_def)
qed

theorem event_check_sound_witness:
  "\<exists>res info. checkEvents (\<lambda>_. []) (\<lambda>s. s) (\<lambda>xs. xs) KvModel ex_events True 0 res info \<and>
    res \<noteq> Unknown \<and> (res = Ok \<longleftrightarrow> ev_linearizable KvModel ex_events)"
proof -
  let ?l = "[convertEntries (renumber ex_events)]"
  have "checkable ex_model (\<lambda>xs. xs) ?l"
    by (simp add: checkable_def well_posed_def convertEntries_wf steps_defined_convertEntries ex_events_ok ex_model_def)
  from porcupine_model.has_result [OF ex_model_ok this, of True]
  obtain res info where "checkParallel ex_model (\<lambda>xs. xs) True 0 ?l res info" by blast
  moreover have "m_PartitionEvent ex_model = Some NoPartitionEvent" "m_PartitionEvent KvModel = None"
    by (simp_all add: ex_model_def KvModel_def)
  ultimately have r: "checkEvents (\<lambda>_. []) (\<lambda>s. s) (\<lambda>xs. xs) KvModel ex_events True 0 res info"
    by (simp add: checkEvents_def event_histories_def NoPartitionEvent_def flip: ex_model_def)
  have "m_PartitionEvent KvModel = None" by (simp add: KvModel_def)
  from event_check_sound [OF KvModel_porcupine _ this ex_events_ok r] r show ?thesis
    by (cases res) auto
qed

text \<open>C7. The partition of \<open>KvModel\<close> refines a store of all keys: it does not panic on typed operations, and
  the history of the store is linearizable exactly when every part is linearizable for a single key.\<close>

theorem kv_partition_refines_store:
  assumes "wf_operations ops" "kv_typed ops"
  shows "\<exists>parts. kv_Partition ops = Some parts \<and> mset (concat parts) = mset ops \<and>
    (op_linearizable kvStore ops \<longleftrightarrow> (\<forall>p \<in> set parts. op_linearizable KvModel p))"
proof -
  let ?K = "op_key ` set ops"
  let ?parts = "map (\<lambda>k. filter (\<lambda>q. op_key q = k) ops) (sorted_list_of_set ?K)"
  have "mset (concat (map (\<lambda>k. filter (\<lambda>q. op_key q = k) xs) ks)) = mset (filter (\<lambda>q. op_key q \<in> set ks) xs)"
    if "distinct ks" for ks xs
    using that
  proof (induction ks)
    case (Cons k ks)
    have "filter_mset (\<lambda>q. op_key q = k) (mset xs) + filter_mset (\<lambda>q. op_key q \<in> set ks) (mset xs) =
        filter_mset (\<lambda>q. op_key q = k \<or> op_key q \<in> set ks) (mset xs)"
      using Cons.prems by (induction xs) auto
    with Cons show ?case by simp
  qed simp
  from this [of "sorted_list_of_set ?K" ops] have "mset (concat ?parts) = mset ops"
    by (simp add: filter_True [of ops "\<lambda>q. op_key q \<in> ?K"])
  with kv_Partition_spec [OF assms(2)] kv_partition_correct [OF assms] show ?thesis
    by (intro exI [of _ ?parts]) auto
qed

theorem kv_partition_refines_store_witness:
  "\<exists>parts. kv_Partition [ex_put, ex_get] = Some parts \<and>
    (op_linearizable kvStore [ex_put, ex_get] \<longleftrightarrow> (\<forall>p \<in> set parts. op_linearizable KvModel p))"
  using kv_partition_refines_store [OF ex_ops_ok(1)] ex_ops_ok(2) by (simp add: kv_steps_total) blast

text \<open>C8. \<open>unlift\<close> undoes \<open>lift\<close>: lifting a call and its return out of the list leaves the other nodes linked
  in order, and unlifting gives back the very same heap, as the backtracking of the search needs.\<close>

theorem unlift_undoes_lift:
  assumes "dll h (as @ p # e # bs @ r # cs)" "n_match (h ! e) = Some r"
  shows "\<exists>h'. lift h (Some e) = Some h' \<and> dll h' (as @ p # bs @ cs) \<and> map payload h' = map payload h \<and>
    unlift h' (Some e) = Some h"
  using assms by (rule lift_unlift) blast

definition ex_heap :: "nat heap" where
  "ex_heap =
     [\<lparr>n_value = None, n_match = None, n_id = -1, n_next = Some 1, n_prev = None\<rparr>,
      \<lparr>n_value = Some 5, n_match = Some 2, n_id = 0, n_next = Some 2, n_prev = Some 0\<rparr>,
      \<lparr>n_value = Some 6, n_match = None, n_id = 0, n_next = None, n_prev = Some 1\<rparr>]"

theorem unlift_undoes_lift_witness:
  "\<exists>h'. lift ex_heap (Some 1) = Some h' \<and> dll h' [0] \<and> unlift h' (Some 1) = Some ex_heap"
  using unlift_undoes_lift [of ex_heap "[]" 0 1 "[]" 2 "[]"] by (auto simp: dll_def ex_heap_def)

text \<open>C9. Building the entries of a list of operations, with any sorting function, keeps linearizability: the
  ties of \<open>byTime\<close> put calls before returns, so operations that touch in time stay concurrent.\<close>

theorem makeEntries_keeps_linearizability:
  assumes "entry_sorting srt" "wf_operations ops"
  shows "wf_history (makeEntries srt ops) \<and> (linearizable m (makeEntries srt ops) \<longleftrightarrow> op_linearizable m ops)"
  using entry_sorting.makeEntries_wf [OF assms] entry_sorting.makeEntries_linearizable [OF assms(1)] by blast

theorem makeEntries_keeps_linearizability_witness:
  "wf_history (makeEntries insertionSort [ex_put, ex_get]) \<and>
   (linearizable KvModel (makeEntries insertionSort [ex_put, ex_get]) \<longleftrightarrow> op_linearizable KvModel [ex_put, ex_get])"
  using makeEntries_keeps_linearizability [OF eis.entry_sorting_axioms ex_ops_ok(1)] by blast

text \<open>C10. Renumbering and converting events keeps linearizability and gives a complete history whose
  ids are \<open>0\<close> to \<open>n - 1\<close>, as the bitset of the search needs.\<close>

theorem renumber_keeps_linearizability:
  assumes "wf_events evs"
  shows "wf_history (convertEntries (renumber evs)) \<and>
    (linearizable m (convertEntries (renumber evs)) \<longleftrightarrow> ev_linearizable m evs)"
  using convertEntries_wf [OF assms] convertEntries_linearizable [OF assms] by blast

theorem renumber_keeps_linearizability_witness:
  "linearizable KvModel (convertEntries (renumber ex_events)) \<longleftrightarrow> ev_linearizable KvModel ex_events"
  using renumber_keeps_linearizability [OF ex_events_ok(1)] by blast

text \<open>C11. The bitset of the search is a set of positions: setting and clearing a position in range adds and
  removes it, out of range both panic, the population count is the size of the set modulo \<open>2\<^sup>64\<close>, and bitsets of
  one length are equal, and then have one hash, exactly when their sets are.\<close>

theorem bitset_refines_set:
  "(if unat pos < bitset_cap b
    then (\<exists>b'. bitset_set b pos = Some b' \<and> bits_of b' = insert (unat pos) (bits_of b)) \<and>
      (\<exists>b'. bitset_clear b pos = Some b' \<and> bits_of b' = bits_of b - {unat pos}) \<and>
      bitset_get b pos = Some (unat pos \<in> bits_of b)
    else bitset_set b pos = None \<and> bitset_clear b pos = None \<and> bitset_get b pos = None) \<and>
   bits_of (newBitset n) = {} \<and> unat n \<le> bitset_cap (newBitset n) \<and>
   unat (bitset_popcnt b) = card (bits_of b) mod 2 ^ 64 \<and>
   (if length b = length c then (bitset_equals b c = (bits_of b = bits_of c)) else bitset_equals b c = False) \<and>
   (if bitset_equals b c then bitset_hash b = bitset_hash c else True)"
proof (intro conjI)
  show "if unat pos < bitset_cap b
    then (\<exists>b'. bitset_set b pos = Some b' \<and> bits_of b' = insert (unat pos) (bits_of b)) \<and>
      (\<exists>b'. bitset_clear b pos = Some b' \<and> bits_of b' = bits_of b - {unat pos}) \<and>
      bitset_get b pos = Some (unat pos \<in> bits_of b)
    else bitset_set b pos = None \<and> bitset_clear b pos = None \<and> bitset_get b pos = None"
    using bitset_set_spec [of pos b] bitset_clear_spec [of pos b] bitset_get_spec [of pos b]
      bitset_out_of_range [of b pos] by (cases "unat pos < bitset_cap b") auto
  show "if length b = length c then (bitset_equals b c = (bits_of b = bits_of c)) else bitset_equals b c = False"
    using bs.eq_iff [of b c] by (auto simp: bitset_cap_def bitset_equals_def)
qed (auto simp: newBitset_empty newBitset_cap bitset_popcnt_card unat_of_nat bs.hash_cong)

lemma kv_describable:
  assumes "entry_sorting srt" "kv_typed ops"
  shows "describable (fillDefault fv fs KvModel) (makeEntries srt ops)"
proof -
  have "kv_DescribeOperation a b \<noteq> None"
    if "call_value (makeEntries srt ops) i = Some a" "return_value (makeEntries srt ops) i = Some b" for i a b
  proof -
    have "op_steps_total KvModel ops" using assms(2) by (simp add: kv_steps_total)
    from entry_sorting.steps_defined_makeEntries [OF assms(1) this] that
    have "kv_Step '''' a b \<noteq> None" unfolding steps_defined_def by (auto simp: KvModel_def)
    then show ?thesis by (auto simp: kv_Step_def kv_DescribeOperation_def split: bind_splits)
  qed
  then show ?thesis by (auto simp: describable_def KvModel_def fillDefault_def or_default_def)
qed

text \<open>C12. What a verbose check of the key/value model reports can be visualised: \<open>computeVisualizationData\<close>
  does not reach its panic, shows every reported partial linearization, and points each operation to a longest
  one that contains it.\<close>

theorem kv_visualization:
  assumes "entry_sorting srt" "\<And>xs. mset (perm xs) = mset xs" "wf_operations ops" "kv_typed ops"
    and "checkOperations fv fs srt perm KvModel ops True timeout res info"
    and "\<And>xs. mset (vsrt longer xs) = mset xs"
  shows "\<exists>d. computeVisualizationData fv fs vsrt nilv KvModel info = Some d \<and> length d = length (li_history info) \<and>
    (\<forall>i < length d. map (map ls_Index) (pv_PartialLinearizations (d ! i)) = vsrt longer (li_partials info ! i) \<and>
       (\<exists>ls. largest_ok (vsrt longer (li_partials info ! i)) (pv_Largest (d ! i)) ls))"
proof -
  let ?m = "fillDefault fv fs KvModel"
  have tot: "op_steps_total ?m ops" using assms(4) by (simp add: kv_steps_total)
  note chk = kv_checker [OF assms(1,2), of fv fs]
  from assms(5) obtain l where l: "operation_histories srt ?m ops = Some l"
    "checkParallel ?m perm True timeout l res info"
    by (auto simp: checkOperations_def Let_def)
  have info: "info_ok ?m l res info"
    using operation_checker.operations_sound [OF chk assms(3) tot l] by simp
  obtain l' where "operation_histories srt ?m ops = Some l'" "checkable ?m perm l'"
    using operation_checker.histories [OF chk assms(3) tot] by blast
  with l(1) have wf: "wf_history es" if "es \<in> set l" for es
    using that by (simp add: checkable_def well_posed_def)
  have typed: "kv_typed (filter (\<lambda>q. op_key q = k) ops)" for k
    using assms(4) by (simp add: kv_typed_def)
  have desc: "describable ?m es" if "es \<in> set l" for es
  proof -
    from that l(1) kv_Partition_spec [OF assms(4)] obtain k where "es = makeEntries srt (filter (\<lambda>q. op_key q = k) ops)"
      by (auto simp: operation_histories_def KvModel_def fillDefault_def or_default_def)
    with kv_describable [OF assms(1) typed] show ?thesis by simp
  qed
  have len: "li_history info = l" "length (li_partials info) = length l"
    using info by (simp_all add: info_ok_def)
  have "wf_history (l ! i) \<and> describable ?m (l ! i) \<and> (\<forall>p \<in> set (li_partials info ! i). partial_linearization ?m (l ! i) p)"
    if "i < length l" for i
    using that info wf desc by (simp add: info_ok_def)
  from vis_loop_ok [where srt = vsrt and m = ?m and nilv = nilv, OF len(2) this assms(6)] show ?thesis
    by (auto simp: computeVisualizationData_def len(1))
qed

theorem kv_visualization_witness:
  "\<exists>res info d. checkOperations (\<lambda>_. []) (\<lambda>s. s) insertionSort (\<lambda>xs. xs) KvModel [ex_put, ex_get] True 0 res info \<and>
     computeVisualizationData (\<lambda>_. []) (\<lambda>s. s) (\<lambda>_ xs. xs) (op_Output ex_put) KvModel info = Some d"
proof -
  obtain res info where r: "checkOperations (\<lambda>_. []) (\<lambda>s. s) insertionSort (\<lambda>xs. xs) KvModel [ex_put, ex_get] True 0 res info"
    by (rule ex_check_returns)
  have t: "kv_typed [ex_put, ex_get]" using ex_ops_ok(2) by (simp add: kv_steps_total)
  have "\<exists>d. computeVisualizationData (\<lambda>_. []) (\<lambda>s. s) (\<lambda>_ xs. xs) (op_Output ex_put) KvModel info = Some d"
    using kv_visualization [OF eis.entry_sorting_axioms _ ex_ops_ok(1) t r, of "\<lambda>_ xs. xs" "op_Output ex_put"] by auto
  with r show ?thesis by blast
qed

end
